(* ===== verification/Prelude.thy ===== *)
theory Prelude
  imports Main "HOL-Library.Word" "HOL-Library.List_Lexorder" "HOL-Library.AList"
begin

unbundle bit_operations_syntax

text \<open>
  Shared types and lemmas of the development.

  \<^item> Rust's fixed-width integers are \<open>u8\<close>, \<open>u16\<close>, \<open>u32\<close>, \<open>u64\<close> (words, arithmetic wraps as in a
    release build); \<open>usize\<close> values that only count or index memory are \<open>nat\<close>.
  \<^item> \<open>ID\<close> and \<open>BlobType\<close> are the two basic types of \<open>common/mod.rs\<close>; \<open>MapacheError\<close> is the error
    enum of \<open>common/error.rs\<close> without its message texts; \<open>'a result\<close> is Rust's
    \<open>Result<T, MapacheError>\<close>.
  \<^item> The standard library's \<open>BTreeMap\<close> is a strictly sorted association list (\<open>bt_*\<close>), its
    \<open>HashMap\<close> an association list with distinct keys (\<open>hm_*\<close>), and its slice binary search the
    loop \<open>bsearch_loop\<close>. A \<open>HashMap\<close> iterates in an unspecified order; every list with the
    same entries models it, so a theorem for all lists holds for all orders.
\<close>

named_theorems bt_simps \<open>lookup after an update of a sorted association list\<close>
named_theorems hm_simps \<open>lookup after an update of a hash map\<close>

type_synonym u8 = "8 word"
type_synonym u16 = "16 word"
type_synonym u32 = "32 word"
type_synonym u64 = "64 word"
type_synonym byte = u8
type_synonym bytes = "byte list"

section \<open>Identifiers, blob types, errors\<close>

text \<open>\<open>pub struct ID(pub(crate) Hash256)\<close> with \<open>Hash256 = [u8; 32]\<close>; the array length is the
  predicate \<open>id_ok\<close>. The derived \<open>Ord\<close> is lexicographic on the bytes.\<close>

definition ID_LENGTH :: nat where "ID_LENGTH = 32"

datatype ID = ID (id_bytes: bytes)

definition id_ok :: "ID \<Rightarrow> bool" where
  "id_ok i \<longleftrightarrow> length (id_bytes i) = ID_LENGTH"

instantiation ID :: linorder
begin

definition less_eq_ID :: "ID \<Rightarrow> ID \<Rightarrow> bool" where
  "less_eq_ID a b \<longleftrightarrow> id_bytes a \<le> id_bytes b"

definition less_ID :: "ID \<Rightarrow> ID \<Rightarrow> bool" where
  "less_ID a b \<longleftrightarrow> id_bytes a < id_bytes b"

instance
  by standard (auto simp: less_eq_ID_def less_ID_def intro: ID.expand)

end

datatype BlobType = Data | Tree | Padding

definition blob_type_u8 :: "BlobType \<Rightarrow> u8" where
  "blob_type_u8 t = (case t of Data \<Rightarrow> 0 | Tree \<Rightarrow> 1 | Padding \<Rightarrow> 0xff)"

datatype MapacheError =
    Io | Backend | Auth | Crypto | Compression | Chunking | SnapshotNotFound
  | NotInIndex ID | NotFound | RepoAlreadyExists | Repo | Hook | Locked | LockExpired
  | Integrity | Config | Format | Fuse | Serialization | Interrupted | Internal

type_synonym 'a result = "MapacheError + 'a"

abbreviation Ok :: "'a \<Rightarrow> 'a result" where "Ok \<equiv> Inr"
abbreviation Err :: "MapacheError \<Rightarrow> 'a result" where "Err \<equiv> Inl"

definition bind_result :: "'a result \<Rightarrow> ('a \<Rightarrow> 'b result) \<Rightarrow> 'b result" where
  "bind_result r f = (case r of Inl e \<Rightarrow> Inl e | Inr x \<Rightarrow> f x)"

lemma bind_result_simps [simp]:
  "bind_result (Inl e) f = Inl e" "bind_result (Inr x) f = f x"
  by (simp_all add: bind_result_def)

lemma bind_result_Inr: "bind_result r f = Inr y \<longleftrightarrow> (\<exists>x. r = Inr x \<and> f x = Inr y)"
  by (cases r) auto

definition ok_or :: "'a option \<Rightarrow> MapacheError \<Rightarrow> 'a result" where
  "ok_or x e = (case x of None \<Rightarrow> Inl e | Some y \<Rightarrow> Inr y)"

lemma ok_or_Inr [simp]: "ok_or x e = Inr y \<longleftrightarrow> x = Some y"
  by (cases x) (auto simp: ok_or_def)

lemma ok_or_simps [simp]: "ok_or None e = Inl e" "ok_or (Some y) e = Inr y"
  by (simp_all add: ok_or_def)

text \<open>\<open>BlobType::try_from(u8)\<close>.\<close>

definition blob_type_try_from :: "u8 \<Rightarrow> BlobType result" where
  "blob_type_try_from v =
     (if v = 0 then Ok Data else if v = 1 then Ok Tree else if v = 0xff then Ok Padding
      else Err Format)"

lemma blob_type_roundtrip [simp]: "blob_type_try_from (blob_type_u8 t) = Ok t"
  by (cases t) (auto simp: blob_type_try_from_def blob_type_u8_def)

text \<open>\<open>u32::try_from\<close> of a length: \<open>None\<close> stands for the conversion error.\<close>

definition u32_try_from :: "nat \<Rightarrow> u32 option" where
  "u32_try_from n = (if n < 2 ^ 32 then Some (word_of_nat n) else None)"

lemma unat_of_nat_u32 [simp]: "n < 2 ^ 32 \<Longrightarrow> unat (word_of_nat n :: u32) = n"
  by (simp add: unat_of_nat take_bit_nat_eq_self)

lemma u32_try_from_Some: "u32_try_from n = Some w \<longleftrightarrow> n < 2 ^ 32 \<and> w = word_of_nat n"
  by (auto simp: u32_try_from_def)

section \<open>Vec::swap_remove and slices\<close>

definition slice :: "nat \<Rightarrow> nat \<Rightarrow> 'a list \<Rightarrow> 'a list" where
  "slice from to xs = take (to - from) (drop from xs)"

lemma length_slice [simp]: "length (slice i j xs) = min (j - i) (length xs - i)"
  by (simp add: slice_def)

lemma slice_append_left: "j \<le> length xs \<Longrightarrow> slice i j (xs @ ys) = slice i j xs"
  by (cases "i \<le> j") (auto simp: slice_def)

lemma slice_full_append [simp]: "slice (length xs) (length xs + length ys) (xs @ ys @ zs) = ys"
  by (simp add: slice_def)

section \<open>HashMap as an association list with distinct keys\<close>

abbreviation hm_get :: "('k \<times> 'v) list \<Rightarrow> 'k \<Rightarrow> 'v option" where
  "hm_get \<equiv> map_of"

abbreviation hm_insert :: "'k \<Rightarrow> 'v \<Rightarrow> ('k \<times> 'v) list \<Rightarrow> ('k \<times> 'v) list" where
  "hm_insert \<equiv> AList.update"

definition hm_ok :: "('k \<times> 'v) list \<Rightarrow> bool" where
  "hm_ok m \<longleftrightarrow> distinct (map fst m)"

lemma hm_ok_Nil [simp]: "hm_ok []"
  by (simp add: hm_ok_def)

lemma hm_ok_insert [simp]: "hm_ok m \<Longrightarrow> hm_ok (hm_insert k v m)"
  by (simp add: hm_ok_def distinct_update)

lemma hm_get_insert [hm_simps]: "hm_get (hm_insert k v m) x = (if x = k then Some v else hm_get m x)"
  by (simp add: update_conv)

lemma hm_get_set: "hm_ok m \<Longrightarrow> hm_get m k = Some v \<longleftrightarrow> (k, v) \<in> set m"
  by (auto simp: hm_ok_def intro: map_of_SomeD)

lemma hm_keys_insert [hm_simps]: "fst ` set (hm_insert k v m) = insert k (fst ` set m)"
  using dom_update [of k v m] by (simp add: dom_map_of_conv_image_fst)

section \<open>BTreeMap as a strictly sorted association list\<close>

abbreviation bt_ok :: "('k::linorder \<times> 'v) list \<Rightarrow> bool" where
  "bt_ok m \<equiv> sorted_wrt (<) (map fst m)"

fun bt_insert :: "'k::linorder \<Rightarrow> 'v \<Rightarrow> ('k \<times> 'v) list \<Rightarrow> ('k \<times> 'v) list" where
  "bt_insert k v [] = [(k, v)]"
| "bt_insert k v ((k', v') # m) =
     (if k < k' then (k, v) # (k', v') # m
      else if k = k' then (k, v) # m
      else (k', v') # bt_insert k v m)"

definition bt_remove :: "'k::linorder \<Rightarrow> ('k \<times> 'v) list \<Rightarrow> ('k \<times> 'v) list" where
  "bt_remove k m = filter (\<lambda>(k', v). k' \<noteq> k) m"

lemma bt_get_insert [bt_simps]:
  "map_of (bt_insert k v m) x = (if x = k then Some v else map_of m x)"
  by (induction k v m rule: bt_insert.induct) auto

lemma bt_keys_insert [bt_simps]: "fst ` set (bt_insert k v m) = insert k (fst ` set m)"
  by (induction k v m rule: bt_insert.induct) auto

lemma bt_ok_insert [simp]: "bt_ok m \<Longrightarrow> bt_ok (bt_insert k v m)"
proof (induction k v m rule: bt_insert.induct)
  case (2 k v k' v' m)
  have "fst ` set (bt_insert k v m) = insert k (fst ` set m)" by (rule bt_keys_insert)
  with 2 show ?case by auto
qed simp

lemma bt_get_remove [bt_simps]:
  "map_of (bt_remove k m) x = (if x = k then None else map_of m x)"
  by (induction m) (auto simp: bt_remove_def)

lemma bt_ok_remove [simp]: "bt_ok m \<Longrightarrow> bt_ok (bt_remove k m)"
  unfolding bt_remove_def
  by (induction m) (auto simp: image_iff)

lemma bt_ok_distinct: "bt_ok m \<Longrightarrow> distinct (map fst m)"
  using strict_sorted_iff by blast

lemma bt_insert_max: "\<forall>x\<in>fst ` set m. x < k \<Longrightarrow> bt_insert k v m = m @ [(k, v)]"
  by (induction k v m rule: bt_insert.induct) auto

section \<open>The slice binary search of the standard library\<close>

text \<open>\<open>slice::binary_search_by\<close>: the window \<open>[base, base + size)\<close> is halved until one candidate is
  left, which is compared last. \<open>Inr i\<close> is \<open>Ok(i)\<close>, \<open>Inl i\<close> is \<open>Err(i)\<close> with the insertion point.\<close>

function bsearch_loop :: "'k::linorder list \<Rightarrow> 'k \<Rightarrow> nat \<Rightarrow> nat \<Rightarrow> nat" where
  "bsearch_loop ks k base sz =
     (if sz \<le> 1 then base
      else let half = sz div 2; mid = base + half
           in bsearch_loop ks k (if ks ! mid > k then base else mid) (sz - half))"
  by pat_completeness auto
termination
  by (relation "measure (\<lambda>(ks, k, base, sz). sz)") auto

declare bsearch_loop.simps [simp del]

definition binary_search :: "'k::linorder list \<Rightarrow> 'k \<Rightarrow> nat + nat" where
  "binary_search ks k =
     (if ks = [] then Inl 0
      else let base = bsearch_loop ks k 0 (length ks)
           in if ks ! base = k then Inr base
              else Inl (if ks ! base < k then base + 1 else base))"

lemma bsearch_loop_bounds:
  "base + sz \<le> length ks \<Longrightarrow> sz > 0 \<Longrightarrow>
   base \<le> bsearch_loop ks k base sz \<and> bsearch_loop ks k base sz < base + sz"
proof (induction ks k base sz rule: bsearch_loop.induct)
  case (1 ks k base sz)
  show ?case
  proof (cases "sz \<le> 1")
    case True
    with 1 show ?thesis by (simp add: bsearch_loop.simps [of ks k base sz])
  next
    case False
    let ?mid = "base + sz div 2"
    let ?b = "if ks ! ?mid > k then base else ?mid"
    have "?b \<le> bsearch_loop ks k ?b (sz - sz div 2) \<and>
          bsearch_loop ks k ?b (sz - sz div 2) < ?b + (sz - sz div 2)"
      using "1.IH" [OF False refl refl] False "1.prems" by fastforce
    moreover have "?b + (sz - sz div 2) \<le> base + sz" using False by auto
    ultimately show ?thesis
      using False by (subst (1 2) bsearch_loop.simps) (auto simp: Let_def split: if_splits)
  qed
qed

lemma bsearch_loop_finds:
  assumes "sorted ks"
  shows "base + sz \<le> length ks \<Longrightarrow> sz > 0 \<Longrightarrow> base \<le> i \<Longrightarrow> i < base + sz \<Longrightarrow> ks ! i = k \<Longrightarrow>
         ks ! bsearch_loop ks k base sz = k"
  using assms
proof (induction ks k base sz arbitrary: i rule: bsearch_loop.induct)
  case (1 ks k base sz)
  show ?case
  proof (cases "sz \<le> 1")
    case True
    with 1 have "i = base" by simp
    with True 1 show ?thesis by (simp add: bsearch_loop.simps [of ks k base sz])
  next
    case False
    let ?mid = "base + sz div 2"
    let ?b = "if ks ! ?mid > k then base else ?mid"
    have mid: "?mid < length ks" using False 1 by auto
    let ?i = "if ks ! ?mid > k then i else if i < ?mid then ?mid else i"
    have "ks ! ?i = k" and "?b \<le> ?i" and "?i < ?b + (sz - sz div 2)"
    proof -
      have less: "ks ! ?mid > k \<Longrightarrow> i < ?mid"
        using sorted_nth_mono [OF \<open>sorted ks\<close>, of ?mid i] 1 by (metis leD leI le_less_trans less_le_trans)
      have ge: "i < ?mid \<Longrightarrow> \<not> ks ! ?mid > k \<Longrightarrow> ks ! ?mid = k"
        using sorted_nth_mono [OF \<open>sorted ks\<close>, of i ?mid] mid 1 by force
      show "ks ! ?i = k" using ge 1 by auto
      show "?b \<le> ?i" using 1 by auto
      show "?i < ?b + (sz - sz div 2)" using less 1 False by auto
    qed
    moreover have "?b + (sz - sz div 2) \<le> length ks" using 1 by auto
    moreover have "0 < sz - sz div 2" using False by auto
    ultimately have "ks ! bsearch_loop ks k ?b (sz - sz div 2) = k"
      using "1.IH" [OF False refl refl, of ?i] 1 by blast
    with False show ?thesis by (subst bsearch_loop.simps) (simp add: Let_def)
  qed
qed

text \<open>What a caller relies on: a hit is an index of the key, a miss means the key is absent.\<close>

locale sorted_search =
  fixes search :: "'k::linorder list \<Rightarrow> 'k \<Rightarrow> nat + nat"
  assumes search_hit: "search ks k = Inr i \<Longrightarrow> i < length ks \<and> ks ! i = k"
    and search_miss: "sorted ks \<Longrightarrow> search ks k = Inl i \<Longrightarrow> k \<notin> set ks"
begin

lemma search_iff: "sorted ks \<Longrightarrow> (\<exists>i. search ks k = Inr i) \<longleftrightarrow> k \<in> set ks"
  by (metis nth_mem search_hit search_miss sumE)

definition search_assoc :: "('k \<times> 'v) list \<Rightarrow> 'k \<Rightarrow> 'v option" where
  "search_assoc m k = (case search (map fst m) k of Inl _ \<Rightarrow> None | Inr i \<Rightarrow> Some (snd (m ! i)))"

lemma search_assoc_Some: "search_assoc m k = Some v \<Longrightarrow> (k, v) \<in> set m"
  by (auto simp: search_assoc_def split: sum.splits dest!: search_hit)

lemma search_assoc_None: "sorted (map fst m) \<Longrightarrow> search_assoc m k = None \<longleftrightarrow> k \<notin> fst ` set m"
  using search_iff [of "map fst m" k] by (auto simp: search_assoc_def split: sum.splits)

lemma search_assoc_map_of:
  assumes "sorted (map fst m)" "distinct (map fst m)"
  shows "search_assoc m k = map_of m k"
proof (cases "search_assoc m k")
  case None
  with assms have "k \<notin> fst ` set m" by (simp add: search_assoc_None)
  with None show ?thesis by (simp add: map_of_eq_None_iff [THEN iffD2])
next
  case (Some v)
  from search_assoc_Some [OF this] assms Some show ?thesis by simp
qed

end

interpretation bsearch: sorted_search binary_search
proof
  fix ks :: "'k::linorder list" and k i
  assume "binary_search ks k = Inr i"
  then show "i < length ks \<and> ks ! i = k"
    using bsearch_loop_bounds [of 0 "length ks" ks k]
    by (auto simp: binary_search_def Let_def split: if_splits)
next
  fix ks :: "'k::linorder list" and k i
  assume s: "sorted ks" and miss: "binary_search ks k = Inl i"
  show "k \<notin> set ks"
  proof
    assume "k \<in> set ks"
    then obtain j where "j < length ks" "ks ! j = k" by (auto simp: in_set_conv_nth)
    then have "ks ! bsearch_loop ks k 0 (length ks) = k"
      by (intro bsearch_loop_finds [OF s, of 0 "length ks" j]) auto
    with miss \<open>k \<in> set ks\<close> show False by (auto simp: binary_search_def Let_def split: if_splits)
  qed
qed

end
