(* ===== verification/Bytes.thy ===== *)
theory Bytes
  imports Prelude
begin

text \<open>
  The byte-level codecs: little-endian integers and the cursor reads of \<open>utils/binary.rs\<close>, the
  base64 codec of \<open>utils/base64.rs\<close>, and the hexadecimal form of an \<open>ID\<close> (\<open>common/mod.rs\<close>,
  \<open>utils/mod.rs\<close>). Every encoder is proved to be undone by its decoder, and every decoder's error
  branches are part of the model.
\<close>

section \<open>Little-endian integers\<close>

text \<open>\<open>to_le_bytes\<close> and \<open>from_le_bytes\<close> of the standard library, for any width.\<close>

fun to_le_bytes :: "nat \<Rightarrow> 'a::len word \<Rightarrow> bytes" where
  "to_le_bytes 0 w = []"
| "to_le_bytes (Suc n) w = ucast w # to_le_bytes n (drop_bit 8 w)"

fun from_le_bytes :: "bytes \<Rightarrow> 'a::len word" where
  "from_le_bytes [] = 0"
| "from_le_bytes (b # bs) = ucast b OR push_bit 8 (from_le_bytes bs)"

lemma length_to_le_bytes [simp]: "length (to_le_bytes n w) = n"
  by (induction n arbitrary: w) auto

lemma bit_word_byte: "bit (b :: byte) n \<Longrightarrow> n < 8"
  using bit_imp_le_length [of b n] by simp

lemma from_to_le_bytes_take: "from_le_bytes (to_le_bytes n w) = take_bit (8 * n) (w :: 'a::len word)"
proof (induction n arbitrary: w)
  case (Suc n)
  show ?case
    unfolding to_le_bytes.simps from_le_bytes.simps Suc
    by (rule bit_word_eqI) (auto simp: bit_simps dest: bit_imp_le_length)
qed simp

lemma from_to_le_bytes:
  "LENGTH('a) \<le> 8 * n \<Longrightarrow> from_le_bytes (to_le_bytes n (w :: 'a::len word)) = w"
  by (simp add: from_to_le_bytes_take take_bit_word_eq_self)

section \<open>utils/binary.rs\<close>

definition put_u8 :: "bytes \<Rightarrow> u8 \<Rightarrow> bytes" where
  "put_u8 buf v = buf @ [v]"

definition put_u16 :: "bytes \<Rightarrow> u16 \<Rightarrow> bytes" where
  "put_u16 buf v = buf @ to_le_bytes 2 v"

definition put_u32 :: "bytes \<Rightarrow> u32 \<Rightarrow> bytes" where
  "put_u32 buf v = buf @ to_le_bytes 4 v"

definition put_u64 :: "bytes \<Rightarrow> u64 \<Rightarrow> bytes" where
  "put_u64 buf v = buf @ to_le_bytes 8 v"

text \<open>An \<open>i64\<close> and a \<open>u64\<close> have the same bytes: both are the 64-bit word (read with \<open>sint\<close>).\<close>

definition put_i64 :: "bytes \<Rightarrow> u64 \<Rightarrow> bytes" where
  "put_i64 buf v = buf @ to_le_bytes 8 v"

definition put_bytes :: "bytes \<Rightarrow> bytes \<Rightarrow> bytes" where
  "put_bytes buf v = buf @ v"

text \<open>The readers advance the cursor: they return the value and the rest of the input.\<close>

definition get_exact :: "bytes \<Rightarrow> nat \<Rightarrow> (bytes \<times> bytes) result" where
  "get_exact buf len =
     (if length buf < len then Err Format else Ok (take len buf, drop len buf))"

text \<open>\<open>get_array\<close> turns the slice into an array of the same length; its \<open>expect\<close> cannot fail
  (\<open>get_array_length\<close>).\<close>

definition get_array :: "nat \<Rightarrow> bytes \<Rightarrow> (bytes \<times> bytes) result" where
  "get_array n buf = get_exact buf n"

definition get_u8 :: "bytes \<Rightarrow> (u8 \<times> bytes) result" where
  "get_u8 buf = bind_result (get_array 1 buf) (\<lambda>(arr, rest). Ok (arr ! 0, rest))"

definition get_u16 :: "bytes \<Rightarrow> (u16 \<times> bytes) result" where
  "get_u16 buf = bind_result (get_array 2 buf) (\<lambda>(arr, rest). Ok (from_le_bytes arr, rest))"

definition get_u32 :: "bytes \<Rightarrow> (u32 \<times> bytes) result" where
  "get_u32 buf = bind_result (get_array 4 buf) (\<lambda>(arr, rest). Ok (from_le_bytes arr, rest))"

definition get_u64 :: "bytes \<Rightarrow> (u64 \<times> bytes) result" where
  "get_u64 buf = bind_result (get_array 8 buf) (\<lambda>(arr, rest). Ok (from_le_bytes arr, rest))"

definition get_i64 :: "bytes \<Rightarrow> (u64 \<times> bytes) result" where
  "get_i64 buf = bind_result (get_array 8 buf) (\<lambda>(arr, rest). Ok (from_le_bytes arr, rest))"

lemma get_array_length: "get_array n buf = Ok (arr, rest) \<Longrightarrow> length arr = n \<and> arr @ rest = buf"
  by (auto simp: get_array_def get_exact_def split: if_splits)

lemma get_array_append: "length arr = n \<Longrightarrow> get_array n (arr @ rest) = Ok (arr, rest)"
  by (simp add: get_array_def get_exact_def)

lemma get_u8_cons [simp]: "get_u8 (v # rest) = Ok (v, rest)"
  by (simp add: get_u8_def get_array_def get_exact_def)

lemma get_u32_le [simp]: "get_u32 (to_le_bytes 4 v @ rest) = Ok (v, rest)"
  by (simp add: get_u32_def get_array_append from_to_le_bytes)

lemma get_u64_le [simp]: "get_u64 (to_le_bytes 8 v @ rest) = Ok (v, rest)"
  by (simp add: get_u64_def get_array_append from_to_le_bytes)

lemma get_u16_le [simp]: "get_u16 (to_le_bytes 2 v @ rest) = Ok (v, rest)"
  by (simp add: get_u16_def get_array_append from_to_le_bytes)

lemma get_i64_le [simp]: "get_i64 (to_le_bytes 8 v @ rest) = Ok (v, rest)"
  by (simp add: get_i64_def get_array_append from_to_le_bytes)

section \<open>utils/base64.rs\<close>

text \<open>Text is the list of its bytes: the encoder writes ASCII only and the decoder works on
  \<open>input.as_bytes()\<close>.\<close>

definition ALPHABET :: bytes where
  "ALPHABET = map (\<lambda>c. word_of_nat (of_char c))
     ''ABCDEFGHIJKLMNOPQRSTUVWXYZabcdefghijklmnopqrstuvwxyz0123456789+/''"

abbreviation PAD :: byte where "PAD \<equiv> 61"

text \<open>One chunk of up to three bytes; absent bytes count as zero, absent digits are padding.\<close>

definition encode_chunk :: "bytes \<Rightarrow> bytes" where
  "encode_chunk chunk =
     (let b0 = ucast (chunk ! 0) :: u32;
          b1 = (if length chunk > 1 then ucast (chunk ! 1) else 0) :: u32;
          b2 = (if length chunk > 2 then ucast (chunk ! 2) else 0) :: u32;
          triple = push_bit 16 b0 OR push_bit 8 b1 OR b2
      in [ALPHABET ! unat (drop_bit 18 triple AND 0x3F), ALPHABET ! unat (drop_bit 12 triple AND 0x3F),
          (if length chunk > 1 then ALPHABET ! unat (drop_bit 6 triple AND 0x3F) else PAD),
          (if length chunk > 2 then ALPHABET ! unat (triple AND 0x3F) else PAD)])"

text \<open>\<open>slice::chunks\<close>.\<close>

function chunks :: "nat \<Rightarrow> 'a list \<Rightarrow> 'a list list" where
  "chunks n xs = (if xs = [] \<or> n = 0 then [] else take n xs # chunks n (drop n xs))"
  by pat_completeness auto
termination
  by (relation "measure (\<lambda>(n, xs). length xs)") auto

declare chunks.simps [simp del]

lemma chunks_Nil [simp]: "chunks n [] = []"
  by (simp add: chunks.simps)

definition base64_encode :: "bytes \<Rightarrow> bytes" where
  "base64_encode input = concat (map encode_chunk (chunks 3 input))"

definition decode_char :: "byte \<Rightarrow> u32 option" where
  "decode_char c =
     (if 65 \<le> c \<and> c \<le> 90 then Some (ucast (c - 65))
      else if 97 \<le> c \<and> c \<le> 122 then Some (ucast (c - 97 + 26))
      else if 48 \<le> c \<and> c \<le> 57 then Some (ucast (c - 48 + 52))
      else if c = 43 then Some 62
      else if c = 47 then Some 63
      else if c = PAD then Some 0
      else None)"

fun decode_chars :: "bytes \<Rightarrow> u32 list result" where
  "decode_chars [] = Ok []"
| "decode_chars (c # cs) =
     (case decode_char c of None \<Rightarrow> Err Format
      | Some v \<Rightarrow> bind_result (decode_chars cs) (\<lambda>vs. Ok (v # vs)))"

definition decode_chunk :: "bytes \<Rightarrow> bytes result" where
  "decode_chunk chunk =
     bind_result (decode_chars chunk) (\<lambda>buf.
       let triple = push_bit 18 (buf ! 0) OR push_bit 12 (buf ! 1) OR push_bit 6 (buf ! 2) OR buf ! 3
       in Ok ([ucast (drop_bit 16 triple)]
              @ (if chunk ! 2 \<noteq> PAD then [ucast (drop_bit 8 triple)] else [])
              @ (if chunk ! 3 \<noteq> PAD then [ucast triple] else [])))"

fun decode_all :: "bytes list \<Rightarrow> bytes result" where
  "decode_all [] = Ok []"
| "decode_all (c # cs) =
     bind_result (decode_chunk c) (\<lambda>out. bind_result (decode_all cs) (\<lambda>outs. Ok (out @ outs)))"

definition base64_decode :: "bytes \<Rightarrow> bytes result" where
  "base64_decode input =
     (if length input mod 4 \<noteq> 0 then Err Format else decode_all (chunks 4 input))"

lemma and_0x3F: "w AND 0x3F = take_bit 6 (w :: u32)"
  by (simp add: take_bit_eq_mask mask_eq_exp_minus_1)

lemma ALPHABET_list: "ALPHABET = [
    65, 66, 67, 68, 69, 70, 71, 72, 73, 74, 75, 76, 77, 78, 79, 80, 81, 82, 83, 84, 85, 86,
    87, 88, 89, 90, 97, 98, 99, 100, 101, 102, 103, 104, 105, 106, 107, 108, 109, 110, 111,
    112, 113, 114, 115, 116, 117, 118, 119, 120, 121, 122, 48, 49, 50, 51, 52, 53, 54, 55, 56,
    57, 43, 47]"
  by (simp add: ALPHABET_def)

lemma alphabet_decode_all:
  "list_all2 (\<lambda>c i. decode_char c = Some i \<and> c \<noteq> PAD) ALPHABET [
    0, 1, 2, 3, 4, 5, 6, 7, 8, 9, 10, 11, 12, 13, 14, 15, 16, 17, 18, 19, 20, 21, 22, 23, 24,
    25, 26, 27, 28, 29, 30, 31, 32, 33, 34, 35, 36, 37, 38, 39, 40, 41, 42, 43, 44, 45, 46,
    47, 48, 49, 50, 51, 52, 53, 54, 55, 56, 57, 58, 59, 60, 61, 62, 63]"
  by (simp add: ALPHABET_list decode_char_def)

lemma alphabet_decode:
  assumes "i < 64"
  shows "decode_char (ALPHABET ! i) = Some (word_of_nat i) \<and> ALPHABET ! i \<noteq> PAD"
proof -
  have "[
    0, 1, 2, 3, 4, 5, 6, 7, 8, 9, 10, 11, 12, 13, 14, 15, 16, 17, 18, 19, 20, 21, 22, 23, 24,
    25, 26, 27, 28, 29, 30, 31, 32, 33, 34, 35, 36, 37, 38, 39, 40, 41, 42, 43, 44, 45, 46,
    47, 48, 49, 50, 51, 52, 53, 54, 55, 56, 57, 58, 59, 60, 61, 62, 63] = (map word_of_nat [0..<64] :: u32 list)"
    by (simp add: upt_rec)
  with alphabet_decode_all have
    "list_all2 (\<lambda>c i. decode_char c = Some i \<and> c \<noteq> PAD) ALPHABET (map word_of_nat [0..<64])"
    by (simp only:)
  from list_all2_nthD2 [OF this, of i] assms show ?thesis by simp
qed

lemma unat_take_bit_6: "unat (take_bit 6 (w :: u32)) < 64"
  using take_bit_nat_less_exp [of 6 "unat w"] by (simp add: unsigned_take_bit_eq)

lemma decode_digit:
  "decode_char (ALPHABET ! unat (take_bit 6 (w :: u32))) = Some (take_bit 6 w)"
  "ALPHABET ! unat (take_bit 6 (w :: u32)) \<noteq> PAD"
  using alphabet_decode [OF unat_take_bit_6, of w] by (simp_all del: unsigned_take_bit_eq)

text \<open>The six-bit digits of a 24-bit value determine it, and its three bytes are the input's.\<close>

lemma digits_recombine:
  assumes "take_bit 24 t = (t :: u32)"
  shows "push_bit 18 (take_bit 6 (drop_bit 18 t)) OR push_bit 12 (take_bit 6 (drop_bit 12 t))
         OR push_bit 6 (take_bit 6 (drop_bit 6 t)) OR take_bit 6 t = t"
proof (rule bit_word_eqI)
  fix n assume "n < LENGTH(32)"
  have "bit t n \<Longrightarrow> n < 24" using assms by (metis bit_take_bit_iff)
  then show "bit (push_bit 18 (take_bit 6 (drop_bit 18 t)) OR push_bit 12 (take_bit 6 (drop_bit 12 t))
         OR push_bit 6 (take_bit 6 (drop_bit 6 t)) OR take_bit 6 t) n = bit t n"
    using \<open>n < LENGTH(32)\<close>
    by (cases "n < 6"; cases "n < 12"; cases "n < 18") (auto simp: bit_simps)
qed

definition triple_of :: "byte \<Rightarrow> byte \<Rightarrow> byte \<Rightarrow> u32" where
  "triple_of b0 b1 b2 = push_bit 16 (ucast b0) OR push_bit 8 (ucast b1) OR ucast b2"

lemma triple_24: "take_bit 24 (triple_of b0 b1 b2) = triple_of b0 b1 b2"
  unfolding triple_of_def by (rule bit_word_eqI) (auto simp: bit_simps dest: bit_word_byte)

lemma triple_bytes:
  "ucast (drop_bit 16 (triple_of b0 b1 b2)) = b0"
  "ucast (drop_bit 8 (triple_of b0 b1 b2)) = b1"
  "ucast (triple_of b0 b1 b2) = b2"
  unfolding triple_of_def by (rule bit_word_eqI, auto simp: bit_simps dest: bit_word_byte)+

lemma triple_low_zero:
  "take_bit 6 (triple_of b0 0 0) = 0" "take_bit 6 (drop_bit 6 (triple_of b0 0 0)) = 0"
  "take_bit 6 (triple_of b0 b1 0) = 0"
  unfolding triple_of_def by (rule bit_word_eqI, auto simp: bit_simps dest: bit_word_byte)+

lemma decode_PAD: "decode_char PAD = Some 0"
  by (simp add: decode_char_def)

lemma decode_encode_chunk:
  assumes "chunk \<noteq> []" "length chunk \<le> 3"
  shows "decode_chunk (encode_chunk chunk) = Ok chunk"
proof -
  from assms consider b0 where "chunk = [b0]" | b0 b1 where "chunk = [b0, b1]"
    | b0 b1 b2 where "chunk = [b0, b1, b2]"
    by (cases chunk; cases "tl chunk"; cases "tl (tl chunk)") auto
  then show ?thesis
  proof cases
    case 1
    have r: "push_bit 18 (take_bit 6 (drop_bit 18 (triple_of b0 0 0)))
       OR push_bit 12 (take_bit 6 (drop_bit 12 (triple_of b0 0 0))) = triple_of b0 0 0"
      using digits_recombine [OF triple_24, of b0 0 0] by (simp add: triple_low_zero)
    have "encode_chunk chunk = [ALPHABET ! unat (take_bit 6 (drop_bit 18 (triple_of b0 0 0))),
        ALPHABET ! unat (take_bit 6 (drop_bit 12 (triple_of b0 0 0))), PAD, PAD]"
      by (simp add: 1 encode_chunk_def Let_def and_0x3F triple_of_def)
    then show ?thesis
      by (simp add: 1 decode_chunk_def decode_digit decode_PAD r triple_bytes del: drop_bit_or)
  next
    case 2
    have r: "push_bit 18 (take_bit 6 (drop_bit 18 (triple_of b0 b1 0)))
       OR push_bit 12 (take_bit 6 (drop_bit 12 (triple_of b0 b1 0)))
       OR push_bit 6 (take_bit 6 (drop_bit 6 (triple_of b0 b1 0))) = triple_of b0 b1 0"
      using digits_recombine [OF triple_24, of b0 b1 0] by (simp add: triple_low_zero)
    have "encode_chunk chunk = [ALPHABET ! unat (take_bit 6 (drop_bit 18 (triple_of b0 b1 0))),
        ALPHABET ! unat (take_bit 6 (drop_bit 12 (triple_of b0 b1 0))),
        ALPHABET ! unat (take_bit 6 (drop_bit 6 (triple_of b0 b1 0))), PAD]"
      by (simp add: 2 encode_chunk_def Let_def and_0x3F triple_of_def)
    then show ?thesis
      by (simp add: 2 decode_chunk_def decode_digit decode_PAD r triple_bytes del: drop_bit_or)
  next
    case 3
    have "encode_chunk chunk = [ALPHABET ! unat (take_bit 6 (drop_bit 18 (triple_of b0 b1 b2))),
        ALPHABET ! unat (take_bit 6 (drop_bit 12 (triple_of b0 b1 b2))),
        ALPHABET ! unat (take_bit 6 (drop_bit 6 (triple_of b0 b1 b2))),
        ALPHABET ! unat (take_bit 6 (triple_of b0 b1 b2))]"
      by (simp add: 3 encode_chunk_def Let_def and_0x3F triple_of_def)
    then show ?thesis
      by (simp add: 3 decode_chunk_def decode_digit digits_recombine [OF triple_24] triple_bytes
          del: drop_bit_or)
  qed
qed

lemma length_encode_chunk [simp]: "length (encode_chunk c) = 4"
  by (simp add: encode_chunk_def Let_def)

lemma chunks_concat:
  "\<forall>c\<in>set cs. length c = n \<Longrightarrow> n > 0 \<Longrightarrow> chunks n (concat cs) = cs"
proof (induction cs)
  case (Cons c cs)
  then have "c \<noteq> []" by auto
  with Cons show ?case by (simp add: chunks.simps [of n "c @ concat cs"])
qed simp

lemma chunks_bounds: "n > 0 \<Longrightarrow> c \<in> set (chunks n xs) \<Longrightarrow> c \<noteq> [] \<and> length c \<le> n"
proof (induction n xs rule: chunks.induct)
  case (1 n xs)
  then show ?case
    by (cases "xs = []") (auto simp: chunks.simps [of n xs])
qed

lemma concat_chunks: "n > 0 \<Longrightarrow> concat (chunks n xs) = xs"
proof (induction n xs rule: chunks.induct)
  case (1 n xs)
  then show ?case
    by (cases "xs = []") (auto simp: chunks.simps [of n xs])
qed

lemma decode_all_encode:
  "\<forall>c\<in>set cs. c \<noteq> [] \<and> length c \<le> 3 \<Longrightarrow> decode_all (map encode_chunk cs) = Ok (concat cs)"
  by (induction cs) (simp_all add: decode_encode_chunk)

text \<open>Base64 round trip. Decoding what \<open>encode\<close> produced gives back the input, for every
  byte string.\<close>

theorem base64_roundtrip: "base64_decode (base64_encode xs) = Ok xs"
proof -
  have "chunks 4 (base64_encode xs) = map encode_chunk (chunks 3 xs)"
    unfolding base64_encode_def by (rule chunks_concat) auto
  moreover have "length (base64_encode xs) mod 4 = 0"
    by (simp add: base64_encode_def length_concat comp_def sum_list_triv)
  ultimately show ?thesis
    using chunks_bounds [of 3 _ xs]
    by (simp add: base64_decode_def decode_all_encode concat_chunks)
qed

section \<open>Hexadecimal identifiers\<close>

text \<open>A Rust \<open>&str\<close> is the list of its code points; \<open>str::len\<close> counts UTF-8 bytes, \<open>str::chars\<close>
  yields code points.\<close>

type_synonym codepoint = nat

definition utf8_len :: "codepoint \<Rightarrow> nat" where
  "utf8_len c = (if c < 0x80 then 1 else if c < 0x800 then 2 else if c < 0x10000 then 3 else 4)"

definition str_len :: "codepoint list \<Rightarrow> nat" where
  "str_len s = sum_list (map utf8_len s)"

text \<open>\<open>char::from_digit(d, 16)\<close>; the source's \<open>expect\<close> holds since a nibble is below 16.\<close>

definition from_digit :: "nat \<Rightarrow> codepoint" where
  "from_digit d = (if d < 10 then 48 + d else 97 + (d - 10))"

definition bytes_to_hex :: "bytes \<Rightarrow> codepoint list" where
  "bytes_to_hex bs =
     concat (map (\<lambda>b. [from_digit (unat (drop_bit 4 b)), from_digit (unat (b AND 0xf))]) bs)"

definition to_hex :: "ID \<Rightarrow> codepoint list" where
  "to_hex i = bytes_to_hex (id_bytes i)"

definition hex_char_to_byte :: "codepoint \<Rightarrow> u8 option" where
  "hex_char_to_byte c =
     (if 48 \<le> c \<and> c \<le> 57 then Some (word_of_nat (c - 48))
      else if 97 \<le> c \<and> c \<le> 102 then Some (word_of_nat (c - 97 + 10))
      else if 65 \<le> c \<and> c \<le> 70 then Some (word_of_nat (c - 65 + 10))
      else None)"

text \<open>The loop over the 32 bytes of the array, two characters per byte.\<close>

fun from_hex_loop :: "nat \<Rightarrow> codepoint list \<Rightarrow> bytes result" where
  "from_hex_loop 0 cs = Ok []"
| "from_hex_loop (Suc n) cs =
     (case cs of
        hi # lo # rest \<Rightarrow>
          bind_result (ok_or (hex_char_to_byte hi) Format) (\<lambda>h.
          bind_result (ok_or (hex_char_to_byte lo) Format) (\<lambda>l.
          bind_result (from_hex_loop n rest) (\<lambda>bs. Ok ((push_bit 4 h OR l) # bs))))
      | _ \<Rightarrow> Err Format)"

definition from_hex :: "codepoint list \<Rightarrow> ID result" where
  "from_hex s =
     (if str_len s \<noteq> 2 * ID_LENGTH then Err Format
      else bind_result (from_hex_loop ID_LENGTH s) (\<lambda>bs. Ok (ID bs)))"

lemma hex_digit_inverse: "d < 16 \<Longrightarrow> hex_char_to_byte (from_digit d) = Some (word_of_nat d)"
  by (auto simp: hex_char_to_byte_def from_digit_def)

lemma unat_nibbles: "unat (drop_bit 4 (b :: byte)) < 16" "unat ((b :: byte) AND 0xf) < 16"
proof -
  have "unat b < 256" using unsigned_less [of b] by simp
  then show "unat (drop_bit 4 b) < 16"
    by (simp only: unat_drop_bit_eq) (simp add: drop_bit_eq_div)
  have "b AND 0xf = take_bit 4 b" by (simp add: take_bit_eq_mask mask_eq_exp_minus_1)
  then show "unat (b AND 0xf) < 16"
    using take_bit_nat_less_exp [of 4 "unat b"] by (simp add: unsigned_take_bit_eq)
qed

lemma nibbles_recombine: "push_bit 4 (drop_bit 4 (b :: byte)) OR (b AND 0xf) = b"
proof -
  have "b AND 0xf = take_bit 4 b" by (simp add: take_bit_eq_mask mask_eq_exp_minus_1)
  moreover have "push_bit 4 (drop_bit 4 b) OR take_bit 4 b = b"
    by (rule bit_word_eqI) (auto simp: bit_simps)
  ultimately show ?thesis by (simp only:)
qed

lemma from_hex_loop_bytes: "from_hex_loop (length bs) (bytes_to_hex bs) = Ok bs"
  by (induction bs)
    (simp_all add: bytes_to_hex_def hex_digit_inverse unat_nibbles nibbles_recombine)

lemma from_digit_ascii: "d < 16 \<Longrightarrow> utf8_len (from_digit d) = 1"
  by (auto simp: utf8_len_def from_digit_def)

lemma str_len_bytes_to_hex: "str_len (bytes_to_hex bs) = 2 * length bs"
  by (induction bs) (simp_all add: str_len_def bytes_to_hex_def from_digit_ascii unat_nibbles)

lemma from_hex_loop_length: "from_hex_loop n cs = Ok bs \<Longrightarrow> length bs = n"
  by (induction n cs arbitrary: bs rule: from_hex_loop.induct)
    (auto simp: bind_result_Inr split: list.splits)

lemma from_hex_to_hex: "id_ok i \<Longrightarrow> from_hex (to_hex i) = Ok i"
proof -
  assume "id_ok i"
  then have "from_hex_loop ID_LENGTH (bytes_to_hex (id_bytes i)) = Ok (id_bytes i)"
    using from_hex_loop_bytes [of "id_bytes i"] by (simp add: id_ok_def)
  with \<open>id_ok i\<close> show ?thesis
    by (simp add: id_ok_def from_hex_def to_hex_def str_len_bytes_to_hex)
qed

lemma from_hex_id_ok: "from_hex s = Ok i \<Longrightarrow> id_ok i"
  by (auto simp: from_hex_def id_ok_def bind_result_Inr split: if_splits dest: from_hex_loop_length)

text \<open>An identifier survives the round trip through its hexadecimal file name.\<close>

theorem id_hex_roundtrip: "id_ok i \<Longrightarrow> from_hex (to_hex i) = Ok i"
  by (rule from_hex_to_hex)

theorem id_hex_roundtrip_witness: "from_hex (to_hex (ID (replicate 32 0xa7))) = Ok (ID (replicate 32 0xa7))"
  by (rule id_hex_roundtrip) (simp add: id_ok_def ID_LENGTH_def)



text \<open>A record written field by field with \<open>put_u8\<close> \<open>..\<close> \<open>put_bytes\<close> is read back by the
  matching cursor reads, leaving exactly the rest of the buffer.\<close>

theorem binary_roundtrip:
  "bind_result (get_array (length idb)
      (put_i64 (put_u64 (put_u32 (put_u16 (put_u8 (put_bytes [] idb) t) h) l) q) z @ rest))
      (\<lambda>(i, cur1). bind_result (get_u8 cur1)
      (\<lambda>(t', cur2). bind_result (get_u16 cur2)
      (\<lambda>(h', cur3). bind_result (get_u32 cur3)
      (\<lambda>(l', cur4). bind_result (get_u64 cur4)
      (\<lambda>(q', cur5). bind_result (get_i64 cur5)
      (\<lambda>(z', cur6). Ok (i, t', h', l', q', z', cur6))))))) =
   Ok (idb, t, h, l, q, z, rest)"
  by (simp add: put_bytes_def put_u8_def put_u16_def put_u32_def put_u64_def put_i64_def
      get_array_append)

end
