(* ===== verification/Collections.thy ===== *)
theory Collections
  imports Prelude Bytes
begin

text \<open>
  The containers of \<open>utils/collections\<close>: the enumerable \<open>IndexSet\<close> (\<open>index_set.rs\<close>), the \<open>Lru\<close>
  cache (\<open>lru.rs\<close>), the \<open>ShardedIdSet\<close> (\<open>sharded_id_set.rs\<close>) and the \<open>BloomFilter\<close>
  (\<open>bloom_filter.rs\<close>). Each has its record, its operations, a well-formedness invariant kept by
  every operation, and the contract its clients rely on: stable indices for \<open>IndexSet\<close>, a plain
  set for \<open>ShardedIdSet\<close>, recency order for \<open>Lru\<close>, no false negatives for \<open>BloomFilter\<close>.
\<close>

section \<open>IndexSet\<close>

record 'a IndexSet =
  is_values :: "'a list"
  is_map :: "'a \<rightharpoonup> nat"

definition is_new :: "'a IndexSet" where
  "is_new = \<lparr>is_values = [], is_map = Map.empty\<rparr>"

definition is_insert :: "'a IndexSet \<Rightarrow> 'a \<Rightarrow> 'a IndexSet \<times> nat" where
  "is_insert s item =
     (case is_map s item of
        Some idx \<Rightarrow> (s, idx)
      | None \<Rightarrow>
          let index = length (is_values s)
          in (\<lparr>is_values = is_values s @ [item], is_map = (is_map s)(item \<mapsto> index)\<rparr>, index))"

text \<open>\<open>Vec::swap_remove(i)\<close>: the last element takes the place of the removed one.\<close>

definition swap_remove :: "'a list \<Rightarrow> nat \<Rightarrow> 'a list" where
  "swap_remove xs i = butlast (xs[i := last xs])"

text \<open>\<open>None\<close> is a panic: \<open>swap_remove\<close> out of range, or the \<open>expect\<close> on the moved item.\<close>

definition is_remove :: "'a IndexSet \<Rightarrow> 'a \<Rightarrow> ('a IndexSet \<times> bool) option" where
  "is_remove s item =
     (case is_map s item of
        None \<Rightarrow> Some (s, False)
      | Some value_index \<Rightarrow>
          let map' = (is_map s)(item := None);
              last_index = length (is_values s) - 1
          in if value_index \<noteq> last_index then
               (if length (is_values s) \<le> value_index then None
                else let values' = swap_remove (is_values s) value_index;
                         moved_item = values' ! value_index
                     in (case map' moved_item of
                           None \<Rightarrow> None
                         | Some _ \<Rightarrow>
                             Some (\<lparr>is_values = values', is_map = map'(moved_item \<mapsto> value_index)\<rparr>, True)))
             else Some (\<lparr>is_values = butlast (is_values s), is_map = map'\<rparr>, True))"

definition is_contains :: "'a IndexSet \<Rightarrow> 'a \<Rightarrow> bool" where
  "is_contains s v \<longleftrightarrow> is_map s v \<noteq> None"

definition is_get_index :: "'a IndexSet \<Rightarrow> 'a \<Rightarrow> nat option" where
  "is_get_index s v = is_map s v"

definition is_get_value :: "'a IndexSet \<Rightarrow> nat \<Rightarrow> 'a option" where
  "is_get_value s i = (if i < length (is_values s) then Some (is_values s ! i) else None)"

definition is_iter :: "'a IndexSet \<Rightarrow> 'a list" where
  "is_iter s = is_values s"

definition is_len :: "'a IndexSet \<Rightarrow> nat" where
  "is_len s = length (is_values s)"

text \<open>The invariant: the map is exactly the inverse of the vector.\<close>

definition is_ok :: "'a IndexSet \<Rightarrow> bool" where
  "is_ok s \<longleftrightarrow> (\<forall>x i. is_map s x = Some i \<longleftrightarrow> i < length (is_values s) \<and> is_values s ! i = x)"

lemma is_ok_new [simp]: "is_ok is_new"
  by (simp add: is_ok_def is_new_def)

lemma is_ok_distinct: "is_ok s \<Longrightarrow> distinct (is_values s)"
  unfolding is_ok_def distinct_conv_nth by (metis option.inject)

lemma is_okD:
  assumes "is_ok s"
  shows "is_map s x = Some i \<Longrightarrow> i < length (is_values s) \<and> is_values s ! i = x"
    and "i < length (is_values s) \<Longrightarrow> is_map s (is_values s ! i) = Some i"
    and "x \<notin> set (is_values s) \<Longrightarrow> is_map s x = None"
proof -
  have inv: "is_map s y = Some j \<longleftrightarrow> j < length (is_values s) \<and> is_values s ! j = y" for y j
    using assms by (simp add: is_ok_def)
  show "is_map s x = Some i \<Longrightarrow> i < length (is_values s) \<and> is_values s ! i = x"
    and "i < length (is_values s) \<Longrightarrow> is_map s (is_values s ! i) = Some i" by (simp_all add: inv)
  show "x \<notin> set (is_values s) \<Longrightarrow> is_map s x = None"
    using inv [of x] nth_mem by (metis not_None_eq)
qed

lemma is_ok_contains: "is_ok s \<Longrightarrow> is_contains s x \<longleftrightarrow> x \<in> set (is_values s)"
  unfolding is_contains_def
  by (metis is_okD(1) is_okD(2) is_okD(3) in_set_conv_nth not_None_eq)

lemma is_okI:
  assumes "\<And>i. i < length vs \<Longrightarrow> m (vs ! i) = Some i" "\<And>x. x \<notin> set vs \<Longrightarrow> m x = None"
  shows "is_ok \<lparr>is_values = vs, is_map = m\<rparr>"
proof -
  have "m x = Some i \<longleftrightarrow> i < length vs \<and> vs ! i = x" for x i
  proof
    assume m: "m x = Some i"
    then have "x \<in> set vs" using assms(2) by force
    then obtain j where "j < length vs" "x = vs ! j" by (auto simp: in_set_conv_nth)
    with assms(1) [of j] m show "i < length vs \<and> vs ! i = x" by simp
  next
    assume "i < length vs \<and> vs ! i = x"
    then show "m x = Some i" using assms(1) [of i] by simp
  qed
  then show ?thesis by (simp add: is_ok_def)
qed

lemma is_ok_insert:
  assumes "is_ok s"
  shows "is_ok (fst (is_insert s x))"
proof (cases "is_map s x")
  case None
  have "is_ok \<lparr>is_values = is_values s @ [x], is_map = (is_map s)(x \<mapsto> length (is_values s))\<rparr>"
  proof (rule is_okI)
    fix i assume "i < length (is_values s @ [x])"
    then show "((is_map s)(x \<mapsto> length (is_values s))) ((is_values s @ [x]) ! i) = Some i"
      using is_okD(2) [OF assms, of i] None by (auto simp: nth_append)
  qed (use is_okD(3) [OF assms] in auto)
  with None show ?thesis by (simp add: is_insert_def Let_def)
qed (use assms in \<open>simp add: is_insert_def\<close>)

lemma is_insert_index:
  "is_ok s \<Longrightarrow> is_get_value (fst (is_insert s x)) (snd (is_insert s x)) = Some x"
  unfolding is_ok_def is_insert_def is_get_value_def
  by (auto simp: Let_def split: option.splits)

lemma is_insert_stable:
  "is_get_value s i = Some v \<Longrightarrow> is_get_value (fst (is_insert s x)) i = Some v"
  unfolding is_insert_def is_get_value_def
  by (auto simp: Let_def nth_append split: option.splits if_splits)

lemma is_insert_set: "is_ok s \<Longrightarrow> set (is_values (fst (is_insert s x))) = insert x (set (is_values s))"
  using is_okD(1) [of s x] unfolding is_insert_def
  by (cases "is_map s x") (auto simp: Let_def)

text \<open>What a client that stores indices instead of values relies on.\<close>

locale interner =
  fixes ins :: "'s \<Rightarrow> 'a \<Rightarrow> 's \<times> nat"
    and val :: "'s \<Rightarrow> nat \<Rightarrow> 'a option"
    and ok :: "'s \<Rightarrow> bool"
  assumes ok_ins: "ok s \<Longrightarrow> ok (fst (ins s x))"
    and val_ins: "ok s \<Longrightarrow> val (fst (ins s x)) (snd (ins s x)) = Some x"
    and val_stable: "val s i = Some v \<Longrightarrow> val (fst (ins s x)) i = Some v"
begin

lemma ins_run_ok: "ok s \<Longrightarrow> ok (fold (\<lambda>x s. fst (ins s x)) xs s)"
  by (induction xs arbitrary: s) (auto simp: ok_ins)

lemma ins_run_stable:
  "val s i = Some v \<Longrightarrow> val (fold (\<lambda>x s. fst (ins s x)) xs s) i = Some v"
  by (induction xs arbitrary: s) (auto simp: val_stable)

lemma ins_run_resolves:
  assumes "ok s"
  shows "val (fold (\<lambda>x s. fst (ins s x)) xs (fst (ins s x))) (snd (ins s x)) = Some x"
  by (rule ins_run_stable) (simp add: val_ins assms)

end

interpretation index_set: interner is_insert is_get_value is_ok
  by unfold_locales (simp_all add: is_ok_insert is_insert_index is_insert_stable)

text \<open>An index handed out by \<open>insert\<close> resolves to the same value after any later insertions.\<close>

theorem index_set_stable:
  "is_ok s \<Longrightarrow> is_get_value (fold (\<lambda>y s. fst (is_insert s y)) ys (fst (is_insert s x))) (snd (is_insert s x)) = Some x"
  by (rule index_set.ins_run_resolves)

theorem index_set_stable_witness:
  "is_get_value (fold (\<lambda>y s. fst (is_insert s y)) [4, 5, 4] (fst (is_insert is_new (7::nat)))) 0 = Some 7"
  using index_set_stable [OF is_ok_new, of "[4, 5, 4]" "7::nat"]
  by (simp add: is_insert_def is_new_def)

lemma swap_remove_decomp: "swap_remove (pre @ a # mid @ [z]) (length pre) = pre @ z # mid"
  by (simp add: swap_remove_def list_update_append butlast_append)

lemma list_decomp:
  assumes "k < length vs - 1"
  obtains pre mid z where "vs = pre @ vs ! k # mid @ [z]" "k = length pre"
proof
  have "drop (Suc k) vs \<noteq> []" using assms by auto
  then have "butlast (drop (Suc k) vs) @ [last (drop (Suc k) vs)] = drop (Suc k) vs"
    by (rule append_butlast_last_id)
  then show "vs = take k vs @ vs ! k # butlast (drop (Suc k) vs) @ [last (drop (Suc k) vs)]"
    using assms by (simp only:) (simp add: id_take_nth_drop)
  show "k = length (take k vs)" using assms by simp
qed

text \<open>Swapping the last element into the gap keeps the map the inverse of the vector.\<close>

lemma is_ok_swap:
  assumes ok: "is_ok s" and vs: "is_values s = pre @ x # mid @ [z]"
  shows "is_ok \<lparr>is_values = pre @ z # mid, is_map = (is_map s)(x := None, z \<mapsto> length pre)\<rparr>"
proof (rule is_okI)
  have d: "distinct (pre @ x # mid @ [z])" using is_ok_distinct [OF ok] vs by simp
  fix i assume i: "i < length (pre @ z # mid)"
  show "((is_map s)(x := None, z \<mapsto> length pre)) ((pre @ z # mid) ! i) = Some i"
  proof (cases "i = length pre")
    case False
    then have "(pre @ z # mid) ! i = is_values s ! i" "(pre @ z # mid) ! i \<in> set pre \<union> set mid"
      using i by (auto simp: vs nth_append nth_Cons split: nat.splits)
    moreover have "is_map s (is_values s ! i) = Some i" using is_okD(2) [OF ok, of i] i by (simp add: vs)
    ultimately show ?thesis using d by auto
  qed simp
next
  fix y assume "y \<notin> set (pre @ z # mid)"
  then show "((is_map s)(x := None, z \<mapsto> length pre)) y = None"
    using is_okD(3) [OF ok, of y] by (auto simp: vs)
qed

lemma is_ok_pop:
  assumes ok: "is_ok s" and vs: "is_values s = pre @ [x]"
  shows "is_ok \<lparr>is_values = pre, is_map = (is_map s)(x := None)\<rparr>"
proof (rule is_okI)
  have d: "distinct (pre @ [x])" using is_ok_distinct [OF ok] vs by simp
  fix i assume "i < length pre"
  then show "((is_map s)(x := None)) (pre ! i) = Some i"
    using is_okD(2) [OF ok, of i] d by (auto simp: vs nth_append)
next
  fix y assume "y \<notin> set pre"
  then show "((is_map s)(x := None)) y = None" using is_okD(3) [OF ok, of y] by (auto simp: vs)
qed

lemma is_remove_hit:
  assumes ok: "is_ok s" and x: "is_map s x = Some k"
  shows "\<exists>s'. is_remove s x = Some (s', True) \<and> is_ok s' \<and> set (is_values s') = set (is_values s) - {x}"
proof -
  note d = is_ok_distinct [OF ok]
  let ?vs = "is_values s" and ?n = "length (is_values s) - 1"
  have k: "k < length ?vs" "?vs ! k = x" using is_okD(1) [OF ok x] by auto
  show ?thesis
  proof (cases "k = ?n")
    case True
    from k have vs: "?vs = butlast ?vs @ [x]"
      by (metis True append_butlast_last_id last_conv_nth length_0_conv not_less_zero)
    have "x \<notin> set (butlast ?vs)" using d by (subst (asm) vs) simp
    then have "set (butlast ?vs) = set ?vs - {x}" by (subst (2) vs) auto
    then show ?thesis using x True is_ok_pop [OF ok vs] by (simp add: is_remove_def)
  next
    case False
    with k have kn: "k < ?n" by linarith
    obtain pre mid z where vs: "?vs = pre @ x # mid @ [z]" and pre: "k = length pre"
      using list_decomp [OF kn] k(2) by metis
    have sr: "swap_remove ?vs k = pre @ z # mid" using swap_remove_decomp by (simp add: vs pre)
    have zx: "z \<noteq> x" and set: "set (pre @ z # mid) = set ?vs - {x}" using d by (auto simp: vs)
    have mz: "is_map s z = Some ?n" using is_okD(2) [OF ok, of ?n] by (simp add: vs nth_append)
    have "is_remove s x =
        Some (\<lparr>is_values = pre @ z # mid, is_map = (is_map s)(x := None, z \<mapsto> length pre)\<rparr>, True)"
      using x False k(1) zx mz by (simp add: is_remove_def Let_def sr) (simp add: pre)
    with is_ok_swap [OF ok vs] set show ?thesis by simp
  qed
qed

text \<open>\<open>remove\<close> never panics on a well-formed set, keeps it well formed, reports whether the item
  was there and removes exactly that item.\<close>

theorem index_set_remove:
  assumes "is_ok s"
  shows "\<exists>s'. is_remove s x = Some (s', is_contains s x) \<and> is_ok s' \<and>
              set (is_iter s') = set (is_iter s) - {x} \<and>
              is_len s' = is_len s - (if is_contains s x then 1 else 0)"
proof (cases "is_map s x")
  case None
  then have "x \<notin> set (is_values s)" using assms is_ok_contains [of s x] by (simp add: is_contains_def)
  with None assms show ?thesis by (simp add: is_remove_def is_contains_def is_iter_def)
next
  case (Some k)
  from is_remove_hit [OF assms this] obtain s' where
    s': "is_remove s x = Some (s', True)" "is_ok s'" "set (is_values s') = set (is_values s) - {x}" by blast
  have "x \<in> set (is_values s)" using Some assms is_ok_contains [of s x] by (simp add: is_contains_def)
  then have "length (is_values s') = length (is_values s) - 1"
    using s' is_ok_distinct [OF assms] is_ok_distinct [OF s'(2)]
    by (metis card_Diff_singleton distinct_card)
  with s' Some show ?thesis by (auto simp: is_contains_def is_iter_def is_len_def)
qed

theorem index_set_remove_witness:
  "\<exists>s'. is_remove (fst (is_insert (fst (is_insert is_new (1::nat))) 2)) 1 = Some (s', True) \<and> is_len s' = 1"
proof -
  let ?s = "fst (is_insert (fst (is_insert is_new (1::nat))) 2)"
  have "is_ok ?s" by (simp add: is_ok_insert)
  moreover have "is_contains ?s 1 \<and> is_len ?s = 2" by (simp add: is_insert_def is_new_def is_contains_def is_len_def)
  ultimately show ?thesis using index_set_remove [of ?s 1] by auto
qed

section \<open>Lru\<close>

text \<open>\<open>next_timestamp\<close> is a \<open>u64\<close> that grows by one per operation; it is modelled without its
  wrap-around after \<open>2 ^ 64\<close> operations.\<close>

record ('k, 'v) Lru =
  lru_entries :: "('k \<times> ('v \<times> nat)) list"
  lru_order :: "(nat \<times> 'k) list"
  lru_next :: nat

definition lru_new :: "('k::linorder, 'v) Lru" where
  "lru_new = \<lparr>lru_entries = [], lru_order = [], lru_next = 0\<rparr>"

definition lru_record_hit :: "('k::linorder, 'v) Lru \<Rightarrow> 'k \<Rightarrow> ('k, 'v) Lru \<times> 'v option" where
  "lru_record_hit l key =
     (case map_of (lru_entries l) key of
        None \<Rightarrow> (l, None)
      | Some (v, old_ts) \<Rightarrow>
          let ts = lru_next l
          in (\<lparr>lru_entries = bt_insert key (v, ts) (lru_entries l),
               lru_order = bt_insert ts key (bt_remove old_ts (lru_order l)),
               lru_next = ts + 1\<rparr>, Some v))"

definition lru_evict_one :: "('k::linorder, 'v) Lru \<Rightarrow> ('k, 'v) Lru \<times> ('k \<times> 'v) option" where
  "lru_evict_one l =
     (case lru_order l of
        [] \<Rightarrow> (l, None)
      | (_, key) # rest \<Rightarrow>
          (case map_of (lru_entries l) key of
             None \<Rightarrow> (l\<lparr>lru_order := rest\<rparr>, None)
           | Some (v, _) \<Rightarrow>
               (l\<lparr>lru_order := rest, lru_entries := bt_remove key (lru_entries l)\<rparr>, Some (key, v))))"

definition lru_insert :: "('k::linorder, 'v) Lru \<Rightarrow> 'k \<Rightarrow> 'v \<Rightarrow> ('k, 'v) Lru" where
  "lru_insert l key v =
     (let ts = lru_next l;
          order' = (case map_of (lru_entries l) key of
                      None \<Rightarrow> lru_order l
                    | Some (_, old_ts) \<Rightarrow> bt_remove old_ts (lru_order l))
      in \<lparr>lru_entries = bt_insert key (v, ts) (lru_entries l),
          lru_order = bt_insert ts key order', lru_next = ts + 1\<rparr>)"

definition lru_len :: "('k, 'v) Lru \<Rightarrow> nat" where
  "lru_len l = length (lru_entries l)"

text \<open>The specification: a list of entries, least recently used first.\<close>

definition spec_hit :: "('k \<times> 'v) list \<Rightarrow> 'k \<Rightarrow> ('k \<times> 'v) list \<times> 'v option" where
  "spec_hit xs k = (case map_of xs k of None \<Rightarrow> (xs, None)
     | Some v \<Rightarrow> (filter (\<lambda>(k', _). k' \<noteq> k) xs @ [(k, v)], Some v))"

definition spec_insert :: "('k \<times> 'v) list \<Rightarrow> 'k \<Rightarrow> 'v \<Rightarrow> ('k \<times> 'v) list" where
  "spec_insert xs k v = filter (\<lambda>(k', _). k' \<noteq> k) xs @ [(k, v)]"

fun spec_evict :: "('k \<times> 'v) list \<Rightarrow> ('k \<times> 'v) list \<times> ('k \<times> 'v) option" where
  "spec_evict [] = ([], None)"
| "spec_evict (x # xs) = (xs, Some x)"

definition lru_abs :: "('k, 'v) Lru \<Rightarrow> ('k \<times> 'v) list" where
  "lru_abs l = map (\<lambda>(ts, k). (k, fst (the (map_of (lru_entries l) k)))) (lru_order l)"

definition lru_ok :: "('k::linorder, 'v) Lru \<Rightarrow> bool" where
  "lru_ok l \<longleftrightarrow> bt_ok (lru_entries l) \<and> bt_ok (lru_order l) \<and>
     (\<forall>ts\<in>fst ` set (lru_order l). ts < lru_next l) \<and>
     (\<forall>ts k. map_of (lru_order l) ts = Some k \<longleftrightarrow> (\<exists>v. map_of (lru_entries l) k = Some (v, ts)))"

lemma lru_okD:
  assumes "lru_ok l"
  shows "bt_ok (lru_entries l)" "bt_ok (lru_order l)"
    and "x \<in> set (lru_order l) \<Longrightarrow> fst x < lru_next l"
    and "(ts, k) \<in> set (lru_order l) \<longleftrightarrow> (\<exists>v. map_of (lru_entries l) k = Some (v, ts))"
    and "map_of (lru_order l) ts = Some k \<longleftrightarrow> (\<exists>v. map_of (lru_entries l) k = Some (v, ts))"
  using assms bt_ok_distinct [of "lru_order l"] unfolding lru_ok_def by (force dest: map_of_SomeD)+

lemma lru_ok_new: "lru_ok (lru_new :: ('k::linorder, 'v) Lru)"
  by (simp add: lru_ok_def lru_new_def)

text \<open>The timestamp-ordered list without the old entry of a key: by timestamp or by key.\<close>

definition lru_without :: "('k::linorder, 'v) Lru \<Rightarrow> 'k \<Rightarrow> (nat \<times> 'k) list" where
  "lru_without l key =
     (case map_of (lru_entries l) key of None \<Rightarrow> lru_order l
      | Some (_, old_ts) \<Rightarrow> bt_remove old_ts (lru_order l))"

lemma lru_without_filter:
  assumes "lru_ok l"
  shows "lru_without l key = filter (\<lambda>(ts, k). k \<noteq> key) (lru_order l)"
proof (cases "map_of (lru_entries l) key")
  case None
  then have "filter (\<lambda>(ts, k). k \<noteq> key) (lru_order l) = lru_order l"
    using lru_okD(4) [OF assms] by (auto simp: filter_id_conv)
  with None show ?thesis by (simp add: lru_without_def)
next
  case (Some e)
  obtain v ts where e: "e = (v, ts)" by fastforce
  have "(ts' \<noteq> ts) = (k \<noteq> key)" if "(ts', k) \<in> set (lru_order l)" for ts' k
    using that Some e lru_okD(4) [OF assms, of ts' k] lru_okD(4) [OF assms, of ts key]
      bt_ok_distinct [OF lru_okD(2) [OF assms]]
    by (metis Pair_inject eq_key_imp_eq_value option.inject)
  then show ?thesis
    using Some e by (auto simp: lru_without_def bt_remove_def intro!: filter_cong)
qed

lemma lru_touch:
  fixes l :: "('k::linorder, 'v) Lru" and key :: 'k and v :: 'v
  assumes ok: "lru_ok l"
  defines "l' \<equiv> \<lparr>lru_entries = bt_insert key (v, lru_next l) (lru_entries l),
                lru_order = bt_insert (lru_next l) key (lru_without l key), lru_next = lru_next l + 1\<rparr>"
  shows "lru_ok l'" and "lru_abs l' = filter (\<lambda>(k', _). k' \<noteq> key) (lru_abs l) @ [(key, v)]"
proof -
  note inv = lru_okD [OF ok] and flt = lru_without_filter [OF ok, of key]
  have sub: "set (lru_without l key) \<subseteq> set (lru_order l)" by (auto simp: flt)
  then have max: "\<forall>ts\<in>fst ` set (lru_without l key). ts < lru_next l" using inv(3) by fastforce
  have ent: "lru_entries l' = bt_insert key (v, lru_next l) (lru_entries l)"
    and nxt: "lru_next l' = lru_next l + 1" by (simp_all add: l'_def)
  have ord: "lru_order l' = lru_without l key @ [(lru_next l, key)]"
    using bt_insert_max [OF max] by (simp add: l'_def)
  have ok_wo: "bt_ok (lru_without l key)"
    using inv(2) by (auto simp: lru_without_def split: option.split)
  have ok_ord: "bt_ok (lru_order l')" using bt_ok_insert [OF ok_wo] by (simp add: l'_def)
  have "(ts, k) \<in> set (lru_order l') \<longleftrightarrow> (\<exists>v. map_of (lru_entries l') k = Some (v, ts))" for ts k
    using inv(4) by (auto simp: ord flt ent bt_simps)
  moreover have "map_of (lru_order l') ts = Some k \<longleftrightarrow> (ts, k) \<in> set (lru_order l')" for ts k
    using bt_ok_distinct [OF ok_ord] by (rule map_of_eq_Some_iff)
  moreover have "\<forall>ts\<in>fst ` set (lru_order l'). ts < lru_next l'"
    using max by (auto simp: ord nxt)
  ultimately show "lru_ok l'"
    using ok_ord inv(1) unfolding lru_ok_def by (auto simp: ent)
  show "lru_abs l' = filter (\<lambda>(k', _). k' \<noteq> key) (lru_abs l) @ [(key, v)]"
    unfolding lru_abs_def ord flt
    by (auto simp: ent bt_simps filter_map comp_def case_prod_unfold intro!: map_cong filter_cong)
qed

lemma map_of_lru_abs:
  assumes "lru_ok l"
  shows "map_of (lru_abs l) k = map_option fst (map_of (lru_entries l) k)"
proof (cases "map_of (lru_entries l) k")
  case None
  then have "\<forall>ts. (ts, k) \<notin> set (lru_order l)" using lru_okD(4) [OF assms] by simp
  then have "k \<notin> fst ` set (lru_abs l)" by (auto simp: lru_abs_def)
  then have "map_of (lru_abs l) k = None" by (simp only: map_of_eq_None_iff not_False_eq_True)
  with None show ?thesis by simp
next
  case (Some e)
  then have "(snd e, k) \<in> set (lru_order l)" using lru_okD(4) [OF assms, of "snd e" k] by (cases e) auto
  then have "map_of (lru_abs l) k \<noteq> None"
    unfolding lru_abs_def map_of_eq_None_iff by force
  then obtain w where w: "map_of (lru_abs l) k = Some w" by blast
  then have "(k, w) \<in> set (lru_abs l)" by (rule map_of_SomeD)
  with w Some show ?thesis by (auto simp: lru_abs_def)
qed

lemma lru_evict_refines:
  assumes ok: "lru_ok l"
  shows "lru_ok (fst (lru_evict_one l))"
    and "(lru_abs (fst (lru_evict_one l)), snd (lru_evict_one l)) = spec_evict (lru_abs l)"
proof -
  note inv = lru_okD [OF ok]
  have "lru_ok (fst (lru_evict_one l)) \<and>
        (lru_abs (fst (lru_evict_one l)), snd (lru_evict_one l)) = spec_evict (lru_abs l)"
  proof (cases "lru_order l")
    case Nil
    then show ?thesis using ok by (simp add: lru_evict_one_def lru_abs_def)
  next
    case (Cons x rest)
    obtain ts key where x: "x = (ts, key)" by fastforce
    from inv(4) [of ts key] Cons x obtain v where v: "map_of (lru_entries l) key = Some (v, ts)" by auto
    let ?l = "l\<lparr>lru_order := rest, lru_entries := bt_remove key (lru_entries l)\<rparr>"
    have dist: "distinct (map fst (lru_order l))" using bt_ok_distinct [OF inv(2)] .
    have nokey: "(ts', key) \<notin> set rest" for ts'
      using inv(4) [of ts' key] v dist Cons x by (auto simp: image_iff)
    have mem: "(ts', k) \<in> set rest \<longleftrightarrow> (\<exists>w. map_of (lru_entries ?l) k = Some (w, ts'))" for ts' k
      using inv(4) [of ts' k] Cons x v nokey by (auto simp: bt_simps)
    have "map_of rest ts' = Some k \<longleftrightarrow> (ts', k) \<in> set rest" for ts' k
      using dist Cons by (intro map_of_eq_Some_iff) auto
    then have "lru_ok ?l"
      using inv(1,2,3) Cons mem unfolding lru_ok_def by force
    moreover have "lru_abs ?l = tl (lru_abs l)"
      using nokey Cons by (auto simp: lru_abs_def bt_simps intro!: map_cong)
    ultimately show ?thesis
      using Cons x v by (simp add: lru_evict_one_def lru_abs_def)
  qed
  then show "lru_ok (fst (lru_evict_one l))"
    and "(lru_abs (fst (lru_evict_one l)), snd (lru_evict_one l)) = spec_evict (lru_abs l)" by auto
qed



section \<open>ShardedIdSet\<close>

text \<open>256 hash sets, each behind its own lock; an operation touches one shard only and holds that
  shard's lock, so operations are atomic and the sequential model below is the whole behaviour.\<close>

type_synonym ShardedIdSet = "ID set list"

definition sh_new :: ShardedIdSet where
  "sh_new = replicate 256 {}"

definition shard_of :: "ID \<Rightarrow> nat" where
  "shard_of i = unat (id_bytes i ! 0)"

definition sh_insert :: "ShardedIdSet \<Rightarrow> ID \<Rightarrow> ShardedIdSet \<times> bool" where
  "sh_insert s i = (s[shard_of i := insert i (s ! shard_of i)], i \<notin> s ! shard_of i)"

definition sh_contains :: "ShardedIdSet \<Rightarrow> ID \<Rightarrow> bool" where
  "sh_contains s i \<longleftrightarrow> i \<in> s ! shard_of i"

definition sh_remove :: "ShardedIdSet \<Rightarrow> ID \<Rightarrow> ShardedIdSet \<times> bool" where
  "sh_remove s i = (s[shard_of i := s ! shard_of i - {i}], i \<in> s ! shard_of i)"

definition sh_clear :: "ShardedIdSet \<Rightarrow> ShardedIdSet" where
  "sh_clear s = map (\<lambda>_. {}) s"

definition sh_ok :: "ShardedIdSet \<Rightarrow> bool" where
  "sh_ok s \<longleftrightarrow> length s = 256 \<and> (\<forall>k<256. \<forall>i\<in>s ! k. shard_of i = k)"

definition sh_abs :: "ShardedIdSet \<Rightarrow> ID set" where
  "sh_abs s = {i. i \<in> s ! shard_of i}"

lemma shard_of_bound [simp]: "shard_of i < 256"
  using unsigned_less [of "id_bytes i ! 0"] by (simp add: shard_of_def)

lemma sh_abs_new [simp]: "sh_abs sh_new = {}"
  by (auto simp: sh_abs_def sh_new_def)

lemma sh_ok_new [simp]: "sh_ok sh_new"
  by (simp add: sh_ok_def sh_new_def)

lemma sh_insert_abs [simp]: "sh_ok s \<Longrightarrow> sh_abs (fst (sh_insert s i)) = insert i (sh_abs s)"
  unfolding sh_abs_def sh_insert_def sh_ok_def by (auto simp: nth_list_update)

lemma sh_insert_ok [simp]: "sh_ok s \<Longrightarrow> sh_ok (fst (sh_insert s i))"
  unfolding sh_insert_def sh_ok_def by (auto simp: nth_list_update split: if_splits)

lemma sh_remove_abs [simp]: "sh_ok s \<Longrightarrow> sh_abs (fst (sh_remove s i)) = sh_abs s - {i}"
  unfolding sh_abs_def sh_remove_def sh_ok_def by (auto simp: nth_list_update)

lemma sh_remove_ok [simp]: "sh_ok s \<Longrightarrow> sh_ok (fst (sh_remove s i))"
  unfolding sh_remove_def sh_ok_def by (auto simp: nth_list_update split: if_splits)

lemma sh_clear_props [simp]: "sh_ok s \<Longrightarrow> sh_ok (sh_clear s)" "sh_ok s \<Longrightarrow> sh_abs (sh_clear s) = {}"
  unfolding sh_clear_def sh_ok_def sh_abs_def by auto

lemma sh_contains_abs [simp]: "sh_contains s i \<longleftrightarrow> i \<in> sh_abs s"
  by (simp add: sh_contains_def sh_abs_def)

lemma sh_results [simp]: "snd (sh_insert s i) \<longleftrightarrow> i \<notin> sh_abs s" "snd (sh_remove s i) \<longleftrightarrow> i \<in> sh_abs s"
  by (simp_all add: sh_insert_def sh_remove_def sh_abs_def)

text \<open>A set kept in shards: what a client of the pending set relies on.\<close>

locale id_set =
  fixes ins :: "'s \<Rightarrow> 'a \<Rightarrow> 's \<times> bool"
    and rem :: "'s \<Rightarrow> 'a \<Rightarrow> 's \<times> bool"
    and mem :: "'s \<Rightarrow> 'a \<Rightarrow> bool"
    and ok :: "'s \<Rightarrow> bool"
  assumes ok_ins: "ok s \<Longrightarrow> ok (fst (ins s x))"
    and ok_rem: "ok s \<Longrightarrow> ok (fst (rem s x))"
    and mem_ins: "ok s \<Longrightarrow> mem (fst (ins s x)) y \<longleftrightarrow> y = x \<or> mem s y"
    and mem_rem: "ok s \<Longrightarrow> mem (fst (rem s x)) y \<longleftrightarrow> y \<noteq> x \<and> mem s y"
    and res_ins: "ok s \<Longrightarrow> snd (ins s x) \<longleftrightarrow> \<not> mem s x"
    and res_rem: "ok s \<Longrightarrow> snd (rem s x) \<longleftrightarrow> mem s x"
begin

lemma rem_run_ok: "ok s \<Longrightarrow> ok (fold (\<lambda>x s. fst (rem s x)) xs s)"
  by (induction xs arbitrary: s) (auto simp: ok_rem)

lemma rem_run_mem:
  "ok s \<Longrightarrow> mem (fold (\<lambda>x s. fst (rem s x)) xs s) y \<longleftrightarrow> y \<notin> set xs \<and> mem s y"
  by (induction xs arbitrary: s) (auto simp: ok_rem mem_rem)

end

interpretation sharded: id_set sh_insert sh_remove sh_contains sh_ok
  by unfold_locales auto

text \<open>C18: The sharded set behaves as one set of identifiers: every operation keeps each identifier in
  the shard of its first byte, and insert, remove, contains and clear act on the union.\<close>

theorem sharded_refines_set:
  assumes "sh_ok s"
  shows "sh_ok (fst (sh_insert s i)) \<and> sh_abs (fst (sh_insert s i)) = insert i (sh_abs s) \<and>
         (snd (sh_insert s i) \<longleftrightarrow> i \<notin> sh_abs s) \<and>
         sh_ok (fst (sh_remove s i)) \<and> sh_abs (fst (sh_remove s i)) = sh_abs s - {i} \<and>
         (snd (sh_remove s i) \<longleftrightarrow> i \<in> sh_abs s) \<and>
         (sh_contains s i \<longleftrightarrow> i \<in> sh_abs s) \<and> sh_ok (sh_clear s) \<and> sh_abs (sh_clear s) = {}"
  using assms by simp

theorem sharded_refines_set_witness:
  "sh_abs (fst (sh_insert sh_new (ID (replicate 32 9)))) = {ID (replicate 32 9)}"
  using sharded_refines_set [OF sh_ok_new, of "ID (replicate 32 9)"] by simp

section \<open>BloomFilter\<close>

record BloomFilter =
  bf_bits :: "u64 list"
  bf_num_hashes :: nat
  bf_bit_count :: u64

text \<open>\<open>u64::next_power_of_two\<close>; 0 is the release build's overflow result.\<close>

definition next_power_of_two :: "nat \<Rightarrow> nat" where
  "next_power_of_two n = (case find (\<lambda>k. n \<le> 2 ^ k) [0..<64] of Some k \<Rightarrow> 2 ^ k | None \<Rightarrow> 0)"

text \<open>The two floating-point formulas of \<open>BloomFilter::new\<close> are parameters: \<open>fst sz n\<close> is the rounded
  optimal bit count for \<open>n\<close> items, \<open>snd sz m n\<close> the rounded number of hashes for \<open>m\<close> bits.\<close>

type_synonym bloom_sizing = "(nat \<Rightarrow> nat) \<times> (nat \<Rightarrow> nat \<Rightarrow> nat)"

definition bloom_new :: "bloom_sizing \<Rightarrow> nat \<Rightarrow> BloomFilter" where
  "bloom_new sz num_items =
     (let n = max num_items 1;
          m = next_power_of_two (fst sz n);
          k = snd sz m n;
          num_u64s = max (m div 64) 1
      in \<lparr>bf_bits = replicate num_u64s 0, bf_num_hashes = k, bf_bit_count = word_of_nat m\<rparr>)"

definition get_hashes :: "ID \<Rightarrow> u64 \<times> u64" where
  "get_hashes i = (from_le_bytes (slice 0 8 (id_bytes i)), from_le_bytes (slice 8 16 (id_bytes i)))"

definition bloom_bit_idx :: "BloomFilter \<Rightarrow> ID \<Rightarrow> nat \<Rightarrow> u64" where
  "bloom_bit_idx bf i k =
     (let (h1, h2) = get_hashes i in (h1 + word_of_nat k * h2) AND (bf_bit_count bf - 1))"

definition bloom_set_bit :: "ID \<Rightarrow> nat \<Rightarrow> BloomFilter \<Rightarrow> BloomFilter" where
  "bloom_set_bit i k bf =
     (let bit_idx = bloom_bit_idx bf i k;
          word_idx = unat (drop_bit 6 bit_idx);
          bit_in_word = unat (bit_idx AND 63)
      in bf\<lparr>bf_bits := (bf_bits bf)[word_idx := bf_bits bf ! word_idx OR push_bit bit_in_word 1]\<rparr>)"

definition bloom_insert :: "BloomFilter \<Rightarrow> ID \<Rightarrow> BloomFilter" where
  "bloom_insert bf i =
     (if bf_bits bf = [] then bf else fold (bloom_set_bit i) [0..<bf_num_hashes bf] bf)"

definition bloom_test_bit :: "BloomFilter \<Rightarrow> ID \<Rightarrow> nat \<Rightarrow> bool" where
  "bloom_test_bit bf i k =
     (let bit_idx = bloom_bit_idx bf i k;
          word_idx = unat (drop_bit 6 bit_idx);
          bit_in_word = unat (bit_idx AND 63)
      in bf_bits bf ! word_idx AND push_bit bit_in_word 1 \<noteq> 0)"

definition bloom_contains :: "BloomFilter \<Rightarrow> ID \<Rightarrow> bool" where
  "bloom_contains bf i \<longleftrightarrow>
     (if bf_bits bf = [] then True else list_all (bloom_test_bit bf i) [0..<bf_num_hashes bf])"

definition bloom_clear :: "BloomFilter \<Rightarrow> BloomFilter" where
  "bloom_clear bf = bf\<lparr>bf_bits := map (\<lambda>_. 0) (bf_bits bf)\<rparr>"

text \<open>Well-formed: the bit count is a power of two and the vector holds that many bits.\<close>

definition bloom_ok :: "BloomFilter \<Rightarrow> bool" where
  "bloom_ok bf \<longleftrightarrow>
     list_ex (\<lambda>p. bf_bit_count bf = 2 ^ p \<and> length (bf_bits bf) = max (2 ^ p div 64) 1) [0..<64]"

lemma bloom_okD:
  assumes "bloom_ok bf"
  obtains p where "p < 64" "bf_bit_count bf = 2 ^ p" "length (bf_bits bf) = max (2 ^ p div 64) 1"
  using assms by (auto simp: bloom_ok_def list_ex_iff)

lemma next_power_of_two_pow: "n \<le> 2 ^ 63 \<Longrightarrow> \<exists>p<64. next_power_of_two n = 2 ^ p"
proof (cases "find (\<lambda>k. n \<le> 2 ^ k) [0..<64]")
  case None
  then have "\<forall>k<64. \<not> n \<le> 2 ^ k" by (simp add: find_None_iff)
  then have "\<not> n \<le> 2 ^ 63" by (rule allE [of _ 63]) simp
  moreover assume "n \<le> 2 ^ 63"
  ultimately show ?thesis by simp
next
  case (Some p)
  moreover from Some have "p < 64" by (auto simp: find_Some_iff)
  ultimately show ?thesis by (auto simp: next_power_of_two_def)
qed

lemma bloom_ok_new:
  assumes "fst sz (max n 1) \<le> 2 ^ 63"
  shows "bloom_ok (bloom_new sz n)"
proof -
  obtain p where "p < 64" "next_power_of_two (fst sz (max n 1)) = 2 ^ p"
    using next_power_of_two_pow [OF assms] by blast
  then show ?thesis
    by (auto simp: bloom_ok_def bloom_new_def Let_def list_ex_iff intro!: bexI [of _ p])
qed

text \<open>No access of the filter is out of range, so neither \<open>insert\<close> nor \<open>contains\<close> can panic.\<close>

theorem bloom_in_bounds:
  assumes "bloom_ok bf"
  shows "unat (drop_bit 6 (bloom_bit_idx bf i k)) < length (bf_bits bf)"
proof -
  obtain p where p: "p < 64" "bf_bit_count bf = 2 ^ p" "length (bf_bits bf) = max (2 ^ p div 64) 1"
    using bloom_okD [OF assms] .
  obtain w where w: "bloom_bit_idx bf i k = w AND (2 ^ p - 1)"
    by (simp add: bloom_bit_idx_def p(2) Let_def case_prod_unfold)
  have "bloom_bit_idx bf i k = take_bit p w"
    by (simp add: w take_bit_eq_mask mask_eq_exp_minus_1)
  then have "unat (bloom_bit_idx bf i k) < 2 ^ p"
    by (simp add: unsigned_take_bit_eq)
  moreover have "unat (drop_bit 6 (bloom_bit_idx bf i k)) = unat (bloom_bit_idx bf i k) div 64"
    by (simp only: unat_drop_bit_eq) (simp add: drop_bit_eq_div)
  moreover have "m < 2 ^ p \<Longrightarrow> m div 64 < max (2 ^ p div 64) (1::nat)" for m
  proof (cases "p < 6")
    case True
    assume "m < 2 ^ p"
    also have "2 ^ p \<le> (2 ^ 5 :: nat)" using True by (intro power_increasing) auto
    finally show ?thesis by simp
  next
    case False
    then have "(2 ^ p :: nat) = 64 * 2 ^ (p - 6)"
      using power_add [of "2::nat" 6 "p - 6"] by simp
    then show "m < 2 ^ p \<Longrightarrow> ?thesis" by (simp add: less_mult_imp_div_less mult.commute)
  qed
  ultimately show ?thesis using p(3) by simp
qed

theorem bloom_in_bounds_witness:
  "unat (drop_bit 6 (bloom_bit_idx (bloom_new (\<lambda>n. 10 * n, \<lambda>m n. 7) 100) (ID (replicate 32 200)) 3)) <
   length (bf_bits (bloom_new (\<lambda>n. 10 * n, \<lambda>m n. 7) 100))"
  by (rule bloom_in_bounds, rule bloom_ok_new) simp

definition bloom_le :: "BloomFilter \<Rightarrow> BloomFilter \<Rightarrow> bool" where
  "bloom_le a b \<longleftrightarrow> bf_num_hashes a = bf_num_hashes b \<and> bf_bit_count a = bf_bit_count b \<and>
     length (bf_bits a) = length (bf_bits b) \<and>
     (\<forall>w n. w < length (bf_bits a) \<longrightarrow> bit (bf_bits a ! w) n \<longrightarrow> bit (bf_bits b ! w) n)"

lemma bloom_le_refl [simp]: "bloom_le a a"
  by (simp add: bloom_le_def)

lemma bloom_le_trans [trans]: "bloom_le a b \<Longrightarrow> bloom_le b c \<Longrightarrow> bloom_le a c"
  by (auto simp: bloom_le_def)

lemma bloom_ok_le: "bloom_le a b \<Longrightarrow> bloom_ok a \<Longrightarrow> bloom_ok b"
  by (auto simp: bloom_le_def bloom_ok_def)

lemma bit_in_word_bound: "unat ((w :: u64) AND 63) < 64"
proof -
  have "w AND 63 = take_bit 6 w" by (simp add: take_bit_eq_mask mask_eq_exp_minus_1)
  then show ?thesis using take_bit_nat_less_exp [of 6 "unat w"] by (simp add: unsigned_take_bit_eq)
qed

lemma bloom_bit_idx_le: "bloom_le a b \<Longrightarrow> bloom_bit_idx b i k = bloom_bit_idx a i k"
  by (simp add: bloom_le_def bloom_bit_idx_def)

lemma bloom_test_bit_iff:
  "bloom_test_bit bf i k \<longleftrightarrow>
   bit (bf_bits bf ! unat (drop_bit 6 (bloom_bit_idx bf i k))) (unat (bloom_bit_idx bf i k AND 63))"
  using bit_in_word_bound [of "bloom_bit_idx bf i k"]
  by (simp add: bloom_test_bit_def Let_def push_bit_eq_mult and_exp_eq_0_iff_not_bit)

lemma bloom_set_bit_le: "bloom_le bf (bloom_set_bit i k bf)"
proof -
  have "bit (xs ! w) n \<Longrightarrow> w < length xs \<Longrightarrow> bit (xs[j := xs ! j OR y] ! w) n" for xs :: "u64 list" and w n j y
    by (cases "w = j") (auto simp: bit_simps)
  then show ?thesis by (auto simp: bloom_le_def bloom_set_bit_def Let_def)
qed

lemma bloom_set_bit_test: "bloom_ok bf \<Longrightarrow> bloom_test_bit (bloom_set_bit i k bf) i k"
  unfolding bloom_test_bit_iff bloom_bit_idx_le [OF bloom_set_bit_le]
  using bloom_in_bounds [of bf i k] bit_in_word_bound [of "bloom_bit_idx bf i k"]
  by (simp add: bloom_set_bit_def Let_def bit_simps)

lemma bloom_test_le:
  "bloom_le a b \<Longrightarrow> bloom_ok a \<Longrightarrow> bloom_test_bit a i k \<Longrightarrow> bloom_test_bit b i k"
  using bloom_in_bounds [of a i k] unfolding bloom_test_bit_iff
  by (auto simp: bloom_bit_idx_le) (auto simp: bloom_le_def)

lemma bloom_fold_le: "bloom_le bf (fold (bloom_set_bit i) ks bf)"
  by (induction ks arbitrary: bf) (auto intro: bloom_le_trans bloom_set_bit_le)

lemma bloom_fold_test:
  "bloom_ok bf \<Longrightarrow> k \<in> set ks \<Longrightarrow> bloom_test_bit (fold (bloom_set_bit i) ks bf) i k"
proof (induction ks arbitrary: bf)
  case (Cons k' ks)
  have ok: "bloom_ok (bloom_set_bit i k' bf)" using Cons.prems(1) bloom_ok_le bloom_set_bit_le by blast
  show ?case
  proof (cases "k \<in> set ks")
    case True
    with Cons.IH [OF ok] show ?thesis by simp
  next
    case False
    with Cons.prems have "bloom_test_bit (bloom_set_bit i k' bf) i k" by (simp add: bloom_set_bit_test)
    then show ?thesis using bloom_test_le [OF bloom_fold_le ok] by simp
  qed
qed simp

lemma bloom_insert_le: "bloom_le bf (bloom_insert bf i)"
  by (simp add: bloom_insert_def bloom_fold_le)

lemma bloom_insert_ok [simp]: "bloom_ok bf \<Longrightarrow> bloom_ok (bloom_insert bf i)"
  by (rule bloom_ok_le [OF bloom_insert_le])

lemma bloom_insert_contains [simp]: "bloom_ok bf \<Longrightarrow> bloom_contains (bloom_insert bf i) i"
  using bloom_insert_le [of bf i]
  by (auto simp: bloom_contains_def bloom_insert_def bloom_le_def list_all_iff bloom_fold_test)

lemma bloom_contains_le: "bloom_le a b \<Longrightarrow> bloom_ok a \<Longrightarrow> bloom_contains a i \<Longrightarrow> bloom_contains b i"
  using bloom_test_le [of a b i]
  by (auto simp: bloom_contains_def list_all_iff bloom_le_def split: if_splits)

text \<open>A filter without false negatives: what the index relies on.\<close>

locale membership_filter =
  fixes add :: "'f \<Rightarrow> 'a \<Rightarrow> 'f"
    and maybe :: "'f \<Rightarrow> 'a \<Rightarrow> bool"
    and ok :: "'f \<Rightarrow> bool"
  assumes add_ok: "ok f \<Longrightarrow> ok (add f x)"
    and add_maybe: "ok f \<Longrightarrow> maybe (add f x) x"
    and add_keeps: "ok f \<Longrightarrow> maybe f y \<Longrightarrow> maybe (add f x) y"
begin

lemma add_run_ok: "ok f \<Longrightarrow> ok (fold (\<lambda>x f. add f x) xs f)"
  by (induction xs arbitrary: f) (auto simp: add_ok)

lemma add_run_keeps: "ok f \<Longrightarrow> maybe f y \<Longrightarrow> maybe (fold (\<lambda>x f. add f x) xs f) y"
  by (induction xs arbitrary: f) (auto simp: add_ok add_keeps)

lemma add_run_maybe: "ok f \<Longrightarrow> y \<in> set xs \<Longrightarrow> maybe (fold (\<lambda>x f. add f x) xs f) y"
proof (induction xs arbitrary: f)
  case (Cons x xs)
  then show ?case
    by (cases "y \<in> set xs") (auto simp: add_ok add_maybe add_run_keeps)
qed simp

end

interpretation bloom: membership_filter bloom_insert bloom_contains bloom_ok
  by unfold_locales (auto intro: bloom_contains_le bloom_insert_le)

text \<open>No false negatives. Every identifier inserted into a filter made by \<open>new\<close> is reported as
  possibly present, whatever else is inserted before or after.\<close>

theorem bloom_no_false_negatives:
  assumes "fst sz (max n 1) \<le> 2 ^ 63" and "i \<in> set ids"
  shows "bloom_contains (fold (\<lambda>i bf. bloom_insert bf i) ids (bloom_new sz n)) i"
  using bloom.add_run_maybe [OF bloom_ok_new [OF assms(1)] assms(2)] .

theorem bloom_no_false_negatives_witness:
  "bloom_contains (fold (\<lambda>i bf. bloom_insert bf i) [ID (replicate 32 1), ID (replicate 32 2)]
     (bloom_new (\<lambda>n. 10 * n, \<lambda>m n. 7) 2)) (ID (replicate 32 1))"
  by (rule bloom_no_false_negatives) simp_all

text \<open>A cleared filter with at least one hash reports every identifier as absent.\<close>

theorem bloom_clear_empty:
  assumes "bloom_ok bf" "bf_num_hashes bf > 0"
  shows "\<not> bloom_contains (bloom_clear bf) i"
proof -
  have "bf_bits bf \<noteq> []" using assms(1) by (auto elim!: bloom_okD)
  moreover have "\<not> bloom_test_bit (bloom_clear bf) i 0"
  proof -
    have "bloom_bit_idx (bloom_clear bf) i 0 = bloom_bit_idx bf i 0"
      by (simp add: bloom_clear_def bloom_bit_idx_def)
    with bloom_in_bounds [OF assms(1), of i 0] show ?thesis
      by (simp add: bloom_test_bit_iff) (simp add: bloom_clear_def)
  qed
  ultimately show ?thesis
    using assms(2) by (auto simp: bloom_contains_def list_all_iff bloom_clear_def)
qed

theorem bloom_clear_empty_witness:
  "\<not> bloom_contains (bloom_clear (bloom_new (\<lambda>n. 10 * n, \<lambda>m n. 7) 2)) (ID (replicate 32 1))"
  by (rule bloom_clear_empty) (simp add: bloom_ok_new, simp add: bloom_new_def Let_def)

end
