(* ===== verification/ChunkerTables.thy ===== *)
theory ChunkerTables
  imports Prelude
begin

text \<open>
  The lookup tables of the chunker (\<open>crates/chunker/src/lookup.rs\<close>), literally: the Gear table, its
  left-shifted copy and the masks with 0 to 25 one bits.
\<close>

definition GEAR :: "u64 list" where
  "GEAR = [
    0xb2a5525c1a564cb1, 0xf2d88fedf370a687, 0x154884889f3883fe, 0xd8656cd83ec355c2,
    0x3fbbba8c25e46320, 0x07d0c958e972752a, 0x24682bca2870259a, 0x0725af19fdb6c168,
    0x1d2ce624a6ceb82b, 0x42a8640696d63390, 0x45368a30edf64fcd, 0x5f445f4750c56053,
    0x59c9f5f14ffe5d04, 0xfd8fbb026f50c7c5, 0x6ec754ddde67b874, 0xa9e31688bdcd11db,
    0x62258b792767428f, 0x0488fb17cea55cb7, 0x8795bca70c28b8e4, 0x25c86b6db17ce30f,
    0x8a15333033879db1, 0xa918bdfa3a368b70, 0x736a141119af57b6, 0x929acfd3ee24ca04,
    0x2191ca9684e70a49, 0x149e9883d5a5bfed, 0xffefb8e350ca7d5a, 0x825ed2c5e1fc1ea4,
    0xf433745c79b9b1df, 0xfb0e1fa293260462, 0xea32355ca8d21b57, 0xc53dedfe1dd8c5eb,
    0x77b13ea1a4894402, 0x31b773c4b65156a8, 0xf8780e2054f64e24, 0x2024b1df17b080e1,
    0x7d99a3e601ef0dcf, 0x6a892adfb3d86134, 0xad54ab471cacff4a, 0x238c5a5f21e446b1,
    0xc2fd1c934d3f2f9d, 0x6819a898c26761ae, 0x863dd14e882ad553, 0x29063b07eab02292,
    0xe0073682648f0845, 0x87e185dbb7bb838f, 0x2d8781c09f9ae662, 0x2384a441f825917a,
    0xbacdac554e551429, 0x018b1ab6f4791e3a, 0xfc86dc95bfa6c79f, 0xf0310ea3997490e0,
    0x1c5578f2c0104121, 0xa29fc5b2cf254b53, 0x1e898c6fb7dacff9, 0xc7cf8ee06c8c1502,
    0x5efd8174b5ead91d, 0xa827a4b09803dce0, 0x87f2212f3f24fc70, 0xe55a5007ee8e55f7,
    0xcac6cdf0cee0a724, 0x9a941be59331e05e, 0x95b68ddf6c46312a, 0x6ac219a7b1f6ea2e,
    0x3020af52149afd70, 0xcdab124ba6e8772f, 0xda03ae7ff28ab6ed, 0x36864705f1173aa8,
    0xc571f8160fe04528, 0x0c9503d0132f2de0, 0x17a97d181c7ebd66, 0xa6d08b20b86c9b49,
    0xa4a5be99f0a7fe41, 0xee6da1fbb359e199, 0x3fea92fe2958ba6b, 0x2ba3b3d0b027ba2e,
    0x70d3b3ec3b9ead69, 0xc915691bb769018f, 0x8f857a71a19e8b28, 0xf9af7073b80fa6a8,
    0x1e9a2faabdcca8d1, 0x84d4d516ca7f3d88, 0x269c8075f9c37a11, 0x6cd3500bc29e7c6f,
    0x4ad32672c5b1cbf6, 0x1abba8e06d1841b4, 0xdd331b0e033a219a, 0x9a135e3d59090e5d,
    0x0bbb32ebc9072719, 0x036d681199d50bcb, 0x2d4e3427434c2cc6, 0xe80a0f6a84a2f9b7,
    0x9f779678a17dfc2d, 0xb4864c6846c40ce9, 0x1d385544df1b750c, 0x09c583ee06bcbf40,
    0xd8b5c15044d9e915, 0xe47872568af85c5d, 0x6fdf0c1cbc82dd01, 0x1ae8a8f087f1bb0a,
    0xca713c23eee018e6, 0xe9efc5e0b1917397, 0xdce85cf0e94967cc, 0x2c5f8e437ce816bb,
    0x0ac7ad3465cf6b15, 0x327f35889a9369b4, 0x666b9dfc492596cc, 0xf36fbf010cd7a0bd,
    0x104070ea0daa26f8, 0x4b5d652f41744c3e, 0xfd51e882d3c78dff, 0x5d78b08b7b1f2c00,
    0x6ced6de9ba14df4e, 0xce36400257c6deaa, 0xa1b31dab7778f49b, 0x504f14f4d2123311,
    0x500e509f35168179, 0xd5a9bbf4be91f69f, 0x2bcaa4e3fe0d652b, 0x7fa848c7951748ab,
    0x71fff45f4cb189ce, 0xff6dded3c23b4c29, 0x2c40bc53b5d79a58, 0x48752ac514c681e6,
    0xe57e0215e2a672bf, 0x7e503bb83d7aaa08, 0x28c0d73ac23cad8a, 0x088a8207e55ea5cc,
    0x71d38504068e08a2, 0x145dbbfa0ff26a4d, 0xfa9481604c5807b0, 0x92b831dd8bc1cd8f,
    0xd361e5c9614c7ee4, 0xb00807c2ac50e90d, 0xdb3e66c59e23a29a, 0x3cf42bd42694d8dc,
    0xf404d7c51967182c, 0x1caac7ad4fc00d9e, 0x44c8df5f6176fc04, 0xb88f2900c237ce1e,
    0xc8832aa79e20b4d2, 0x1ea8d43d73a3a745, 0x0ee7caeafc04dfb2, 0x8d86237e9b024d05,
    0x666a8f058b2e6b7d, 0x6ebd791c1d303e13, 0x8e1da21cf9332377, 0x84190ff6616aa095,
    0x9f617221711a8fd0, 0x941c65a580e197c8, 0x017b1f26964f4e90, 0x59b89407e861380b,
    0x57b81d3a8b06bc2c, 0x8815d56874aa1770, 0x8592760bae19d2b9, 0x372e6568ccce2cfe,
    0x8de2da583b154ec4, 0x0d58d98ec497c52e, 0xea0d1615d53ac771, 0xc31868b61db546ce,
    0x351b5d1502fdf6e7, 0x4c9247d2d344fa47, 0x129d1a650d031c0b, 0xd73d5158fc126ee3,
    0x959ec5588772468e, 0xbf7feba90f8906ef, 0x50352af846ca32d4, 0x094b1393f3876b11,
    0x502b29f65576272d, 0x849de640d96076cc, 0x49afe6cdac13623b, 0x8084c9eb824db11d,
    0x6b21c0155c6cf506, 0x171b0f64fa6d1688, 0x5c04388f8d05e1b0, 0xfae843042d26ae04,
    0xc8b0b78ffacd39a4, 0xe99da74fbc21bcc4, 0xd4957bf1a31bf179, 0x9381a980374f5475,
    0x078e2addd0a60f42, 0x4a689d929a5fed99, 0x68744c86a22e7421, 0xf2d2d86054833022,
    0x8b2563731f8f4553, 0x356a27a778f26f73, 0xd1c06878ca2c57a0, 0xc26ce47ef440c1a1,
    0x795b731c0a09ca95, 0x73e3321d6880da5e, 0x147e1a196eede352, 0xad3b9afe81aa21d6,
    0xaa4b93268f2b6296, 0x131ac6c8375ef4ca, 0x59b5ba2190db205c, 0x57c17b7f5f98686f,
    0x2e676e2229d46eac, 0xf13c07fdd7bdcdca, 0x774c04db9770f80a, 0x0a5749d5e937d85f,
    0x876e7c16daca86fd, 0x1b1958d14f337f4e, 0xbdc923778174d885, 0xd570149318a367d8,
    0xe6e4957f4c3cbaab, 0x2627d205c26b362e, 0xcd2d656e4ade4296, 0x87a712bf4aef0d20,
    0x4a5563da5a42d201, 0xeb52b8870caf7903, 0x7a17b4e9f3ea5731, 0x9ab36f5ca137d019,
    0x0f2101ff896e5125, 0x60cc498acf842285, 0x1ba3b717f2cb8f08, 0xe384eb4c8953ffaf,
    0x7dd2b7898b67c34a, 0x15e7df01de493606, 0xc8683d4943d46c52, 0x3360ef035710da48,
    0x8a51d3af11a535b0, 0xfc776568272cfed7, 0x3ea4b89c4728d36b, 0x521efe92fd26f387,
    0x7d7e422ae26fa8c3, 0x3f7e22648e01a98f, 0x6271b1b537bf0302, 0xf5ccf2b75bf48b9f,
    0x5ea9788e0656236f, 0xe0b258223ce6c78f, 0xc2f13302d6f9f1e7, 0x4b1ab67708554645,
    0x841b575446d28046, 0xe97260d10ccd8d96, 0x0586f17d6f85cca5, 0x64676e1f393a8f08,
    0x6467d2c6c51e41db, 0xc076995dbdd49fc4, 0xbb0aabee3c98af32, 0xb49b28f1678d85e7,
    0x31ce3be5ba3ec5f2, 0x0992c807b1a78df7, 0x381445fd070c2bc3, 0x90396de9de640284,
    0xfab114a3112f8b55, 0x71b1271d2309ee8f, 0x5501d463a6c2dd1a, 0xe883ccc22254f14d,
    0x7efc460f2e8e2aa6, 0x40773f739bb2feb8, 0xfe024c34ea735107, 0xdc52392cfd376a28,
    0xa464af9c47182530, 0xb31a97d6a40ebba6, 0x50d6fec8f520da7a, 0xccdf1510c4a39802]"

definition GEAR_LS :: "u64 list" where
  "GEAR_LS = [
    0x654aa4b834ac9962, 0xe5b11fdbe6e14d0e, 0x2a9109113e7107fc, 0xb0cad9b07d86ab84,
    0x7f7775184bc8c640, 0x0fa192b1d2e4ea54, 0x48d0579450e04b34, 0x0e4b5e33fb6d82d0,
    0x3a59cc494d9d7056, 0x8550c80d2dac6720, 0x8a6d1461dbec9f9a, 0xbe88be8ea18ac0a6,
    0xb393ebe29ffcba08, 0xfb1f7604dea18f8a, 0xdd8ea9bbbccf70e8, 0x53c62d117b9a23b6,
    0xc44b16f24ece851e, 0x0911f62f9d4ab96e, 0x0f2b794e185171c8, 0x4b90d6db62f9c61e,
    0x142a6660670f3b62, 0x52317bf4746d16e0, 0xe6d42822335eaf6c, 0x25359fa7dc499408,
    0x4323952d09ce1492, 0x293d3107ab4b7fda, 0xffdf71c6a194fab4, 0x04bda58bc3f83d48,
    0xe866e8b8f37363be, 0xf61c3f45264c08c4, 0xd4646ab951a436ae, 0x8a7bdbfc3bb18bd6,
    0xef627d4349128804, 0x636ee7896ca2ad50, 0xf0f01c40a9ec9c48, 0x404963be2f6101c2,
    0xfb3347cc03de1b9e, 0xd51255bf67b0c268, 0x5aa9568e3959fe94, 0x4718b4be43c88d62,
    0x85fa39269a7e5f3a, 0xd033513184cec35c, 0x0c7ba29d1055aaa6, 0x520c760fd5604524,
    0xc00e6d04c91e108a, 0x0fc30bb76f77071e, 0x5b0f03813f35ccc4, 0x47094883f04b22f4,
    0x759b58aa9caa2852, 0x0316356de8f23c74, 0xf90db92b7f4d8f3e, 0xe0621d4732e921c0,
    0x38aaf1e580208242, 0x453f8b659e4a96a6, 0x3d1318df6fb59ff2, 0x8f9f1dc0d9182a04,
    0xbdfb02e96bd5b23a, 0x504f49613007b9c0, 0x0fe4425e7e49f8e0, 0xcab4a00fdd1cabee,
    0x958d9be19dc14e48, 0x352837cb2663c0bc, 0x2b6d1bbed88c6254, 0xd584334f63edd45c,
    0x60415ea42935fae0, 0x9b5624974dd0ee5e, 0xb4075cffe5156dda, 0x6d0c8e0be22e7550,
    0x8ae3f02c1fc08a50, 0x192a07a0265e5bc0, 0x2f52fa3038fd7acc, 0x4da1164170d93692,
    0x494b7d33e14ffc82, 0xdcdb43f766b3c332, 0x7fd525fc52b174d6, 0x574767a1604f745c,
    0xe1a767d8773d5ad2, 0x922ad2376ed2031e, 0x1f0af4e3433d1650, 0xf35ee0e7701f4d50,
    0x3d345f557b9951a2, 0x09a9aa2d94fe7b10, 0x4d3900ebf386f422, 0xd9a6a017853cf8de,
    0x95a64ce58b6397ec, 0x357751c0da308368, 0xba66361c06744334, 0x3426bc7ab2121cba,
    0x177665d7920e4e32, 0x06dad02333aa1796, 0x5a9c684e8698598c, 0xd0141ed50945f36e,
    0x3eef2cf142fbf85a, 0x690c98d08d8819d2, 0x3a70aa89be36ea18, 0x138b07dc0d797e80,
    0xb16b82a089b3d22a, 0xc8f0e4ad15f0b8ba, 0xdfbe18397905ba02, 0x35d151e10fe37614,
    0x94e27847ddc031cc, 0xd3df8bc16322e72e, 0xb9d0b9e1d292cf98, 0x58bf1c86f9d02d76,
    0x158f5a68cb9ed62a, 0x64fe6b113526d368, 0xccd73bf8924b2d98, 0xe6df7e0219af417a,
    0x2080e1d41b544df0, 0x96baca5e82e8987c, 0xfaa3d105a78f1bfe, 0xbaf16116f63e5800,
    0xd9dadbd37429be9c, 0x9c6c8004af8dbd54, 0x43663b56eef1e936, 0xa09e29e9a4246622,
    0xa01ca13e6a2d02f2, 0xab5377e97d23ed3e, 0x579549c7fc1aca56, 0xff50918f2a2e9156,
    0xe3ffe8be9963139c, 0xfedbbda784769852, 0x588178a76baf34b0, 0x90ea558a298d03cc,
    0xcafc042bc54ce57e, 0xfca077707af55410, 0x5181ae7584795b14, 0x1115040fcabd4b98,
    0xe3a70a080d1c1144, 0x28bb77f41fe4d49a, 0xf52902c098b00f60, 0x257063bb17839b1e,
    0xa6c3cb92c298fdc8, 0x60100f8558a1d21a, 0xb67ccd8b3c474534, 0x79e857a84d29b1b8,
    0xe809af8a32ce3058, 0x39558f5a9f801b3c, 0x8991bebec2edf808, 0x711e5201846f9c3c,
    0x9106554f3c4169a4, 0x3d51a87ae7474e8a, 0x1dcf95d5f809bf64, 0x1b0c46fd36049a0a,
    0xccd51e0b165cd6fa, 0xdd7af2383a607c26, 0x1c3b4439f26646ee, 0x08321fecc2d5412a,
    0x3ec2e442e2351fa0, 0x2838cb4b01c32f90, 0x02f63e4d2c9e9d20, 0xb371280fd0c27016,
    0xaf703a75160d7858, 0x102baad0e9542ee0, 0x0b24ec175c33a572, 0x6e5ccad1999c59fc,
    0x1bc5b4b0762a9d88, 0x1ab1b31d892f8a5c, 0xd41a2c2baa758ee2, 0x8630d16c3b6a8d9c,
    0x6a36ba2a05fbedce, 0x99248fa5a689f48e, 0x253a34ca1a063816, 0xae7aa2b1f824ddc6,
    0x2b3d8ab10ee48d1c, 0x7effd7521f120dde, 0xa06a55f08d9465a8, 0x12962727e70ed622,
    0xa05653ecaaec4e5a, 0x093bcc81b2c0ed98, 0x935fcd9b5826c476, 0x010993d7049b623a,
    0xd643802ab8d9ea0c, 0x2e361ec9f4da2d10, 0xb808711f1a0bc360, 0xf5d086085a4d5c08,
    0x91616f1ff59a7348, 0xd33b4e9f78437988, 0xa92af7e34637e2f2, 0x270353006e9ea8ea,
    0x0f1c55bba14c1e84, 0x94d13b2534bfdb32, 0xd0e8990d445ce842, 0xe5a5b0c0a9066044,
    0x164ac6e63f1e8aa6, 0x6ad44f4ef1e4dee6, 0xa380d0f19458af40, 0x84d9c8fde8818342,
    0xf2b6e6381413952a, 0xe7c6643ad101b4bc, 0x28fc3432dddbc6a4, 0x5a7735fd035443ac,
    0x5497264d1e56c52c, 0x26358d906ebde994, 0xb36b744321b640b8, 0xaf82f6febf30d0de,
    0x5ccedc4453a8dd58, 0xe2780ffbaf7b9b94, 0xee9809b72ee1f014, 0x14ae93abd26fb0be,
    0x0edcf82db5950dfa, 0x3632b1a29e66fe9c, 0x7b9246ef02e9b10a, 0xaae029263146cfb0,
    0xcdc92afe98797556, 0x4c4fa40b84d66c5c, 0x9a5acadc95bc852c, 0x0f4e257e95de1a40,
    0x94aac7b4b485a402, 0xd6a5710e195ef206, 0xf42f69d3e7d4ae62, 0x3566deb9426fa032,
    0x1e4203ff12dca24a, 0xc19893159f08450a, 0x37476e2fe5971e10, 0xc709d69912a7ff5e,
    0xfba56f1316cf8694, 0x2bcfbe03bc926c0c, 0x90d07a9287a8d8a4, 0x66c1de06ae21b490,
    0x14a3a75e234a6b60, 0xf8eecad04e59fdae, 0x7d4971388e51a6d6, 0xa43dfd25fa4de70e,
    0xfafc8455c4df5186, 0x7efc44c91c03531e, 0xc4e3636a6f7e0604, 0xeb99e56eb7e9173e,
    0xbd52f11c0cac46de, 0xc164b04479cd8f1e, 0x85e26605adf3e3ce, 0x96356cee10aa8c8a,
    0x0836aea88da5008c, 0xd2e4c1a2199b1b2c, 0x0b0de2fadf0b994a, 0xc8cedc3e72751e10,
    0xc8cfa58d8a3c83b6, 0x80ed32bb7ba93f88, 0x761557dc79315e64, 0x693651e2cf1b0bce,
    0x639c77cb747d8be4, 0x1325900f634f1bee, 0x70288bfa0e185786, 0x2072dbd3bcc80508,
    0xf5622946225f16aa, 0xe3624e3a4613dd1e, 0xaa03a8c74d85ba34, 0xd107998444a9e29a,
    0xfdf88c1e5d1c554c, 0x80ee7ee73765fd70, 0xfc049869d4e6a20e, 0xb8a47259fa6ed450,
    0x48c95f388e304a60, 0x66352fad481d774c, 0xa1adfd91ea41b4f4, 0x99be2a2189473004]"

definition MASKS :: "u64 list" where
  "MASKS = [
    0x0000000000000000, 0x0000000000002000, 0x0000000000022000, 0x0000000010010040,
    0x0000000100010044, 0x0000090042001000, 0x0000002a10010004, 0x0000484208006000,
    0x0000028404200700, 0x000031c000000198, 0x0000050454990000, 0x00001e0500504030,
    0x0000080a08c18a14, 0x000040ca21080463, 0x00001320504831b0, 0x00009144a50094a2,
    0x0000090864506356, 0x0000894111111766, 0x0000b13e28184185, 0x0000c9798491121a,
    0x0000b639e012072a, 0x00006eca54da018c, 0x00001a11cf6528d5, 0x00009e551498f3a4,
    0x0000e4b0dee270b2, 0x0000fb7d40e32cb0]"

lemma length_GEAR: "length GEAR = 256"
  by (simp add: GEAR_def)

lemma GEAR_LS_map: "GEAR_LS = map (push_bit 1) GEAR"
  by (simp add: GEAR_LS_def GEAR_def)

lemma length_MASKS: "length MASKS = 26"
  by (simp add: MASKS_def)

lemma MASKS_high_bits: "list_all (\<lambda>m. take_bit 48 m = m) MASKS"
  by (simp add: MASKS_def)

end
