(* ===== verification/Chunker.thy ===== *)
theory Chunker
  imports Prelude ChunkerTables
begin

text \<open>
  The content-defined chunker (\<open>crates/chunker/src/lib.rs\<close>): \<open>Chunker::new\<close> with its assertions, the
  two-bytes-per-iteration cut-point search, and the streaming iterator over a reader that may deliver
  short reads, interruptions and errors.

  The optimised search is proved equal to a byte-at-a-time reference; the cut point is proved to lie
  between the minimum and the maximum size; the stream is proved to reproduce its input exactly and
  to place its boundaries by content alone, however the reader fragments the input.
\<close>

section \<open>Construction\<close>

definition TOTAL_MIN_SIZE :: nat where "TOTAL_MIN_SIZE = 64"
definition TOTAL_MAX_SIZE :: nat where "TOTAL_MAX_SIZE = 16 * 1024 * 1024"
definition MAX_NORMAL_SIZE :: nat where "MAX_NORMAL_SIZE = 4 * 1024 * 1024"

datatype Normalization = NoNorm | L1 | L2 | L3

definition norm_bits :: "Normalization \<Rightarrow> nat" where
  "norm_bits n = (case n of NoNorm \<Rightarrow> 0 | L1 \<Rightarrow> 1 | L2 \<Rightarrow> 2 | L3 \<Rightarrow> 3)"

record Chunker =
  ck_min_size :: nat
  ck_normal_size :: nat
  ck_max_size :: nat
  ck_gear :: "u64 list"
  ck_gear_ls :: "u64 list"
  ck_mask_s :: u64
  ck_mask_l :: u64
  ck_mask_s_ls :: u64
  ck_mask_l_ls :: u64

fun ilog2 :: "nat \<Rightarrow> nat" where
  "ilog2 n = (if n < 2 then 0 else Suc (ilog2 (n div 2)))"

declare ilog2.simps [simp del]

text \<open>\<open>None\<close> is a failed assertion or an index out of the mask table: a panic.\<close>

definition chunker_new :: "nat \<Rightarrow> nat \<Rightarrow> nat \<Rightarrow> Normalization \<Rightarrow> Chunker option" where
  "chunker_new min_size normal_size max_size normalization =
     (if \<not> min_size \<le> normal_size \<or> \<not> normal_size \<le> max_size \<or> \<not> TOTAL_MIN_SIZE \<le> min_size
         \<or> \<not> max_size \<le> TOTAL_MAX_SIZE \<or> \<not> normal_size \<le> MAX_NORMAL_SIZE then None
      else let normal_bits = ilog2 normal_size; nb = norm_bits normalization
           in if \<not> normal_bits + nb \<le> length MASKS then None
              else if \<not> normal_bits + nb < length MASKS \<or> normal_bits < nb then None
              else let ms = MASKS ! (normal_bits + nb); ml = MASKS ! (normal_bits - nb)
                   in Some \<lparr>ck_min_size = min_size, ck_normal_size = normal_size, ck_max_size = max_size,
                           ck_gear = GEAR, ck_gear_ls = GEAR_LS, ck_mask_s = ms, ck_mask_l = ml,
                           ck_mask_s_ls = push_bit 1 ms, ck_mask_l_ls = push_bit 1 ml\<rparr>)"

text \<open>What every constructed chunker satisfies.\<close>

definition chunker_ok :: "Chunker \<Rightarrow> bool" where
  "chunker_ok c \<longleftrightarrow> 64 \<le> ck_min_size c \<and> ck_min_size c \<le> ck_normal_size c \<and>
     ck_normal_size c \<le> ck_max_size c \<and> length (ck_gear c) = 256 \<and>
     ck_gear_ls c = map (push_bit 1) (ck_gear c) \<and>
     ck_mask_s_ls c = push_bit 1 (ck_mask_s c) \<and> ck_mask_l_ls c = push_bit 1 (ck_mask_l c) \<and>
     \<not> bit (ck_mask_s c) 63 \<and> \<not> bit (ck_mask_l c) 63"

lemma ilog2_less: "n < 2 ^ k \<Longrightarrow> k > 0 \<Longrightarrow> ilog2 n < k"
proof (induction n arbitrary: k rule: ilog2.induct)
  case (1 n)
  show ?case
  proof (cases "n < 2")
    case True
    with 1 show ?thesis by (simp add: ilog2.simps)
  next
    case False
    with 1 obtain k' where k': "k = Suc k'" "k' > 0" by (cases k; cases "k - 1") auto
    with 1 False have "ilog2 (n div 2) < k'" by simp
    with False k' show ?thesis by (simp add: ilog2.simps [of n])
  qed
qed

lemma ilog2_ge: "2 ^ k \<le> n \<Longrightarrow> k \<le> ilog2 n"
proof (induction n arbitrary: k rule: ilog2.induct)
  case (1 n)
  show ?case
  proof (cases k)
    case (Suc k')
    have "(2::nat) ^ 1 \<le> 2 ^ k" unfolding Suc by (rule power_increasing) auto
    with "1.prems" have n: "\<not> n < 2" by simp
    from "1.prems" Suc have "2 ^ k' \<le> n div 2" by simp
    with "1.IH" [OF n] n Suc show ?thesis by (simp add: ilog2.simps [of n])
  qed simp
qed

lemma masks_bit_63: "i < length MASKS \<Longrightarrow> \<not> bit (MASKS ! i) 63"
proof -
  assume "i < length MASKS"
  then have "take_bit 48 (MASKS ! i) = MASKS ! i" using MASKS_high_bits by (simp add: list_all_length)
  then have "bit (MASKS ! i) 63 = bit (take_bit 48 (MASKS ! i)) 63" by simp
  then show ?thesis by (simp add: bit_take_bit_iff)
qed

text \<open>\<open>Chunker::new\<close> panics exactly when one of its documented size constraints is violated; the
  mask table is never indexed out of range, and the chunker it builds is consistent.\<close>

theorem chunker_new_total:
  "(case chunker_new mn nrm mx lvl of
      Some c \<Rightarrow> chunker_ok c \<and> ck_min_size c = mn \<and> ck_normal_size c = nrm \<and> ck_max_size c = mx
    | None \<Rightarrow> \<not> (mn \<le> nrm \<and> nrm \<le> mx \<and> 64 \<le> mn \<and> mx \<le> 16777216 \<and> nrm \<le> 4194304))"
proof (cases "mn \<le> nrm \<and> nrm \<le> mx \<and> 64 \<le> mn \<and> mx \<le> 16777216 \<and> nrm \<le> 4194304")
  case True
  have "ilog2 nrm < 23" by (rule ilog2_less) (use True in auto)
  moreover have "6 \<le> ilog2 nrm" by (rule ilog2_ge) (use True in auto)
  moreover have "norm_bits lvl \<le> 3" by (simp add: norm_bits_def split: Normalization.split)
  ultimately have b: "ilog2 nrm + norm_bits lvl < 26" "norm_bits lvl \<le> ilog2 nrm"
    "ilog2 nrm - norm_bits lvl < 26" by linarith+
  with True masks_bit_63 show ?thesis
    by (simp add: chunker_new_def TOTAL_MIN_SIZE_def TOTAL_MAX_SIZE_def MAX_NORMAL_SIZE_def Let_def
        length_MASKS chunker_ok_def length_GEAR GEAR_LS_map)
next
  case False
  then show ?thesis
    by (auto simp: chunker_new_def TOTAL_MIN_SIZE_def TOTAL_MAX_SIZE_def MAX_NORMAL_SIZE_def)
qed

section \<open>The cut point\<close>

text \<open>One of the two search loops, from \<open>n\<close> up to \<open>limit\<close>: \<open>Inl\<close> is an early return with the cut point,
  \<open>Inr\<close> the position and fingerprint with which the next phase goes on.\<close>

function cut_phase :: "Chunker \<Rightarrow> u64 \<Rightarrow> u64 \<Rightarrow> bytes \<Rightarrow> nat \<Rightarrow> nat \<Rightarrow> u64 \<Rightarrow> nat + (nat \<times> u64)" where
  "cut_phase c msk mask_ls search_slice limit n fp =
     (if \<not> n < limit then Inr (n, fp)
      else let fp1 = push_bit 2 fp + ck_gear_ls c ! unat (search_slice ! n)
           in if fp1 AND mask_ls = 0 then Inl n
              else let fp2 = fp1 + ck_gear c ! unat (search_slice ! (n + 1))
                   in if fp2 AND msk = 0 then Inl (n + 1)
                      else cut_phase c msk mask_ls search_slice limit (n + 2) fp2)"
  by pat_completeness auto
termination
  by (relation "measure (\<lambda>(c, msk, mask_ls, s, limit, n, fp). limit - n)") auto

declare cut_phase.simps [simp del]

text \<open>The alignment step and the two phases on the slice that ends at \<open>end'\<close>.\<close>

definition cut_search :: "Chunker \<Rightarrow> bytes \<Rightarrow> nat \<Rightarrow> nat \<Rightarrow> nat \<Rightarrow> nat \<Rightarrow> nat" where
  "cut_search c search_slice mx mid end' n0 =
     (let align = n0 < end' \<and> odd n0;
          fp0 = (if align then push_bit 1 0 + ck_gear c ! unat (search_slice ! n0) else 0);
          n1 = (if align then n0 + 1 else n0)
      in if align \<and> fp0 AND ck_mask_s c = 0 then n0 + 1
         else (case cut_phase c (ck_mask_s c) (ck_mask_s_ls c) search_slice mid n1 fp0 of
                 Inl p \<Rightarrow> p
               | Inr (n2, fp2) \<Rightarrow>
                   (case cut_phase c (ck_mask_l c) (ck_mask_l_ls c) search_slice end' n2 fp2 of
                      Inl p \<Rightarrow> p
                    | Inr _ \<Rightarrow> mx)))"

definition chunker_cut :: "Chunker \<Rightarrow> bytes \<Rightarrow> nat" where
  "chunker_cut c data =
     (let len = length data
      in if len \<le> ck_min_size c then len
         else
           let mx = min len (ck_max_size c);
               center = min (ck_normal_size c) mx;
               mid = 2 * (center div 2);
               end' = 2 * (mx div 2);
               search_slice = take end' data;
               n0 = min (ck_min_size c) mx
           in cut_search c search_slice mx mid end' n0)"

text \<open>The reference: one byte per step, fingerprint shifted by one, judged against the msk of the
  byte's position; the position of the first byte that passes.\<close>

fun ref_scan :: "u64 list \<Rightarrow> (nat \<Rightarrow> u64) \<Rightarrow> nat \<Rightarrow> u64 \<Rightarrow> bytes \<Rightarrow> nat option" where
  "ref_scan gear msk n fp [] = None"
| "ref_scan gear msk n fp (b # bs) =
     (let fp' = push_bit 1 fp + gear ! unat b
      in if fp' AND msk n = 0 then Some n else ref_scan gear msk (n + 1) fp' bs)"

text \<open>An odd minimum size is aligned first: there the cut is placed after the judged byte.\<close>

definition cut_ref :: "Chunker \<Rightarrow> bytes \<Rightarrow> nat" where
  "cut_ref c data =
     (let len = length data
      in if len \<le> ck_min_size c then len
         else
           let mx = min len (ck_max_size c);
               mid = 2 * (min (ck_normal_size c) mx div 2);
               end' = 2 * (mx div 2);
               start = ck_min_size c;
               msk = (\<lambda>j. if j < mid \<or> odd start \<and> j = start then ck_mask_s c else ck_mask_l c)
           in (case ref_scan (ck_gear c) msk start 0 (drop start (take end' data)) of
                 None \<Rightarrow> mx
               | Some j \<Rightarrow> if odd start \<and> j = start then j + 1 else j))"

lemma shift_and_zero:
  assumes "\<not> bit (m :: u64) 63"
  shows "push_bit 1 x AND push_bit 1 m = 0 \<longleftrightarrow> x AND m = 0"
proof -
  have "x AND m = 0" if "push_bit 1 (x AND m) = 0"
  proof (rule bit_word_eqI)
    fix n assume n: "n < LENGTH(64)"
    have "\<not> bit (push_bit 1 (x AND m)) (Suc n)" unfolding that by simp
    then have "n < 63 \<Longrightarrow> \<not> bit (x AND m) n" by (simp only: bit_push_bit_iff) simp
    then show "bit (x AND m) n = bit 0 n"
      using n assms by (cases "n = 63") (auto simp: bit_simps)
  qed
  moreover have "push_bit 1 (0 :: u64) = 0" by simp
  ultimately show ?thesis unfolding push_bit_and [symmetric] by metis
qed

lemma roll_two: "push_bit 2 fp + push_bit 1 g = push_bit 1 (push_bit 1 fp + (g :: u64))"
  by (simp add: push_bit_eq_mult algebra_simps)

lemma cut_phase_step:
  fixes fp :: u64 and s :: bytes
  assumes "length (ck_gear c) = 256" "ck_gear_ls c = map (push_bit 1) (ck_gear c)"
    and "mls = push_bit 1 m" "\<not> bit m 63" "n < limit"
  defines "fpa \<equiv> push_bit 1 fp + ck_gear c ! unat (s ! n)"
  defines "fpb \<equiv> push_bit 1 fpa + ck_gear c ! unat (s ! (n + 1))"
  shows "cut_phase c m mls s limit n fp =
    (if fpa AND m = 0 then Inl n else if fpb AND m = 0 then Inl (n + 1)
     else cut_phase c m mls s limit (n + 2) fpb)"
proof -
  have "unat (s ! n) < 256" using unsigned_less [of "s ! n"] by simp
  then have "push_bit 2 fp + ck_gear_ls c ! unat (s ! n) = push_bit 1 fpa"
    unfolding fpa_def roll_two [symmetric] assms(2) using assms(1) by (simp only: nth_map)
  then show ?thesis
    using assms(5)
    by (subst cut_phase.simps)
      (simp only: Let_def assms(3) shift_and_zero [OF assms(4)] fpb_def not_True_eq_False if_False)
qed

text \<open>One phase of the optimised loop advances the reference by whole pairs of bytes.\<close>

lemma cut_phase_ref:
  assumes ok: "length (ck_gear c) = 256" "ck_gear_ls c = map (push_bit 1) (ck_gear c)"
    and m: "mls = push_bit 1 m" "\<not> bit m 63"
    and lim: "even limit" "limit \<le> length s" "\<forall>j. n0 \<le> j \<and> j < limit \<longrightarrow> mk j = m"
  shows "n0 \<le> n \<Longrightarrow> even n \<Longrightarrow> n \<le> limit \<Longrightarrow>
    (case cut_phase c m mls s limit n fp of
       Inl p \<Rightarrow> ref_scan (ck_gear c) mk n fp (drop n s) = Some p \<and> n \<le> p \<and> p < limit
     | Inr (n', fp') \<Rightarrow> n' = limit \<and>
         ref_scan (ck_gear c) mk n fp (drop n s) = ref_scan (ck_gear c) mk n' fp' (drop n' s))"
proof (induction "limit - n" arbitrary: n fp rule: less_induct)
  case less
  show ?case
  proof (cases "n < limit")
    case False
    then have "cut_phase c m mls s limit n fp = Inr (n, fp)" by (subst cut_phase.simps) simp
    with False less.prems show ?thesis by simp
  next
    case True
    with less.prems lim(1) have n1: "n + 1 < limit" by (metis Suc_eq_plus1 Suc_lessI even_Suc)
    define fpa where "fpa = push_bit 1 fp + ck_gear c ! unat (s ! n)"
    define fpb where "fpb = push_bit 1 fpa + ck_gear c ! unat (s ! (n + 1))"
    have "drop n s = s ! n # s ! (n + 1) # drop (n + 2) s"
      using n1 lim(2) by (simp add: Cons_nth_drop_Suc)
    moreover have "mk n = m" "mk (n + 1) = m" using lim(3) less.prems(1) n1 by auto
    ultimately have ref: "ref_scan (ck_gear c) mk n fp (drop n s) =
        (if fpa AND m = 0 then Some n else if fpb AND m = 0 then Some (n + 1)
         else ref_scan (ck_gear c) mk (n + 2) fpb (drop (n + 2) s))"
      by (simp only: ref_scan.simps Let_def fpa_def fpb_def) simp
    have opt: "cut_phase c m mls s limit n fp =
        (if fpa AND m = 0 then Inl n else if fpb AND m = 0 then Inl (n + 1)
         else cut_phase c m mls s limit (n + 2) fpb)"
      unfolding fpa_def fpb_def by (rule cut_phase_step [OF ok m True])
    have "limit - (n + 2) < limit - n" "n0 \<le> n + 2" "even (n + 2)" "n + 2 \<le> limit"
      using True n1 less.prems by auto
    note IH = less.hyps [OF this, of fpb]
    show ?thesis unfolding ref opt using IH n1 by (auto split: sum.splits)
  qed
qed

lemma ref_scan_cong:
  "(\<And>j. n \<le> j \<Longrightarrow> mk j = mk' j) \<Longrightarrow> ref_scan g mk n fp bs = ref_scan g mk' n fp bs"
  by (induction g mk n fp bs rule: ref_scan.induct) (auto simp: Let_def)

lemma ref_scan_range: "ref_scan g mk n fp bs = Some j \<Longrightarrow> n \<le> j \<and> j < n + length bs"
  by (induction g mk n fp bs rule: ref_scan.induct) (auto simp: Let_def split: if_splits)

lemma two_phases_ref:
  assumes ok: "chunker_ok c" and e: "even n" "n \<le> length s" "even (length s)" "even mid" "mid \<le> length s"
    and mk: "\<And>j. n \<le> j \<Longrightarrow> j < length s \<Longrightarrow> mk j = (if j < mid then ck_mask_s c else ck_mask_l c)"
  shows "ref_scan (ck_gear c) mk n fp (drop n s) =
     (case cut_phase c (ck_mask_s c) (ck_mask_s_ls c) s mid n fp of
        Inl p \<Rightarrow> Some p
      | Inr (n2, fp2) \<Rightarrow>
          (case cut_phase c (ck_mask_l c) (ck_mask_l_ls c) s (length s) n2 fp2 of
             Inl p \<Rightarrow> Some p
           | Inr _ \<Rightarrow> None))"
proof -
  have g: "length (ck_gear c) = 256" "ck_gear_ls c = map (push_bit 1) (ck_gear c)"
    and ms: "ck_mask_s_ls c = push_bit 1 (ck_mask_s c)" "\<not> bit (ck_mask_s c) 63"
    and ml: "ck_mask_l_ls c = push_bit 1 (ck_mask_l c)" "\<not> bit (ck_mask_l c) 63"
    using ok by (auto simp: chunker_ok_def)
  have second: "ref_scan (ck_gear c) mk n2 fp2 (drop n2 s) =
      (case cut_phase c (ck_mask_l c) (ck_mask_l_ls c) s (length s) n2 fp2 of Inl p \<Rightarrow> Some p | Inr _ \<Rightarrow> None)"
    if "n \<le> n2" "mid \<le> n2" "even n2" "n2 \<le> length s" for n2 fp2
  proof -
    have "\<forall>j. n2 \<le> j \<and> j < length s \<longrightarrow> mk j = ck_mask_l c" using mk that by auto
    from cut_phase_ref [OF g ml \<open>even (length s)\<close> order_refl this order_refl, of fp2] that
    show ?thesis by (auto split: sum.splits)
  qed
  show ?thesis
  proof (cases "n < mid")
    case True
    have "\<forall>j. n \<le> j \<and> j < mid \<longrightarrow> mk j = ck_mask_s c" using mk e by auto
    from cut_phase_ref [OF g ms \<open>even mid\<close> \<open>mid \<le> length s\<close> this order_refl \<open>even n\<close>, of fp] True
    show ?thesis
      using second e True by (auto split: sum.splits)
  next
    case False
    then have "cut_phase c (ck_mask_s c) (ck_mask_s_ls c) s mid n fp = Inr (n, fp)"
      by (subst cut_phase.simps) simp
    with second [of n fp] False e show ?thesis by simp
  qed
qed

text \<open>C11: rolling two bytes at a time with the shifted tables finds the same cut point as judging
  every byte on its own with the unshifted Gear hash.\<close>

theorem cut_eq_ref:
  assumes "chunker_ok c"
  shows "chunker_cut c data = cut_ref c data"
proof (cases "length data \<le> ck_min_size c")
  case True
  then show ?thesis by (simp add: chunker_cut_def cut_ref_def)
next
  case False
  define mx where "mx = min (length data) (ck_max_size c)"
  define mid where "mid = 2 * (min (ck_normal_size c) mx div 2)"
  define s where "s = take (2 * (mx div 2)) data"
  define st where "st = ck_min_size c"
  define mk where "mk = (\<lambda>j. if j < mid \<or> odd st \<and> j = st then ck_mask_s c else ck_mask_l c)"
  have bounds: "st \<le> mx" "min (ck_min_size c) mx = st" "length s = 2 * (mx div 2)" "even mid" "mid \<le> length s"
    using False assms by (auto simp: chunker_ok_def mx_def mid_def s_def st_def)
  have len: "length s = 2 * (mx div 2)" by (rule bounds(3))
  have ref: "cut_ref c data = (case ref_scan (ck_gear c) mk st 0 (drop st s) of None \<Rightarrow> mx
      | Some j \<Rightarrow> if odd st \<and> j = st then j + 1 else j)"
    using False unfolding cut_ref_def Let_def mk_def s_def mid_def mx_def st_def by simp
  have cs: "chunker_cut c data = cut_search c s mx mid (length s) st"
    using False unfolding chunker_cut_def Let_def len unfolding s_def mid_def mx_def st_def
    using bounds(2) by (simp add: mx_def st_def)
  show ?thesis
  proof (cases "st < length s \<and> odd st")
    case True
    define fp0 where "fp0 = push_bit 1 0 + ck_gear c ! unat (s ! st)"
    have opt: "chunker_cut c data = (if fp0 AND ck_mask_s c = 0 then st + 1
       else (case cut_phase c (ck_mask_s c) (ck_mask_s_ls c) s mid (st + 1) fp0 of Inl p \<Rightarrow> p
         | Inr (n2, fp2) \<Rightarrow> (case cut_phase c (ck_mask_l c) (ck_mask_l_ls c) s (length s) n2 fp2 of
             Inl p \<Rightarrow> p | Inr _ \<Rightarrow> mx)))"
      unfolding cs cut_search_def Let_def fp0_def using True by simp
    have "drop st s = s ! st # drop (st + 1) s" using True by (simp add: Cons_nth_drop_Suc)
    moreover have "mk st = ck_mask_s c" using True by (simp add: mk_def)
    ultimately have scan: "ref_scan (ck_gear c) mk st 0 (drop st s) =
       (if fp0 AND ck_mask_s c = 0 then Some st else ref_scan (ck_gear c) mk (st + 1) fp0 (drop (st + 1) s))"
      by (simp add: fp0_def)
    have "ref_scan (ck_gear c) mk (st + 1) fp0 (drop (st + 1) s) = Some j \<Longrightarrow> j \<noteq> st" for j
      using ref_scan_range by fastforce
    moreover note two_phases_ref [OF assms, of "st + 1" s mid mk fp0]
    ultimately show ?thesis
      using True bounds len unfolding ref opt scan by (auto simp: mk_def split: sum.splits option.splits)
  next
    case na: False
    have opt: "chunker_cut c data = (case cut_phase c (ck_mask_s c) (ck_mask_s_ls c) s mid st 0 of Inl p \<Rightarrow> p
         | Inr (n2, fp2) \<Rightarrow> (case cut_phase c (ck_mask_l c) (ck_mask_l_ls c) s (length s) n2 fp2 of
             Inl p \<Rightarrow> p | Inr _ \<Rightarrow> mx))"
      unfolding cs cut_search_def Let_def using na by auto
    show ?thesis
    proof (cases "odd st")
      case True
      with na bounds have "\<not> st < mid" "\<not> st < length s" by auto
      then show ?thesis unfolding ref opt
        by (simp add: cut_phase.simps [of _ _ _ _ mid st] cut_phase.simps [of _ _ _ _ "length s" st])
    next
      case ev: False
      then have "st \<le> length s" using bounds(1) len by auto
      with two_phases_ref [OF assms, of st s mid mk 0] ev bounds len show ?thesis
        unfolding ref opt by (auto simp: mk_def split: sum.splits option.splits)
    qed
  qed
qed

text \<open>The table-built chunker used by the examples: 64, 64 and 65 bytes, no normalization.\<close>

definition small_chunker :: Chunker where
  "small_chunker = \<lparr>ck_min_size = 64, ck_normal_size = 64, ck_max_size = 65, ck_gear = GEAR,
     ck_gear_ls = GEAR_LS, ck_mask_s = MASKS ! 6, ck_mask_l = MASKS ! 6,
     ck_mask_s_ls = push_bit 1 (MASKS ! 6), ck_mask_l_ls = push_bit 1 (MASKS ! 6)\<rparr>"

lemma small_chunker_ok: "chunker_ok small_chunker"
  using masks_bit_63 [of 6]
  by (simp add: chunker_ok_def small_chunker_def length_GEAR GEAR_LS_map length_MASKS)

theorem cut_eq_ref_witness: "chunker_cut small_chunker (replicate 70 7) = cut_ref small_chunker (replicate 70 7)"
  by (rule cut_eq_ref [OF small_chunker_ok])

text \<open>A cut point is positive, within the data and the maximum size, and at least the minimum size
  unless all the data is shorter.\<close>

theorem cut_bounds:
  assumes "chunker_ok c" "data \<noteq> []"
  shows "0 < chunker_cut c data \<and> chunker_cut c data \<le> length data \<and> chunker_cut c data \<le> ck_max_size c \<and>
         min (length data) (ck_min_size c) \<le> chunker_cut c data"
proof (cases "length data \<le> ck_min_size c")
  case True
  with assms show ?thesis by (auto simp: chunker_cut_def chunker_ok_def)
next
  case False
  let ?mx = "min (length data) (ck_max_size c)" and ?st = "ck_min_size c"
  let ?bs = "drop ?st (take (2 * (?mx div 2)) data)"
  obtain mk where ref: "chunker_cut c data = (case ref_scan (ck_gear c) mk ?st 0 ?bs of None \<Rightarrow> ?mx
      | Some j \<Rightarrow> if odd ?st \<and> j = ?st then j + 1 else j)"
    unfolding cut_eq_ref [OF assms(1)] cut_ref_def Let_def using False by simp
  have st: "64 \<le> ?st" "?st \<le> ?mx" using assms(1) False by (auto simp: chunker_ok_def)
  have "ref_scan (ck_gear c) mk ?st 0 ?bs = Some j \<Longrightarrow> ?st \<le> j \<and> j + 1 \<le> ?mx" for j
    using ref_scan_range [of "ck_gear c" mk ?st 0 ?bs j] by auto
  with st show ?thesis unfolding ref by (fastforce split: option.split)
qed

theorem cut_bounds_witness:
  "64 \<le> chunker_cut small_chunker (replicate 70 7) \<and> chunker_cut small_chunker (replicate 70 7) \<le> 65"
  using cut_bounds [OF small_chunker_ok, of "replicate 70 7"] by (simp add: small_chunker_def)

lemma cut_take_max:
  assumes "chunker_ok c"
  shows "chunker_cut c (take (ck_max_size c) data) = chunker_cut c data"
proof (cases "length data \<le> ck_max_size c")
  case False
  then have mx: "min (length data) (ck_max_size c) = ck_max_size c"
    "length (take (ck_max_size c) data) = ck_max_size c" by auto
  have "2 * (ck_max_size c div 2) \<le> ck_max_size c" by simp
  then have tk: "take (2 * (ck_max_size c div 2)) (take (ck_max_size c) data) = take (2 * (ck_max_size c div 2)) data"
    by (simp add: min_absorb1)
  show ?thesis
  proof (cases "ck_max_size c \<le> ck_min_size c")
    case True
    have "drop (ck_min_size c) (take (2 * (ck_max_size c div 2)) data) = []" using True by simp
    then have "cut_ref c data = ck_max_size c"
      using False True assms unfolding cut_ref_def Let_def mx by (simp add: chunker_ok_def)
    moreover have "cut_ref c (take (ck_max_size c) data) = ck_max_size c"
      using True unfolding cut_ref_def Let_def mx by simp
    ultimately show ?thesis by (simp add: cut_eq_ref [OF assms])
  next
    case False
    moreover have "\<not> length data \<le> ck_min_size c"
      using False mx by linarith
    ultimately show ?thesis unfolding cut_eq_ref [OF assms] cut_ref_def Let_def mx tk by simp
  qed
qed simp

section \<open>The stream\<close>

text \<open>A reader is the sequence of what its \<open>read\<close> calls deliver: bytes (a call takes at most what fits
  its buffer and the rest stays), an interruption, or an error. An empty delivery is \<open>Ok(0)\<close>; the end of
  the sequence is the end of the file.\<close>

datatype read_event = RData bytes | RInterrupted | RError

record ChunkStream =
  cs_source :: "read_event list"
  cs_buffer :: bytes
  cs_offset :: nat

record Chunk =
  chunk_offset :: nat
  chunk_length :: nat
  chunk_data :: bytes

definition stream_new :: "read_event list \<Rightarrow> ChunkStream" where
  "stream_new source = \<lparr>cs_source = source, cs_buffer = [], cs_offset = 0\<rparr>"

text \<open>The refill loop of \<open>next\<close>: the buffer, the rest of the source and how the loop ended. The buffer's
  capacity is at least \<open>max_size\<close> after \<open>reserve\<close>, so a call asks for exactly the missing bytes.\<close>

datatype fill_end = Full | Eof | Failed

function stream_fill :: "nat \<Rightarrow> bytes \<Rightarrow> read_event list \<Rightarrow> bytes \<times> read_event list \<times> fill_end" where
  "stream_fill max_size buffer source =
     (if \<not> length buffer < max_size then (buffer, source, Full)
      else let needed = max_size - length buffer
           in (case source of
                 [] \<Rightarrow> (buffer, [], Eof)
               | RInterrupted # rest \<Rightarrow> stream_fill max_size buffer rest
               | RError # rest \<Rightarrow> (buffer, rest, Failed)
               | RData d # rest \<Rightarrow>
                   if d = [] then (buffer, rest, Eof)
                   else let n = min (length d) needed
                        in stream_fill max_size (buffer @ take n d)
                             (if n < length d then RData (drop n d) # rest else rest)))"
  by pat_completeness auto
termination
  by (relation "measure (\<lambda>(m, b, src). length src + (m - length b))") (auto split: if_splits)

declare stream_fill.simps [simp del]

definition stream_next :: "Chunker \<Rightarrow> ChunkStream \<Rightarrow> (MapacheError + Chunk) option \<times> ChunkStream" where
  "stream_next c st =
     (case stream_fill (ck_max_size c) (cs_buffer st) (cs_source st) of
        (buffer, source, fin) \<Rightarrow>
          let st' = st\<lparr>cs_source := source, cs_buffer := buffer\<rparr>
          in if fin = Failed then (Some (Inl Chunking), st')
             else if fin = Eof \<and> buffer = [] then (None, st')
             else
               let cut_point = chunker_cut c (take (min (length buffer) (ck_max_size c)) buffer)
               in if ck_min_size c \<le> length buffer \<and> cut_point > 0 then
                    (Some (Inr \<lparr>chunk_offset = cs_offset st, chunk_length = cut_point,
                                chunk_data = take cut_point buffer\<rparr>),
                     st'\<lparr>cs_buffer := drop cut_point buffer, cs_offset := cs_offset st + cut_point\<rparr>)
                  else if fin = Eof \<and> buffer \<noteq> [] then
                    (Some (Inr \<lparr>chunk_offset = cs_offset st, chunk_length = length buffer,
                                chunk_data = buffer\<rparr>),
                     st'\<lparr>cs_buffer := [], cs_offset := cs_offset st + length buffer\<rparr>)
                  else (None, st'))"

text \<open>The bytes a source still delivers before an error or an end of file.\<close>

fun source_bytes :: "read_event list \<Rightarrow> bytes" where
  "source_bytes [] = []"
| "source_bytes (RInterrupted # rest) = source_bytes rest"
| "source_bytes (RError # rest) = []"
| "source_bytes (RData d # rest) = (if d = [] then [] else d @ source_bytes rest)"

fun source_fails :: "read_event list \<Rightarrow> bool" where
  "source_fails [] = False"
| "source_fails (RInterrupted # rest) = source_fails rest"
| "source_fails (RError # rest) = True"
| "source_fails (RData d # rest) = (if d = [] then False else source_fails rest)"

definition total_bytes :: "read_event list \<Rightarrow> nat" where
  "total_bytes src = sum_list (map (\<lambda>e. case e of RData d \<Rightarrow> length d | _ \<Rightarrow> 0) src)"

lemma total_bytes_simps [simp]:
  "total_bytes [] = 0" "total_bytes (RData d # r) = length d + total_bytes r"
  "total_bytes (RInterrupted # r) = total_bytes r" "total_bytes (RError # r) = total_bytes r"
  by (simp_all add: total_bytes_def)

lemma stream_fill_cases:
  "m \<le> length b \<Longrightarrow> stream_fill m b src = (b, src, Full)"
  "length b < m \<Longrightarrow> stream_fill m b [] = (b, [], Eof)"
  "length b < m \<Longrightarrow> stream_fill m b (RInterrupted # r) = stream_fill m b r"
  "length b < m \<Longrightarrow> stream_fill m b (RError # r) = (b, r, Failed)"
  "length b < m \<Longrightarrow> stream_fill m b (RData [] # r) = (b, r, Eof)"
  by (simp_all add: stream_fill.simps [of m b])

lemma stream_fill_data:
  assumes "length b < m" "d \<noteq> []"
  shows "stream_fill m b (RData d # r) =
    (if length d \<le> m - length b then stream_fill m (b @ d) r
     else (b @ take (m - length b) d, RData (drop (m - length b) d) # r, Full))"
proof (cases "length d \<le> m - length b")
  case True
  with assms show ?thesis by (simp add: stream_fill.simps [of m b "RData d # r"])
next
  case False
  with assms have "stream_fill m b (RData d # r) =
      stream_fill m (b @ take (m - length b) d) (RData (drop (m - length b) d) # r)"
    by (simp add: stream_fill.simps [of m b "RData d # r"] Let_def)
  with False assms show ?thesis by (simp add: stream_fill_cases(1))
qed

text \<open>A reader is regular if \<open>Ok(0)\<close> means end of file: no empty delivery in the middle.\<close>

definition source_regular :: "read_event list \<Rightarrow> bool" where
  "source_regular src = list_all (\<lambda>e. e \<noteq> RData []) src"

lemma stream_fill_spec:
  assumes "stream_fill m b src = (b', src', fin)" "length b \<le> m" "source_regular src"
  shows "source_regular src' \<and> length b' + total_bytes src' \<le> length b + total_bytes src \<and>
     (case fin of
        Full \<Rightarrow> length b' = m \<and> b' @ source_bytes src' = b @ source_bytes src \<and> source_fails src' = source_fails src
      | Eof \<Rightarrow> length b' < m \<and> b' = b @ source_bytes src \<and> src' = [] \<and> \<not> source_fails src
      | Failed \<Rightarrow> b' = b @ source_bytes src \<and> source_fails src)"
  using assms
proof (induction src arbitrary: b)
  case Nil
  then show ?case by (cases "length b < m") (auto simp: stream_fill_cases source_regular_def)
next
  case (Cons e src)
  show ?case
  proof (cases "length b < m")
    case False
    with Cons.prems show ?thesis by (auto simp: stream_fill_cases(1))
  next
    case lt: True
    show ?thesis
    proof (cases e)
      case (RData d)
      with Cons.prems have d: "d \<noteq> []" "source_regular src" by (auto simp: source_regular_def)
      show ?thesis
      proof (cases "length d \<le> m - length b")
        case True
        with Cons.prems lt d RData have "stream_fill m (b @ d) src = (b', src', fin)" "length (b @ d) \<le> m"
          by (auto simp: stream_fill_data)
        from Cons.IH [OF this d(2)] d RData show ?thesis by (cases fin) auto
      next
        case False
        with Cons.prems lt d RData show ?thesis
          by (auto simp: stream_fill_data source_regular_def)
      qed
    next
      case RInterrupted
      with Cons.prems lt have "stream_fill m b src = (b', src', fin)" "source_regular src"
        by (auto simp: stream_fill_cases source_regular_def)
      from Cons.IH [OF this(1) Cons.prems(2) this(2)] RInterrupted show ?thesis by (cases fin) auto
    qed (use Cons lt in \<open>auto simp: stream_fill_cases source_regular_def\<close>)
  qed
qed

lemma stream_fill_total:
  assumes "stream_fill m b src = (b', src', fin)"
  shows "length b' + total_bytes src' \<le> length b + total_bytes src"
  using assms
proof (induction src arbitrary: b)
  case Nil
  then show ?case by (cases "length b < m") (auto simp: stream_fill_cases)
next
  case (Cons e src)
  show ?case
  proof (cases "length b < m")
    case False
    with Cons.prems show ?thesis by (auto simp: stream_fill_cases(1))
  next
    case lt: True
    show ?thesis
    proof (cases e)
      case (RData d)
      with Cons lt show ?thesis
        by (cases "d = []"; cases "length d \<le> m - length b")
          (fastforce simp: stream_fill_cases stream_fill_data)+
    qed (use Cons lt in \<open>auto simp: stream_fill_cases\<close>)
  qed
qed

lemma stream_next_decreases:
  assumes "stream_next c st = (Some (Inr ch), st')"
  shows "length (cs_buffer st') + total_bytes (cs_source st') < length (cs_buffer st) + total_bytes (cs_source st)"
proof -
  obtain b src fin where f: "stream_fill (ck_max_size c) (cs_buffer st) (cs_source st) = (b, src, fin)"
    by (metis prod_cases3)
  note total = stream_fill_total [OF f]
  let ?k = "chunker_cut c (take (min (length b) (ck_max_size c)) b)"
  have "b = [] \<Longrightarrow> ?k = 0" by (simp add: chunker_cut_def)
  then have less: "0 < ?k \<Longrightarrow> length b - ?k < length b" by (cases b) auto
  from assms consider
      "0 < ?k" "cs_buffer st' = drop ?k b" "cs_source st' = src"
    | "b \<noteq> []" "cs_buffer st' = []" "cs_source st' = src"
    unfolding stream_next_def f by (auto simp: Let_def split: if_splits)
  then show ?thesis
  proof cases
    case 1
    with less total show ?thesis by simp
  next
    case 2
    then have "0 < length b" by simp
    with 2 total show ?thesis by (simp del: length_greater_0_conv)
  qed
qed

text \<open>Draining the iterator: the chunks it yields, and the error it stopped at, if any.\<close>

function stream_run :: "Chunker \<Rightarrow> ChunkStream \<Rightarrow> Chunk list \<times> MapacheError option" where
  "stream_run c st =
     (case stream_next c st of
        (None, _) \<Rightarrow> ([], None)
      | (Some (Inl e), _) \<Rightarrow> ([], Some e)
      | (Some (Inr ch), st') \<Rightarrow> (let (chs, r) = stream_run c st' in (ch # chs, r)))"
  by pat_completeness auto
termination
  by (relation "measure (\<lambda>(c, st). length (cs_buffer st) + total_bytes (cs_source st))")
    (auto dest!: sym [THEN stream_next_decreases])

declare stream_run.simps [simp del]

text \<open>The specification: cut the whole content again and again.\<close>

function ref_chunks :: "Chunker \<Rightarrow> nat \<Rightarrow> bytes \<Rightarrow> Chunk list" where
  "ref_chunks c off bs =
     (if bs = [] \<or> chunker_cut c bs = 0 then []
      else \<lparr>chunk_offset = off, chunk_length = chunker_cut c bs, chunk_data = take (chunker_cut c bs) bs\<rparr>
           # ref_chunks c (off + chunker_cut c bs) (drop (chunker_cut c bs) bs))"
  by pat_completeness auto
termination
  by (relation "measure (\<lambda>(c, off, bs). length bs)") auto

declare ref_chunks.simps [simp del]

lemma ref_chunks_Nil [simp]: "ref_chunks c off [] = []"
  by (simp add: ref_chunks.simps)

lemma stream_next_full:
  assumes ok: "chunker_ok c" and f: "stream_fill (ck_max_size c) (cs_buffer st) (cs_source st) = (b, src', Full)"
    and b: "length b = ck_max_size c" "w = b @ rest"
  shows "stream_next c st = (Some (Inr \<lparr>chunk_offset = cs_offset st, chunk_length = chunker_cut c w,
      chunk_data = take (chunker_cut c w) w\<rparr>),
      \<lparr>cs_source = src', cs_buffer = drop (chunker_cut c w) b, cs_offset = cs_offset st + chunker_cut c w\<rparr>)"
    and "0 < chunker_cut c w" "chunker_cut c w \<le> length b"
proof -
  have mx: "64 \<le> ck_min_size c" "ck_min_size c \<le> ck_max_size c" using ok by (auto simp: chunker_ok_def)
  have cut: "chunker_cut c b = chunker_cut c w" using cut_take_max [OF ok, of w] b by simp
  have "b \<noteq> []" using b mx by auto
  from cut_bounds [OF ok this] show bd: "0 < chunker_cut c w" "chunker_cut c w \<le> length b"
    unfolding cut by auto
  show "stream_next c st = (Some (Inr \<lparr>chunk_offset = cs_offset st, chunk_length = chunker_cut c w,
      chunk_data = take (chunker_cut c w) w\<rparr>),
      \<lparr>cs_source = src', cs_buffer = drop (chunker_cut c w) b, cs_offset = cs_offset st + chunker_cut c w\<rparr>)"
    using bd mx b cut by (simp add: stream_next_def f Let_def)
qed

lemma stream_next_eof:
  assumes ok: "chunker_ok c" and f: "stream_fill (ck_max_size c) (cs_buffer st) (cs_source st) = (w, [], Eof)"
    and w: "length w < ck_max_size c" "w \<noteq> []"
  shows "stream_next c st = (Some (Inr \<lparr>chunk_offset = cs_offset st, chunk_length = chunker_cut c w,
      chunk_data = take (chunker_cut c w) w\<rparr>),
      \<lparr>cs_source = [], cs_buffer = drop (chunker_cut c w) w, cs_offset = cs_offset st + chunker_cut c w\<rparr>)"
    and "0 < chunker_cut c w"
proof -
  show pos: "0 < chunker_cut c w" using cut_bounds [OF ok w(2)] by simp
  have "length w < ck_min_size c \<Longrightarrow> chunker_cut c w = length w" by (simp add: chunker_cut_def)
  with pos w show "stream_next c st = (Some (Inr \<lparr>chunk_offset = cs_offset st, chunk_length = chunker_cut c w,
      chunk_data = take (chunker_cut c w) w\<rparr>),
      \<lparr>cs_source = [], cs_buffer = drop (chunker_cut c w) w, cs_offset = cs_offset st + chunker_cut c w\<rparr>)"
    by (cases "ck_min_size c \<le> length w") (simp_all add: stream_next_def f Let_def)
qed

lemma ref_chunks_unfold:
  "w \<noteq> [] \<Longrightarrow> 0 < chunker_cut c w \<Longrightarrow> ref_chunks c off w =
     \<lparr>chunk_offset = off, chunk_length = chunker_cut c w, chunk_data = take (chunker_cut c w) w\<rparr>
     # ref_chunks c (off + chunker_cut c w) (drop (chunker_cut c w) w)"
  by (simp add: ref_chunks.simps [of c off w])

lemma stream_run_spec:
  assumes "chunker_ok c" "length (cs_buffer st) \<le> ck_max_size c" "source_regular (cs_source st)"
  shows "(\<not> source_fails (cs_source st) \<longrightarrow>
           stream_run c st = (ref_chunks c (cs_offset st) (cs_buffer st @ source_bytes (cs_source st)), None)) \<and>
         (source_fails (cs_source st) \<longrightarrow> snd (stream_run c st) = Some Chunking \<and>
           (\<exists>rest. concat (map chunk_data (fst (stream_run c st))) @ rest = cs_buffer st @ source_bytes (cs_source st)))"
  using assms
proof (induction c st rule: stream_run.induct)
  case (1 c st)
  define w where "w = cs_buffer st @ source_bytes (cs_source st)"
  obtain b src' fin where f: "stream_fill (ck_max_size c) (cs_buffer st) (cs_source st) = (b, src', fin)"
    by (metis prod_cases3)
  note spec = stream_fill_spec [OF f "1.prems"(2,3)]
  show ?case
  proof (cases fin)
    case Failed
    with spec have "source_fails (cs_source st)" by simp
    moreover from f Failed have "stream_run c st = ([], Some Chunking)"
      by (simp add: stream_run.simps [of c st] stream_next_def Let_def)
    ultimately show ?thesis by simp
  next
    case Eof
    with spec have b: "b = w" "length w < ck_max_size c" "src' = []" "\<not> source_fails (cs_source st)"
      by (auto simp: w_def)
    show ?thesis
    proof (cases "w = []")
      case True
      with f b Eof have "stream_next c st = (None, st\<lparr>cs_source := [], cs_buffer := []\<rparr>)"
        by (simp add: stream_next_def)
      with b True show ?thesis
        by (simp add: stream_run.simps [of c st] w_def [symmetric])
    next
      case False
      note nxt = stream_next_eof [OF "1.prems"(1) f [unfolded Eof b] b(2) False]
      let ?st = "\<lparr>cs_source = [], cs_buffer = drop (chunker_cut c w) w, cs_offset = cs_offset st + chunker_cut c w\<rparr>"
      have "stream_run c ?st = (ref_chunks c (cs_offset ?st) (cs_buffer ?st), None)"
        using "1.IH" [OF nxt(1) [symmetric] refl refl] "1.prems" b(2) by (simp add: source_regular_def)
      with b(4) nxt False show ?thesis
        by (simp add: stream_run.simps [of c st] ref_chunks_unfold w_def [symmetric])
    qed
  next
    case Full
    with spec have b: "length b = ck_max_size c" "w = b @ source_bytes src'"
      "source_fails src' = source_fails (cs_source st)" "source_regular src'" by (auto simp: w_def)
    note nxt = stream_next_full [OF "1.prems"(1) f [unfolded Full] b(1,2)]
    let ?k = "chunker_cut c w"
    let ?st = "\<lparr>cs_source = src', cs_buffer = drop ?k b, cs_offset = cs_offset st + ?k\<rparr>"
    have IH: "(\<not> source_fails src' \<longrightarrow> stream_run c ?st = (ref_chunks c (cs_offset st + ?k) (drop ?k w), None)) \<and>
        (source_fails src' \<longrightarrow> snd (stream_run c ?st) = Some Chunking \<and>
          (\<exists>rest. concat (map chunk_data (fst (stream_run c ?st))) @ rest = drop ?k w))"
      using "1.IH" [OF nxt(1) [symmetric] refl refl] "1.prems" b nxt(3) by simp
    have run: "stream_run c st = (\<lparr>chunk_offset = cs_offset st, chunk_length = ?k, chunk_data = take ?k w\<rparr>
        # fst (stream_run c ?st), snd (stream_run c ?st))"
      by (simp add: stream_run.simps [of c st] nxt(1) case_prod_unfold Let_def)
    have "w \<noteq> []" using nxt by (auto simp: b(2))
    moreover have "\<exists>rest. x @ rest = drop ?k w \<Longrightarrow> \<exists>rest. take ?k w @ x @ rest = w" for x
      by (metis append_take_drop_id)
    ultimately show ?thesis
      using IH b(3) nxt(2) unfolding run w_def [symmetric] by (simp add: ref_chunks_unfold)
  qed
qed

text \<open>C10: chunk boundaries depend on the content alone. However a regular reader splits its input into
  reads and interruptions, the stream yields exactly the chunks obtained by cutting the whole content.\<close>

theorem stream_content_defined:
  assumes "chunker_ok c" "source_regular src" "\<not> source_fails src"
  shows "stream_run c (stream_new src) = (ref_chunks c 0 (source_bytes src), None)"
  using stream_run_spec [OF assms(1), of "stream_new src"] assms(2,3) by (simp add: stream_new_def)

lemma ref_chunks_concat: "chunker_ok c \<Longrightarrow> concat (map chunk_data (ref_chunks c off bs)) = bs"
proof (induction c off bs rule: ref_chunks.induct)
  case (1 c off bs)
  then show ?case
    using cut_bounds [of c bs] by (cases "bs = []") (auto simp: ref_chunks.simps [of c off bs])
qed

theorem stream_content_defined_witness:
  "stream_run small_chunker (stream_new [RData (replicate 3 1), RInterrupted, RData (replicate 4 2)]) =
   (ref_chunks small_chunker 0 (replicate 3 1 @ replicate 4 2), None)"
  using stream_content_defined [OF small_chunker_ok, of "[RData (replicate 3 1), RInterrupted, RData (replicate 4 2)]"]
  by (simp add: source_regular_def)

text \<open>C13: exactly-once reconstruction. Concatenating the chunks of a successful stream gives back the
  source; on a read error the iterator reports it and what it yielded is a prefix of the source.\<close>

theorem stream_reconstructs:
  assumes "chunker_ok c" "source_regular src"
  shows "(case stream_run c (stream_new src) of
            (chs, None) \<Rightarrow> concat (map chunk_data chs) = source_bytes src
          | (chs, Some e) \<Rightarrow> e = Chunking \<and> source_fails src \<and> (\<exists>rest. concat (map chunk_data chs) @ rest = source_bytes src))"
  using stream_run_spec [OF assms(1), of "stream_new src"] assms(2) ref_chunks_concat [OF assms(1)]
  by (cases "source_fails src") (auto simp: stream_new_def split: prod.splits option.splits)

theorem stream_reconstructs_witness:
  "(case stream_run small_chunker (stream_new [RData [5, 6], RError]) of
      (chs, None) \<Rightarrow> concat (map chunk_data chs) = [5, 6]
    | (chs, Some e) \<Rightarrow> e = Chunking \<and> (\<exists>rest. concat (map chunk_data chs) @ rest = [5, 6]))"
  using stream_reconstructs [OF small_chunker_ok, of "[RData [5, 6], RError]"]
  by (auto simp: source_regular_def split: prod.splits option.splits)

text \<open>Offsets are the running total, and every chunk but the last respects the size limits.\<close>

fun chunks_wf :: "Chunker \<Rightarrow> nat \<Rightarrow> Chunk list \<Rightarrow> bool" where
  "chunks_wf c off [] = True"
| "chunks_wf c off (ch # chs) \<longleftrightarrow> chunk_offset ch = off \<and> chunk_length ch = length (chunk_data ch) \<and>
     0 < chunk_length ch \<and> chunk_length ch \<le> ck_max_size c \<and>
     (chs \<noteq> [] \<longrightarrow> ck_min_size c \<le> chunk_length ch) \<and> chunks_wf c (off + chunk_length ch) chs"

lemma ref_chunks_wf: "chunker_ok c \<Longrightarrow> chunks_wf c off (ref_chunks c off bs)"
proof (induction c off bs rule: ref_chunks.induct)
  case (1 c off bs)
  show ?case
  proof (cases "bs = []")
    case False
    note bd = cut_bounds [OF "1.prems" False]
    have mx: "ck_min_size c \<le> ck_max_size c" using "1.prems" by (auto simp: chunker_ok_def)
    have "ref_chunks c (off + chunker_cut c bs) (drop (chunker_cut c bs) bs) \<noteq> [] \<Longrightarrow> ck_min_size c \<le> chunker_cut c bs"
    proof (cases "length bs \<le> ck_min_size c")
      case True
      then have "chunker_cut c bs = length bs" by (simp add: chunker_cut_def)
      moreover assume "ref_chunks c (off + chunker_cut c bs) (drop (chunker_cut c bs) bs) \<noteq> []"
      ultimately show ?thesis by simp
    qed (use bd in simp)
    with 1 False bd mx show ?thesis by (simp add: ref_chunks_unfold)
  qed (simp add: ref_chunks.simps)
qed

text \<open>C14: The chunks of a stream carry consecutive offsets, are never empty, never exceed the maximum
  size, and only the last one may be shorter than the minimum size.\<close>

theorem stream_chunks_wf:
  assumes "chunker_ok c" "source_regular src" "\<not> source_fails src"
  shows "chunks_wf c 0 (fst (stream_run c (stream_new src)))"
  using stream_run_spec [OF assms(1), of "stream_new src"] assms(2,3) ref_chunks_wf [OF assms(1)]
  by (simp add: stream_new_def)

theorem stream_chunks_wf_witness: "chunks_wf small_chunker 0 (fst (stream_run small_chunker (stream_new [RData [1, 2, 3]])))"
  by (rule stream_chunks_wf [OF small_chunker_ok]) (simp_all add: source_regular_def)

end
