(* ===== verification/Storage.thy ===== *)
theory Storage
  imports Prelude Bytes
begin

text \<open>
  \<open>SecureStorage\<close> (\<open>repository/storage.rs\<close>): compression followed by authenticated encryption, and the
  two decoding paths (copying and in place). The compressor and the cipher are third-party crates; they
  are the fields of \<open>crypto\<close>, and \<open>crypto_ok\<close> states what their documentation promises: decompression
  undoes compression, and opening a sealed message with the same key and nonce gives the message back.
  The pool of reusable compressor contexts only saves allocations and is not modelled.
\<close>

record crypto =
  cr_hash :: "bytes \<Rightarrow> ID"
  cr_compress :: "int \<Rightarrow> bytes \<Rightarrow> bytes option"
  cr_decompress :: "bytes \<Rightarrow> bytes option"
  cr_seal :: "bytes \<Rightarrow> bytes \<Rightarrow> bytes \<Rightarrow> (bytes \<times> bytes) option"
  cr_open :: "bytes \<Rightarrow> bytes \<Rightarrow> bytes \<Rightarrow> bytes \<Rightarrow> bytes option"

text \<open>\<open>cr_seal key nonce plain\<close> is \<open>encrypt_in_place_detached\<close> (ciphertext and tag),
  \<open>cr_open key nonce cipher tag\<close> is \<open>decrypt_in_place_detached\<close>.\<close>

definition crypto_ok :: "crypto \<Rightarrow> bool" where
  "crypto_ok cr \<longleftrightarrow>
     (\<forall>d. length (id_bytes (cr_hash cr d)) = 32) \<and>
     (\<forall>lvl d e. cr_compress cr lvl d = Some e \<longrightarrow> cr_decompress cr e = Some d) \<and>
     (\<forall>k n p c t. cr_seal cr k n p = Some (c, t) \<longrightarrow>
        length c = length p \<and> length t = 16 \<and> cr_open cr k n c t = Some p)"

definition AES_GCM_NONCE_LEN :: nat where "AES_GCM_NONCE_LEN = 12"
definition AES_GCM_TAG_LEN :: nat where "AES_GCM_TAG_LEN = 16"

record SecureStorage =
  ss_level :: int
  ss_key :: "bytes option"

definition ss_new :: "int \<Rightarrow> SecureStorage" where
  "ss_new default_level = \<lparr>ss_level = default_level, ss_key = None\<rparr>"

definition with_compression :: "SecureStorage \<Rightarrow> int \<Rightarrow> SecureStorage" where
  "with_compression ss level = ss\<lparr>ss_level := level\<rparr>"

definition with_key :: "SecureStorage \<Rightarrow> bytes \<Rightarrow> SecureStorage result" where
  "with_key ss key = (if length key \<noteq> 32 then Err Internal else Ok (ss\<lparr>ss_key := Some key\<rparr>))"

text \<open>\<open>compress_managed\<close> and \<open>decompress\<close>.\<close>

definition ss_compress :: "crypto \<Rightarrow> SecureStorage \<Rightarrow> bytes \<Rightarrow> bytes result" where
  "ss_compress cr ss data = ok_or (cr_compress cr (ss_level ss) data) Compression"

definition ss_decompress :: "crypto \<Rightarrow> bytes \<Rightarrow> bytes result" where
  "ss_decompress cr data = ok_or (cr_decompress cr data) Compression"

text \<open>\<open>transform_into\<close>: with a context the data is compressed; with a cipher the random nonce (an argument
  here) goes in front and the tag behind.\<close>

definition transform_into :: "crypto \<Rightarrow> SecureStorage \<Rightarrow> bool \<Rightarrow> bytes \<Rightarrow> bytes \<Rightarrow> bytes result" where
  "transform_into cr ss has_ctx nonce data =
     bind_result (if has_ctx then ss_compress cr ss data else Ok data) (\<lambda>payload.
       case ss_key ss of
         None \<Rightarrow> Ok payload
       | Some key \<Rightarrow>
           (case cr_seal cr key nonce payload of
              None \<Rightarrow> Err Crypto
            | Some (ciphertext, tag) \<Rightarrow> Ok (nonce @ ciphertext @ tag)))"

text \<open>\<open>encrypt_into\<close>, the path without compression of \<open>encrypt_managed\<close>.\<close>

definition encrypt_into :: "crypto \<Rightarrow> SecureStorage \<Rightarrow> bytes \<Rightarrow> bytes \<Rightarrow> bytes result" where
  "encrypt_into cr ss nonce data =
     (case ss_key ss of
        None \<Rightarrow> Ok data
      | Some key \<Rightarrow>
          (case cr_seal cr key nonce data of
             None \<Rightarrow> Err Crypto
           | Some (ciphertext, tag) \<Rightarrow> Ok (nonce @ ciphertext @ tag)))"

definition ss_encrypt :: "crypto \<Rightarrow> SecureStorage \<Rightarrow> bytes \<Rightarrow> bytes \<Rightarrow> bytes result" where
  "ss_encrypt cr ss nonce data = transform_into cr ss False nonce data"

definition ss_encode :: "crypto \<Rightarrow> SecureStorage \<Rightarrow> bytes \<Rightarrow> bytes \<Rightarrow> bytes result" where
  "ss_encode cr ss nonce data = transform_into cr ss True nonce data"

text \<open>\<open>decrypt\<close>: the AEAD trait's \<open>decrypt\<close> takes ciphertext and tag in one slice and splits the tag off
  its end.\<close>

definition open_combined :: "crypto \<Rightarrow> bytes \<Rightarrow> bytes \<Rightarrow> bytes \<Rightarrow> bytes option" where
  "open_combined cr key nonce x =
     (if length x < AES_GCM_TAG_LEN then None
      else cr_open cr key nonce (take (length x - AES_GCM_TAG_LEN) x) (drop (length x - AES_GCM_TAG_LEN) x))"

definition ss_decrypt :: "crypto \<Rightarrow> SecureStorage \<Rightarrow> bytes \<Rightarrow> bytes result" where
  "ss_decrypt cr ss data =
     (case ss_key ss of
        None \<Rightarrow> Ok data
      | Some key \<Rightarrow>
          if length data < AES_GCM_NONCE_LEN + AES_GCM_TAG_LEN then Err Integrity
          else ok_or (open_combined cr key (take AES_GCM_NONCE_LEN data) (drop AES_GCM_NONCE_LEN data)) Crypto)"

text \<open>\<open>decrypt_in_place\<close>: the payload is moved to the front of the buffer, the tag copied before the
  buffer is truncated.\<close>

definition decrypt_in_place :: "crypto \<Rightarrow> SecureStorage \<Rightarrow> bytes \<Rightarrow> bytes result" where
  "decrypt_in_place cr ss data =
     (case ss_key ss of
        None \<Rightarrow> Ok data
      | Some key \<Rightarrow>
          if length data < AES_GCM_NONCE_LEN + AES_GCM_TAG_LEN then Err Integrity
          else
            let nonce = take AES_GCM_NONCE_LEN data;
                payload_len = length data - AES_GCM_NONCE_LEN - AES_GCM_TAG_LEN;
                moved = slice AES_GCM_NONCE_LEN (AES_GCM_NONCE_LEN + payload_len) data @ drop payload_len data;
                tag_offset = AES_GCM_NONCE_LEN + payload_len;
                tag = drop tag_offset moved
            in ok_or (cr_open cr key nonce (take payload_len moved) tag) Crypto)"

definition ss_decode :: "crypto \<Rightarrow> SecureStorage \<Rightarrow> bytes \<Rightarrow> bytes result" where
  "ss_decode cr ss data = bind_result (ss_decrypt cr ss data) (ss_decompress cr)"

definition decode_owned :: "crypto \<Rightarrow> SecureStorage \<Rightarrow> bytes \<Rightarrow> bytes result" where
  "decode_owned cr ss data = bind_result (decrypt_in_place cr ss data) (ss_decompress cr)"

lemma decrypt_in_place_eq: "decrypt_in_place cr ss data = ss_decrypt cr ss data"
proof (cases "ss_key ss")
  case (Some key)
  show ?thesis
  proof (cases "length data < 28")
    case False
    define n where "n = length data - 12 - 16"
    have len: "length data = n + 28" using False by (simp add: n_def)
    have "take n (slice 12 (12 + n) data @ drop n data) = take n (drop 12 data)"
      using len by (simp add: slice_def)
    moreover have "drop (12 + n) (slice 12 (12 + n) data @ drop n data) = drop (12 + n) data"
      using len by (simp add: slice_def add.commute)
    ultimately show ?thesis
      using Some False
      by (simp add: decrypt_in_place_def ss_decrypt_def open_combined_def AES_GCM_NONCE_LEN_def
          AES_GCM_TAG_LEN_def Let_def len add.commute)
  qed (simp add: Some decrypt_in_place_def ss_decrypt_def AES_GCM_NONCE_LEN_def AES_GCM_TAG_LEN_def)
qed (simp add: decrypt_in_place_def ss_decrypt_def)

text \<open>Decoding in place and decoding into a new buffer give the same result, errors included, on
  every input.\<close>

theorem decode_owned_eq_decode: "decode_owned cr ss data = ss_decode cr ss data"
  by (simp add: decode_owned_def ss_decode_def decrypt_in_place_eq)

lemma seal_open:
  assumes "crypto_ok cr" "length nonce = 12" "cr_seal cr key nonce p = Some (c, t)" "ss_key ss = Some key"
  shows "ss_decrypt cr ss (nonce @ c @ t) = Ok p"
  using assms
  by (simp add: ss_decrypt_def open_combined_def AES_GCM_NONCE_LEN_def AES_GCM_TAG_LEN_def crypto_ok_def)

lemma encode_decode_ok:
  assumes "crypto_ok cr" "length nonce = 12" "ss_encode cr ss nonce d = Ok e"
  shows "ss_decode cr ss e = Ok d \<and> decode_owned cr ss e = Ok d"
proof -
  obtain p where p: "cr_compress cr (ss_level ss) d = Some p"
    using assms(3) by (auto simp: ss_encode_def transform_into_def ss_compress_def bind_result_Inr)
  then have z: "cr_decompress cr p = Some d" using assms(1) by (auto simp: crypto_ok_def)
  have "ss_decrypt cr ss e = Ok p"
  proof (cases "ss_key ss")
    case None
    with assms(3) p show ?thesis
      by (simp add: ss_encode_def transform_into_def ss_compress_def ss_decrypt_def)
  next
    case (Some key)
    with assms(3) p obtain c t where "cr_seal cr key nonce p = Some (c, t)" "e = nonce @ c @ t"
      by (auto simp: ss_encode_def transform_into_def ss_compress_def split: option.splits)
    with seal_open [OF assms(1,2) _ Some] show ?thesis by simp
  qed
  with z show ?thesis
    by (simp add: ss_decode_def decode_owned_def decrypt_in_place_eq ss_decompress_def)
qed

text \<open>C15: Whatever \<open>encode\<close> produced, \<open>decode\<close> and \<open>decode_owned\<close> turn back into the original data, with
  or without a key.\<close>

theorem encode_decode:
  assumes "crypto_ok cr" "length nonce = 12" "ss_encode cr ss nonce d = Ok e"
  shows "ss_decode cr ss e = Ok d \<and> decode_owned cr ss e = Ok d"
  using assms by (rule encode_decode_ok)

text \<open>A concrete instance of the parameters: identity compression, a cipher that adds the key's first
  byte to every byte and appends a constant tag, and a hash that keeps the first 32 bytes.\<close>

definition demo_crypto :: crypto where
  "demo_crypto =
     \<lparr>cr_hash = (\<lambda>d. ID (take 32 (d @ replicate 32 0))),
      cr_compress = (\<lambda>lvl d. Some d), cr_decompress = Some,
      cr_seal = (\<lambda>k n p. Some (map (\<lambda>b. b + hd (k @ [0])) p, replicate 16 9)),
      cr_open = (\<lambda>k n c t. if t = replicate 16 9 then Some (map (\<lambda>b. b - hd (k @ [0])) c) else None)\<rparr>"

lemma demo_crypto_ok: "crypto_ok demo_crypto"
  by (auto simp: crypto_ok_def demo_crypto_def comp_def)

abbreviation demo_ss :: SecureStorage where
  "demo_ss \<equiv> \<lparr>ss_level = 3, ss_key = Some (replicate 32 5)\<rparr>"

theorem encode_decode_witness:
  "\<exists>e. ss_encode demo_crypto demo_ss (replicate 12 1) [10, 20, 30] = Ok e \<and>
       ss_decode demo_crypto demo_ss e = Ok [10, 20, 30]"
proof -
  obtain e where e: "ss_encode demo_crypto demo_ss (replicate 12 1) [10, 20, 30] = Ok e"
    by (simp add: ss_encode_def transform_into_def ss_compress_def demo_crypto_def)
  from encode_decode [OF demo_crypto_ok _ this] e show ?thesis by simp
qed

text \<open>With a key set, data shorter than nonce and tag is rejected as corrupt before the cipher is
  called, and an encoded message is exactly 28 bytes longer than its compressed payload.\<close>

theorem ciphertext_frame:
  assumes "crypto_ok cr" "ss_key ss = Some key" "length nonce = 12"
  shows "(length data < 28 \<longrightarrow> ss_decode cr ss data = Err Integrity) \<and>
         (\<forall>p e. ss_encrypt cr ss nonce p = Ok e \<longrightarrow> length e = length p + 28)"
  using assms
  by (auto simp: ss_decode_def ss_decrypt_def AES_GCM_NONCE_LEN_def AES_GCM_TAG_LEN_def ss_encrypt_def
      transform_into_def crypto_ok_def split: option.splits)

theorem ciphertext_frame_witness:
  "ss_decode demo_crypto demo_ss (replicate 27 0) = Err Integrity"
  using ciphertext_frame [OF demo_crypto_ok, of demo_ss "replicate 32 5" "replicate 12 0" "replicate 27 0"] by simp

end
