(* ===== verification/Backend.thy ===== *)
theory Backend
  imports Prelude "HOL-Library.Char_ord" "HOL-Library.Sublist"
begin

text \<open>
  The storage backends of \<open>backend/mod.rs\<close>, \<open>backend/mock.rs\<close> and \<open>backend/dry.rs\<close>.

  The trait \<open>StorageBackend\<close> is a record of operations over a backend state \<open>'b\<close>; each operation
  returns its result and the next state. \<open>storage_backend\<close> is the contract the repository relies on,
  stated over the files a state holds. The in-memory \<open>MockBackend\<close> is modelled completely (nodes,
  hooks, history) and shown to satisfy the contract; \<open>DryBackend\<close> wraps any backend and is shown never
  to change it.

  A path is the list of its components; the empty list is the empty relative path. \<open>isize\<close> offsets are
  \<open>int\<close>, \<open>usize\<close> lengths are \<open>nat\<close>, times are counted from the epoch. A hook's delay has no effect on
  any result and is left out.
\<close>

type_synonym path = "string list"

section \<open>The interface\<close>

datatype ContentIdType = PackFile | SnapshotFile | IndexFileType | KeyFileType | LockFileType

record StorageHint =
  hint_file_type :: ContentIdType
  hint_is_metadata :: bool

record Handle =
  h_path :: path
  h_hint :: "StorageHint option"

definition handle_new :: "path \<Rightarrow> Handle" where
  "handle_new p = \<lparr>h_path = p, h_hint = None\<rparr>"

definition handle_new_with_hint :: "path \<Rightarrow> ContentIdType \<Rightarrow> bool \<Rightarrow> Handle" where
  "handle_new_with_hint p file_type is_metadata =
     \<lparr>h_path = p, h_hint = Some \<lparr>hint_file_type = file_type, hint_is_metadata = is_metadata\<rparr>\<rparr>"

record NodeAttr =
  na_size :: "nat option"
  na_uid :: "u32 option"
  na_gid :: "u32 option"
  na_perm :: "u32 option"
  na_atime :: "nat option"
  na_mtime :: "nat option"

datatype BackendNode = NodeFile path nat | NodeDir path

fun node_path :: "BackendNode \<Rightarrow> path" where
  "node_path (NodeFile p _) = p"
| "node_path (NodeDir p) = p"

text \<open>\<open>Path::file_name\<close>: the last component, if there is one.\<close>

definition file_name :: "path \<Rightarrow> string option" where
  "file_name p = (if p = [] then None else Some (last p))"

definition node_file_name :: "BackendNode \<Rightarrow> string option" where
  "node_file_name n = file_name (node_path n)"

definition classify_backend_node :: "path \<Rightarrow> bool \<Rightarrow> nat \<Rightarrow> BackendNode" where
  "classify_backend_node p is_file sz = (if is_file then NodeFile p sz else NodeDir p)"

record 'b StorageBackend =
  be_create :: "'b \<Rightarrow> unit result \<times> 'b"
  be_path_exists :: "'b \<Rightarrow> path \<Rightarrow> bool \<times> 'b"
  be_read :: "'b \<Rightarrow> Handle \<Rightarrow> int \<Rightarrow> nat \<Rightarrow> bytes result \<times> 'b"
  be_write :: "'b \<Rightarrow> Handle \<Rightarrow> bytes \<Rightarrow> unit result \<times> 'b"
  be_rename :: "'b \<Rightarrow> path \<Rightarrow> path \<Rightarrow> unit result \<times> 'b"
  be_list_dir :: "'b \<Rightarrow> path \<Rightarrow> BackendNode list result \<times> 'b"
  be_create_dir :: "'b \<Rightarrow> path \<Rightarrow> unit result \<times> 'b"
  be_remove :: "'b \<Rightarrow> path \<Rightarrow> unit result \<times> 'b"
  be_is_file :: "'b \<Rightarrow> path \<Rightarrow> bool \<times> 'b"
  be_is_dir :: "'b \<Rightarrow> path \<Rightarrow> bool \<times> 'b"
  be_lstat :: "'b \<Rightarrow> path \<Rightarrow> NodeAttr result \<times> 'b"
  be_is_dry_run :: "'b \<Rightarrow> bool"

definition resolve_read_offset :: "nat \<Rightarrow> int \<Rightarrow> nat" where
  "resolve_read_offset file_size offset =
     (if offset \<ge> 0 then nat offset else file_size - nat (- offset))"

definition set_readonly_mode :: "u32 \<Rightarrow> bool \<Rightarrow> bool \<Rightarrow> u32" where
  "set_readonly_mode mode readonly is_dir =
     (let base = mode AND NOT 0x1ff
      in if is_dir then (if readonly then base OR 0x140 else base OR 0x1c0)
         else (if readonly then base OR 0x100 else base OR 0x180))"

text \<open>What a read returns of a file's contents, as the trait documents it: length 0 reads to the end, a
  negative offset counts from the end.\<close>

definition read_window :: "bytes \<Rightarrow> int \<Rightarrow> nat \<Rightarrow> bytes" where
  "read_window d offset len =
     (let tl = drop (resolve_read_offset (length d) offset) d in if len = 0 then tl else take len tl)"

text \<open>The contract of a backend. \<open>inv\<close> is the backend's own invariant, \<open>files\<close> the regular files of a
  state. A failed operation leaves the files as they were.\<close>

locale storage_backend =
  fixes B :: "'b StorageBackend"
    and inv :: "'b \<Rightarrow> bool"
    and files :: "'b \<Rightarrow> path \<Rightarrow> bytes option"
  assumes read_file:
      "inv st \<Longrightarrow> be_read B st h off len = (rb, st') \<Longrightarrow>
       inv st' \<and> files st' = files st \<and>
       (case files st (h_path h) of Some d \<Rightarrow> rb = Ok (read_window d off len) | None \<Rightarrow> \<exists>e. rb = Err e)"
    and write_file:
      "inv st \<Longrightarrow> be_write B st h d = (r, st') \<Longrightarrow>
       inv st' \<and> (case r of Inr _ \<Rightarrow> files st' = (files st)(h_path h \<mapsto> d) | Inl e \<Rightarrow> files st' = files st)"
    and remove_file:
      "inv st \<Longrightarrow> be_remove B st p = (r, st') \<Longrightarrow>
       inv st' \<and> (case r of Inr _ \<Rightarrow> files st' = (\<lambda>q. if prefix p q then None else files st q)
                   | Inl e \<Rightarrow> files st' = files st \<and> files st p = None)"
    and rename_file:
      "inv st \<Longrightarrow> be_rename B st from to = (r, st') \<Longrightarrow>
       inv st' \<and>
       (case r of
          Inr _ \<Rightarrow> (\<forall>d. files st from = Some d \<and> \<not> prefix from to \<and> \<not> prefix to from \<longrightarrow>
                       files st' to = Some d \<and> files st' from = None \<and>
                       (\<forall>q. \<not> prefix from q \<and> \<not> prefix to q \<longrightarrow> files st' q = files st q))
        | Inl e \<Rightarrow> files st' = files st \<and> files st from = None)"
    and exists_file:
      "inv st \<Longrightarrow> be_path_exists B st p = (b, st') \<Longrightarrow>
       inv st' \<and> files st' = files st \<and> (files st p \<noteq> None \<longrightarrow> b)"
    and is_file_file:
      "inv st \<Longrightarrow> be_is_file B st p = (b, st') \<Longrightarrow>
       inv st' \<and> files st' = files st \<and> b = (files st p \<noteq> None)"
    and list_file: "inv st \<Longrightarrow> be_list_dir B st p = (rn, st') \<Longrightarrow> inv st' \<and> files st' = files st"
    and create_dir_file: "inv st \<Longrightarrow> be_create_dir B st p = (r, st') \<Longrightarrow> inv st' \<and> files st' = files st"
begin

lemma read_Ok: "inv st \<Longrightarrow> be_read B st h off len = (Ok d, st') \<Longrightarrow>
  \<exists>c. files st (h_path h) = Some c \<and> d = read_window c off len"
  by (drule (1) read_file) (auto split: option.splits)

lemma read_after_write:
  assumes "inv st" "be_write B st h d = (Ok u, st')" "h_path h' = h_path h"
  shows "\<exists>st''. be_read B st' h' off len = (Ok (read_window d off len), st'')"
proof -
  have "inv st'" "files st' (h_path h') = Some d"
    using write_file [OF assms(1,2)] assms(3) by auto
  moreover obtain r st'' where "be_read B st' h' off len = (r, st'')" by fastforce
  ultimately show ?thesis using read_file [of st' h' off len r st''] by auto
qed

lemma read_unaffected_by_write:
  assumes "inv st" "be_write B st h d = (r, st')" "h_path h' \<noteq> h_path h" "files st (h_path h') = Some c"
  shows "\<exists>st''. be_read B st' h' off len = (Ok (read_window c off len), st'')"
proof -
  have "inv st'" "files st' (h_path h') = Some c"
    using write_file [OF assms(1,2)] assms(3,4) by (auto split: sum.splits)
  moreover obtain r' st'' where "be_read B st' h' off len = (r', st'')" by fastforce
  ultimately show ?thesis using read_file [of st' h' off len r' st''] by auto
qed

end

lemma read_window_all [simp]: "read_window d 0 0 = d"
  by (simp add: read_window_def resolve_read_offset_def)

lemma read_window_suffix:
  "0 < n \<Longrightarrow> n \<le> length d \<Longrightarrow> read_window d (- int n) n = drop (length d - n) d"
  by (simp add: read_window_def resolve_read_offset_def Let_def)

lemma read_window_range:
  "0 < n \<Longrightarrow> read_window d (int i) n = slice i (i + n) d"
  by (simp add: read_window_def resolve_read_offset_def Let_def slice_def)

section \<open>The mock backend: nodes, hooks and history\<close>

record NodeMeta =
  nm_perm :: u32
  nm_uid :: u32
  nm_gid :: u32
  nm_mtime :: nat
  nm_atime :: nat

definition node_meta_new :: "nat \<Rightarrow> u32 \<Rightarrow> NodeMeta" where
  "node_meta_new now perm = \<lparr>nm_perm = perm, nm_uid = 0, nm_gid = 0, nm_mtime = now, nm_atime = now\<rparr>"

datatype MockNode = MFile bytes NodeMeta | MDir NodeMeta | MSymlink bytes NodeMeta

definition mock_file :: "nat \<Rightarrow> bytes \<Rightarrow> MockNode" where
  "mock_file now data = MFile data (node_meta_new now 0x8180)"

definition mock_dir :: "nat \<Rightarrow> MockNode" where
  "mock_dir now = MDir (node_meta_new now 0x41ed)"

definition mock_symlink :: "nat \<Rightarrow> bytes \<Rightarrow> MockNode" where
  "mock_symlink now target = MSymlink target (node_meta_new now 0xa1ff)"

datatype BackendOp =
    OpCreate | OpPathExists path | OpIsFile path | OpIsDir path
  | OpRead path int nat | OpWrite path nat | OpRename path path
  | OpListDir path | OpCreateDir path | OpRemove path | OpLstat path

datatype OpResult = RUnit | RBool bool | RBytes bytes | RNodes "BackendNode list" | RAttr NodeAttr

text \<open>\<open>mb_now\<close> is the system clock an operation reads.\<close>

record MockBackend =
  mb_nodes :: "(path \<times> MockNode) list"
  mb_history :: "(BackendOp \<times> OpResult result) list"
  mb_hooks :: "(BackendOp \<Rightarrow> OpResult result option) list"
  mb_now :: nat

definition mock_new :: "nat \<Rightarrow> MockBackend" where
  "mock_new now = \<lparr>mb_nodes = [], mb_history = [], mb_hooks = [], mb_now = now\<rparr>"

definition add_hook :: "MockBackend \<Rightarrow> (BackendOp \<Rightarrow> OpResult result option) \<Rightarrow> MockBackend" where
  "add_hook st hook = st\<lparr>mb_hooks := mb_hooks st @ [hook]\<rparr>"

definition clear_hooks :: "MockBackend \<Rightarrow> MockBackend" where
  "clear_hooks st = st\<lparr>mb_hooks := []\<rparr>"

definition clear_history :: "MockBackend \<Rightarrow> MockBackend" where
  "clear_history st = st\<lparr>mb_history := []\<rparr>"

text \<open>\<open>exec\<close>: the last hook with an override wins, otherwise the operation runs; either way the outcome
  is recorded.\<close>

definition mb_exec :: "BackendOp \<Rightarrow> (MockBackend \<Rightarrow> OpResult result \<times> MockBackend) \<Rightarrow> MockBackend \<Rightarrow>
    OpResult result \<times> MockBackend" where
  "mb_exec op f st =
     (let override = fold (\<lambda>hook acc. case hook op of Some res \<Rightarrow> Some res | None \<Rightarrow> acc) (mb_hooks st) None;
          (res, st') = (case override of Some res \<Rightarrow> (res, st) | None \<Rightarrow> f st)
      in (res, st'\<lparr>mb_history := mb_history st' @ [(op, res)]\<rparr>))"

definition entry_or_insert :: "path \<Rightarrow> MockNode \<Rightarrow> (path \<times> MockNode) list \<Rightarrow> (path \<times> MockNode) list" where
  "entry_or_insert p n nodes = (case map_of nodes p of Some _ \<Rightarrow> nodes | None \<Rightarrow> bt_insert p n nodes)"

function ensure_parent_dirs :: "nat \<Rightarrow> (path \<times> MockNode) list \<Rightarrow> path \<Rightarrow> (path \<times> MockNode) list" where
  "ensure_parent_dirs now nodes p =
     (if p = [] \<or> butlast p = [] then nodes
      else ensure_parent_dirs now (entry_or_insert (butlast p) (mock_dir now) nodes) (butlast p))"
  by pat_completeness auto
termination
  by (relation "measure (\<lambda>(now, nodes, p). length p)") auto

declare ensure_parent_dirs.simps [simp del]

definition put_file :: "MockBackend \<Rightarrow> path \<Rightarrow> bytes \<Rightarrow> MockBackend" where
  "put_file st p data = st\<lparr>mb_nodes := bt_insert p (mock_file (mb_now st) data) (mb_nodes st)\<rparr>"

definition put_dir :: "MockBackend \<Rightarrow> path \<Rightarrow> MockBackend" where
  "put_dir st p = st\<lparr>mb_nodes := bt_insert p (mock_dir (mb_now st)) (mb_nodes st)\<rparr>"

definition put_symlink :: "MockBackend \<Rightarrow> path \<Rightarrow> bytes \<Rightarrow> MockBackend" where
  "put_symlink st p target = st\<lparr>mb_nodes := bt_insert p (mock_symlink (mb_now st) target) (mb_nodes st)\<rparr>"

definition get_file :: "MockBackend \<Rightarrow> path \<Rightarrow> bytes option" where
  "get_file st p =
     (case map_of (mb_nodes st) p of
        Some (MFile data _) \<Rightarrow> Some data | Some (MSymlink target _) \<Rightarrow> Some target | _ \<Rightarrow> None)"

definition mb_clear :: "MockBackend \<Rightarrow> MockBackend" where
  "mb_clear st = st\<lparr>mb_nodes := []\<rparr>"

section \<open>The mock backend: trait operations\<close>

text \<open>The adapters at the end of every method: a result of the wrong shape is an error (or \<open>false\<close>).\<close>

definition as_unit :: "OpResult result \<Rightarrow> unit result" where
  "as_unit r = bind_result r (\<lambda>_. Ok ())"

definition as_bool :: "OpResult result \<Rightarrow> bool" where
  "as_bool r = (case r of Inr (RBool b) \<Rightarrow> b | _ \<Rightarrow> False)"

definition as_bytes :: "OpResult result \<Rightarrow> bytes result" where
  "as_bytes r = bind_result r (\<lambda>x. case x of RBytes b \<Rightarrow> Ok b | _ \<Rightarrow> Err Backend)"

definition as_nodes :: "OpResult result \<Rightarrow> BackendNode list result" where
  "as_nodes r = bind_result r (\<lambda>x. case x of RNodes n \<Rightarrow> Ok n | _ \<Rightarrow> Err Backend)"

definition as_attr :: "OpResult result \<Rightarrow> NodeAttr result" where
  "as_attr r = bind_result r (\<lambda>x. case x of RAttr a \<Rightarrow> Ok a | _ \<Rightarrow> Err Backend)"

definition mb_create :: "MockBackend \<Rightarrow> unit result \<times> MockBackend" where
  "mb_create st = apfst as_unit (mb_exec OpCreate (\<lambda>st. (Ok RUnit, st)) st)"

definition mb_path_exists :: "MockBackend \<Rightarrow> path \<Rightarrow> bool \<times> MockBackend" where
  "mb_path_exists st p =
     apfst as_bool (mb_exec (OpPathExists p)
       (\<lambda>st. (Ok (RBool (map_of (mb_nodes st) p \<noteq> None)), st)) st)"

definition mb_is_file :: "MockBackend \<Rightarrow> path \<Rightarrow> bool \<times> MockBackend" where
  "mb_is_file st p =
     apfst as_bool (mb_exec (OpIsFile p)
       (\<lambda>st. (Ok (RBool (case map_of (mb_nodes st) p of Some (MFile _ _) \<Rightarrow> True | _ \<Rightarrow> False)), st)) st)"

definition mb_is_dir :: "MockBackend \<Rightarrow> path \<Rightarrow> bool \<times> MockBackend" where
  "mb_is_dir st p =
     apfst as_bool (mb_exec (OpIsDir p)
       (\<lambda>st. (Ok (RBool (case map_of (mb_nodes st) p of Some (MDir _) \<Rightarrow> True | _ \<Rightarrow> False)), st)) st)"

definition mb_read :: "MockBackend \<Rightarrow> Handle \<Rightarrow> int \<Rightarrow> nat \<Rightarrow> bytes result \<times> MockBackend" where
  "mb_read st h offset len =
     apfst as_bytes (mb_exec (OpRead (h_path h) offset len)
       (\<lambda>st. case map_of (mb_nodes st) (h_path h) of
           None \<Rightarrow> (Err Backend, st)
         | Some (MFile data _) \<Rightarrow>
             let file_size = length data;
                 start = resolve_read_offset file_size offset
             in if start \<ge> file_size then (Ok (RBytes []), st)
                else let end = (if len = 0 then file_size else min (start + len) file_size)
                     in (Ok (RBytes (slice start end data)), st)
         | Some _ \<Rightarrow> (Err Backend, st)) st)"

definition mb_write :: "MockBackend \<Rightarrow> Handle \<Rightarrow> bytes \<Rightarrow> unit result \<times> MockBackend" where
  "mb_write st h contents =
     apfst as_unit (mb_exec (OpWrite (h_path h) (length contents))
       (\<lambda>st. case map_of (mb_nodes st) (h_path h) of
           Some (MDir _) \<Rightarrow> (Err Backend, st)
         | _ \<Rightarrow>
             let nodes = ensure_parent_dirs (mb_now st) (mb_nodes st) (h_path h);
                 nodes' = bt_insert (h_path h) (mock_file (mb_now st) contents) nodes
             in (Ok RUnit, st\<lparr>mb_nodes := nodes'\<rparr>)) st)"

text \<open>\<open>rename\<close> moves every key at or below \<open>from\<close>, in key order. The error branch of a key that
  disappeared is kept; \<open>mb_move_ok\<close> shows it is never taken.\<close>

fun mb_move :: "path \<Rightarrow> path \<Rightarrow> path list \<Rightarrow> (path \<times> MockNode) list \<Rightarrow>
    MapacheError option \<times> (path \<times> MockNode) list" where
  "mb_move from to [] nodes = (None, nodes)"
| "mb_move from to (k # ks) nodes =
     (case map_of nodes k of
        None \<Rightarrow> (Some Backend, nodes)
      | Some node \<Rightarrow>
          let new_key = (if k = from then to else to @ drop (length from) k)
          in mb_move from to ks (bt_insert new_key node (bt_remove k nodes)))"

definition mb_rename :: "MockBackend \<Rightarrow> path \<Rightarrow> path \<Rightarrow> unit result \<times> MockBackend" where
  "mb_rename st from to =
     apfst as_unit (mb_exec (OpRename from to)
       (\<lambda>st.
          let nodes = ensure_parent_dirs (mb_now st) (mb_nodes st) to;
              keys = filter (\<lambda>k. k = from \<or> prefix from k) (map fst nodes)
          in if keys = [] then (Err Backend, st\<lparr>mb_nodes := nodes\<rparr>)
             else case mb_move from to keys nodes of
                 (None, nodes') \<Rightarrow> (Ok RUnit, st\<lparr>mb_nodes := nodes'\<rparr>)
               | (Some e, nodes') \<Rightarrow> (Err e, st\<lparr>mb_nodes := nodes'\<rparr>)) st)"

definition mb_create_dir :: "MockBackend \<Rightarrow> path \<Rightarrow> unit result \<times> MockBackend" where
  "mb_create_dir st p =
     apfst as_unit (mb_exec (OpCreateDir p)
       (\<lambda>st.
          let nodes = ensure_parent_dirs (mb_now st) (mb_nodes st) p
          in (Ok RUnit, st\<lparr>mb_nodes := entry_or_insert p (mock_dir (mb_now st)) nodes\<rparr>)) st)"

definition mb_remove :: "MockBackend \<Rightarrow> path \<Rightarrow> unit result \<times> MockBackend" where
  "mb_remove st p =
     apfst as_unit (mb_exec (OpRemove p)
       (\<lambda>st.
          let to_remove = filter (\<lambda>q. q = p \<or> prefix p q) (map fst (mb_nodes st))
          in if to_remove = [] then (Err Backend, st)
             else (Ok RUnit, st\<lparr>mb_nodes := fold bt_remove to_remove (mb_nodes st)\<rparr>)) st)"

text \<open>\<open>list_dir\<close>: one pass over the map in key order; the first key of a child decides its kind.\<close>

fun mb_list_loop :: "path \<Rightarrow> (path \<times> MockNode) list \<Rightarrow> BackendNode list \<Rightarrow> BackendNode list" where
  "mb_list_loop pre [] result = result"
| "mb_list_loop pre ((key, node) # rest) result =
     (if \<not> prefix pre key \<or> key = pre then mb_list_loop pre rest result
      else
        let rel = drop (length pre) key;
            np = pre @ [hd rel]
        in if np \<in> node_path ` set result then mb_list_loop pre rest result
           else
             let new = (if length rel > 1 \<or> (case node of MDir _ \<Rightarrow> True | _ \<Rightarrow> False) then NodeDir np
                        else NodeFile np (case node of MFile data _ \<Rightarrow> length data | _ \<Rightarrow> 0))
             in mb_list_loop pre rest (result @ [new]))"

definition mb_list_dir :: "MockBackend \<Rightarrow> path \<Rightarrow> BackendNode list result \<times> MockBackend" where
  "mb_list_dir st p =
     apfst as_nodes (mb_exec (OpListDir p) (\<lambda>st. (Ok (RNodes (mb_list_loop p (mb_nodes st) [])), st)) st)"

definition mb_lstat :: "MockBackend \<Rightarrow> path \<Rightarrow> NodeAttr result \<times> MockBackend" where
  "mb_lstat st p =
     apfst as_attr (mb_exec (OpLstat p)
       (\<lambda>st. case map_of (mb_nodes st) p of
           None \<Rightarrow> (Err Backend, st)
         | Some node \<Rightarrow>
             let (sz, meta) = (case node of
                     MFile data meta \<Rightarrow> (Some (length data), meta)
                   | MDir meta \<Rightarrow> (Some 0, meta)
                   | MSymlink target meta \<Rightarrow> (Some (length target), meta))
             in (Ok (RAttr \<lparr>na_size = sz, na_uid = Some (nm_uid meta), na_gid = Some (nm_gid meta),
                            na_perm = Some (nm_perm meta), na_atime = Some (nm_atime meta),
                            na_mtime = Some (nm_mtime meta)\<rparr>), st)) st)"

definition mock_backend :: "MockBackend StorageBackend" where
  "mock_backend =
     \<lparr>be_create = mb_create, be_path_exists = mb_path_exists, be_read = mb_read, be_write = mb_write,
      be_rename = mb_rename, be_list_dir = mb_list_dir, be_create_dir = mb_create_dir,
      be_remove = mb_remove, be_is_file = mb_is_file, be_is_dir = mb_is_dir, be_lstat = mb_lstat,
      be_is_dry_run = (\<lambda>_. False)\<rparr>"

section \<open>The mock backend satisfies the contract\<close>

definition mb_files :: "MockBackend \<Rightarrow> path \<Rightarrow> bytes option" where
  "mb_files st p = (case map_of (mb_nodes st) p of Some (MFile d _) \<Rightarrow> Some d | _ \<Rightarrow> None)"

definition mb_inv :: "MockBackend \<Rightarrow> bool" where
  "mb_inv st \<longleftrightarrow> mb_hooks st = [] \<and> bt_ok (mb_nodes st)"

lemmas mb_shape = as_unit_def as_bool_def as_bytes_def as_nodes_def as_attr_def

lemma mb_exec_no_hooks:
  "mb_hooks st = [] \<Longrightarrow> mb_exec op f st = (case f st of (res, st') \<Rightarrow> (res, st'\<lparr>mb_history := mb_history st' @ [(op, res)]\<rparr>))"
  by (simp add: mb_exec_def Let_def)

lemma entry_or_insert_ok [simp]: "bt_ok nodes \<Longrightarrow> bt_ok (entry_or_insert p n nodes)"
  by (auto simp: entry_or_insert_def split: option.splits)

lemma entry_or_insert_get:
  "map_of (entry_or_insert p n nodes) q = (if q = p \<and> map_of nodes p = None then Some n else map_of nodes q)"
  by (auto simp: entry_or_insert_def bt_simps split: option.splits)

lemma ensure_parent_dirs_ok [simp]: "bt_ok nodes \<Longrightarrow> bt_ok (ensure_parent_dirs now nodes p)"
  by (induction now nodes p rule: ensure_parent_dirs.induct) (subst ensure_parent_dirs.simps, simp)

text \<open>Only missing directories are added: existing nodes stay, new ones are directories above \<open>p\<close>.\<close>

lemma ensure_parent_dirs_get:
  "map_of nodes q = Some n \<Longrightarrow> map_of (ensure_parent_dirs now nodes p) q = Some n"
proof (induction now nodes p rule: ensure_parent_dirs.induct)
  case (1 now nodes p)
  then have "map_of (entry_or_insert (butlast p) (mock_dir now) nodes) q = Some n"
    by (auto simp: entry_or_insert_get)
  from "1.IH" [OF _ this] "1.prems" show ?case by (subst ensure_parent_dirs.simps) simp
qed

lemma ensure_parent_dirs_new:
  "map_of nodes q = None \<Longrightarrow>
   map_of (ensure_parent_dirs now nodes p) q \<in> {None, Some (mock_dir now)}"
proof (induction now nodes p rule: ensure_parent_dirs.induct)
  case (1 now nodes p)
  show ?case
  proof (cases "p = [] \<or> butlast p = []")
    case False
    show ?thesis
    proof (cases "q = butlast p")
      case True
      then have "map_of (entry_or_insert (butlast p) (mock_dir now) nodes) q = Some (mock_dir now)"
        using 1 by (simp add: entry_or_insert_get)
      from ensure_parent_dirs_get [OF this] False show ?thesis
        by (subst ensure_parent_dirs.simps) simp
    next
      case ne: False
      then have "map_of (entry_or_insert (butlast p) (mock_dir now) nodes) q = None"
        using 1 by (simp add: entry_or_insert_get)
      with 1 False show ?thesis by (subst ensure_parent_dirs.simps) simp
    qed
  qed (use 1 in \<open>subst ensure_parent_dirs.simps, simp\<close>)
qed

lemma ensure_parent_dirs_files:
  "mb_files (st\<lparr>mb_nodes := ensure_parent_dirs now (mb_nodes st) p\<rparr>) = mb_files st"
proof
  fix q
  show "mb_files (st\<lparr>mb_nodes := ensure_parent_dirs now (mb_nodes st) p\<rparr>) q = mb_files st q"
  proof (cases "map_of (mb_nodes st) q")
    case None
    from ensure_parent_dirs_new [OF this, of now p] None show ?thesis
      by (auto simp: mb_files_def mock_dir_def)
  qed (simp add: mb_files_def ensure_parent_dirs_get)
qed

lemma fold_bt_remove_ok: "bt_ok nodes \<Longrightarrow> bt_ok (fold bt_remove ks nodes)"
  by (induction ks arbitrary: nodes) auto

lemma fold_bt_remove_get:
  "map_of (fold bt_remove ks nodes) q = (if q \<in> set ks then None else map_of nodes q)"
  by (induction ks arbitrary: nodes) (auto simp: bt_simps)

lemma mb_move_ok:
  "distinct ks \<Longrightarrow> set ks \<subseteq> dom (map_of nodes) \<Longrightarrow> fst (mb_move from to ks nodes) = None"
proof (induction ks arbitrary: nodes)
  case (Cons k ks)
  then obtain node where node: "map_of nodes k = Some node" by auto
  have "fst (mb_move from to ks (bt_insert j node (bt_remove k nodes))) = None" for j
    using Cons by (intro Cons.IH) (auto simp: bt_simps)
  with node show ?case by (simp add: Let_def)
qed simp

lemma mb_move_bt_ok: "bt_ok nodes \<Longrightarrow> bt_ok (snd (mb_move from to ks nodes))"
  by (induction "from" to ks nodes rule: mb_move.induct) (auto simp: Let_def split: option.splits)

text \<open>Keys outside both subtrees are untouched; \<open>from\<close> ends up at \<open>to\<close>.\<close>

lemma mb_move_outside:
  "\<forall>k\<in>set ks. prefix from k \<Longrightarrow> \<not> prefix from q \<Longrightarrow> \<not> prefix to q \<Longrightarrow>
   map_of (snd (mb_move from to ks nodes)) q = map_of nodes q"
proof (induction ks arbitrary: nodes)
  case (Cons k ks)
  have "q \<noteq> k" "q \<noteq> to @ r" for r using Cons.prems by auto
  then have "q \<noteq> (if k = from then to else to @ drop (length from) k)" using Cons.prems(3) by auto
  with \<open>q \<noteq> k\<close> Cons show ?case
    by (auto simp: Let_def bt_simps split: option.splits)
qed simp

lemma mb_move_source:
  "\<forall>k\<in>set ks. prefix from k \<Longrightarrow> \<not> prefix from to \<Longrightarrow> \<not> prefix to from \<Longrightarrow> from \<notin> set ks \<Longrightarrow>
   map_of (snd (mb_move from to ks nodes)) from = map_of nodes from \<and>
   map_of (snd (mb_move from to ks nodes)) to = map_of nodes to"
proof (induction ks arbitrary: nodes)
  case (Cons k ks)
  have "from \<noteq> to @ r" for r using Cons.prems(3) by auto
  moreover from Cons.prems have "k \<noteq> from" "k \<noteq> to" "drop (length from) k \<noteq> []"
    by (auto simp: prefix_def)
  ultimately show ?case using Cons by (auto simp: Let_def bt_simps split: option.splits)
qed simp

lemma mb_move_target:
  assumes "\<forall>k\<in>set ks. prefix from k" "\<not> prefix from to" "\<not> prefix to from" "distinct ks"
    "from \<in> set ks" "set ks \<subseteq> dom (map_of nodes)"
  shows "map_of (snd (mb_move from to ks nodes)) from = None \<and>
         map_of (snd (mb_move from to ks nodes)) to = map_of nodes from"
  using assms
proof (induction ks arbitrary: nodes)
  case (Cons k ks)
  then obtain node where node: "map_of nodes k = Some node" by auto
  have neq: "from \<noteq> to @ r" for r using Cons.prems(3) by auto
  show ?case
  proof (cases "k = from")
    case True
    with Cons.prems have "from \<notin> set ks" by simp
    moreover have "from \<noteq> to" using Cons.prems by auto
    ultimately show ?thesis
      using Cons.prems node True
        mb_move_source [of ks "from" to "bt_insert to node (bt_remove from nodes)"]
      by (simp add: Let_def bt_simps)
  next
    case False
    let ?n = "bt_insert (to @ drop (length from) k) node (bt_remove k nodes)"
    have "set ks \<subseteq> dom (map_of ?n)" using Cons.prems by (auto simp: bt_simps)
    then have "map_of (snd (mb_move from to ks ?n)) from = None \<and>
               map_of (snd (mb_move from to ks ?n)) to = map_of ?n from"
      using Cons.prems False by (intro Cons.IH) auto
    with node False neq show ?thesis by (simp add: Let_def bt_simps)
  qed
qed simp

lemma mb_read_spec:
  assumes "mb_inv st"
  shows "mb_read st h off len =
    (case mb_files st (h_path h) of Some d \<Rightarrow> Ok (read_window d off len) | None \<Rightarrow> Err Backend, snd (mb_read st h off len)) \<and>
    mb_nodes (snd (mb_read st h off len)) = mb_nodes st \<and> mb_hooks (snd (mb_read st h off len)) = []"
  using assms
  by (auto simp: mb_read_def mb_inv_def mb_exec_no_hooks mb_files_def Let_def mb_shape read_window_def slice_def
      min_def split: option.splits MockNode.splits)

lemma mb_files_write:
  "mb_files (st\<lparr>mb_nodes := bt_insert p (mock_file now d) (ensure_parent_dirs now (mb_nodes st) p), mb_history := hist\<rparr>) =
   (mb_files st)(p \<mapsto> d)"
proof
  fix q
  show "mb_files (st\<lparr>mb_nodes := bt_insert p (mock_file now d) (ensure_parent_dirs now (mb_nodes st) p),
                     mb_history := hist\<rparr>) q = ((mb_files st)(p \<mapsto> d)) q"
    using fun_cong [OF ensure_parent_dirs_files [where st = st and now = now and p = p], of q]
    by (simp add: mb_files_def bt_simps mock_file_def)
qed

lemma mb_files_history [simp]: "mb_files (st\<lparr>mb_history := hist\<rparr>) = mb_files st"
  by (rule ext) (simp add: mb_files_def)

lemma mb_files_key: "mb_files st p = Some d \<Longrightarrow> p \<in> fst ` set (mb_nodes st)"
  by (force simp: mb_files_def split: option.splits MockNode.splits dest!: map_of_SomeD)

lemma mb_write_spec:
  assumes "mb_inv st" "mb_write st h d = (r, st')"
  shows "mb_inv st' \<and>
    (case r of Inr _ \<Rightarrow> mb_files st' = (mb_files st)(h_path h \<mapsto> d) | Inl e \<Rightarrow> mb_files st' = mb_files st)"
  using assms mb_files_write [where st = st and p = "h_path h" and now = "mb_now st" and d = d]
  by (auto simp: mb_write_def mb_inv_def mb_exec_no_hooks Let_def mb_shape
      split: option.splits MockNode.splits)

lemma mb_remove_spec:
  assumes "mb_inv st" "mb_remove st p = (r, st')"
  shows "mb_inv st' \<and>
    (case r of Inr _ \<Rightarrow> mb_files st' = (\<lambda>q. if prefix p q then None else mb_files st q)
     | Inl e \<Rightarrow> mb_files st' = mb_files st \<and> mb_files st p = None)"
proof -
  let ?ks = "filter (\<lambda>q. q = p \<or> prefix p q) (map fst (mb_nodes st))"
  have "mb_files (st\<lparr>mb_nodes := fold bt_remove ?ks (mb_nodes st), mb_history := hist\<rparr>) =
        (\<lambda>q. if prefix p q then None else mb_files st q)" for hist
    by (rule ext) (auto simp: mb_files_def fold_bt_remove_get map_of_eq_None_iff [THEN iffD2]
        split: option.splits MockNode.splits dest: map_of_SomeD)
  moreover have "?ks = [] \<Longrightarrow> mb_files st p = None"
    using mb_files_key [of st p] by (cases "mb_files st p") (auto simp: filter_empty_conv)
  ultimately show ?thesis
    using assms fold_bt_remove_ok [of "mb_nodes st" ?ks]
    by (auto simp: mb_remove_def mb_inv_def mb_exec_no_hooks Let_def mb_shape split: if_splits)
qed

lemma mb_rename_spec:
  assumes "mb_inv st" "mb_rename st from to = (r, st')"
  shows "mb_inv st' \<and>
    (case r of
       Inr _ \<Rightarrow> (\<forall>d. mb_files st from = Some d \<and> \<not> prefix from to \<and> \<not> prefix to from \<longrightarrow>
                    mb_files st' to = Some d \<and> mb_files st' from = None \<and>
                    (\<forall>q. \<not> prefix from q \<and> \<not> prefix to q \<longrightarrow> mb_files st' q = mb_files st q))
     | Inl e \<Rightarrow> mb_files st' = mb_files st \<and> mb_files st from = None)"
proof -
  define nodes where "nodes = ensure_parent_dirs (mb_now st) (mb_nodes st) to"
  define ks where "ks = filter (\<lambda>k. k = from \<or> prefix from k) (map fst nodes)"
  let ?m = "mb_move from to ks nodes"
  have ok: "bt_ok nodes" using assms by (simp add: nodes_def mb_inv_def)
  have ks: "\<forall>k\<in>set ks. prefix from k" "distinct ks" "set ks \<subseteq> dom (map_of nodes)"
    using bt_ok_distinct [OF ok] by (auto simp: ks_def dom_map_of_conv_image_fst)
  obtain nodes' where m: "?m = (None, nodes')" using mb_move_ok [OF ks(2,3)] by (metis prod.collapse)
  have files: "mb_files (st\<lparr>mb_nodes := nodes\<rparr>) = mb_files st"
    unfolding nodes_def by (rule ensure_parent_dirs_files)
  have step: "(r, st') = (if ks = [] then (Err Backend, st\<lparr>mb_nodes := nodes, mb_history := mb_history st @ [(OpRename from to, Err Backend)]\<rparr>)
      else (Ok (), st\<lparr>mb_nodes := nodes', mb_history := mb_history st @ [(OpRename from to, Ok RUnit)]\<rparr>))"
    using assms m
    by (auto simp: mb_rename_def mb_inv_def mb_exec_no_hooks Let_def mb_shape nodes_def [symmetric] ks_def [symmetric])
  have empty: "ks = [] \<Longrightarrow> mb_files st from = None"
    unfolding files [symmetric] using mb_files_key [of "st\<lparr>mb_nodes := nodes\<rparr>" "from"]
    by (cases "mb_files (st\<lparr>mb_nodes := nodes\<rparr>) from") (auto simp: ks_def filter_empty_conv)
  have "mb_inv st'"
    using step assms ok mb_move_bt_ok [OF ok, of "from" to ks] m
    by (auto simp: mb_inv_def split: if_splits)
  moreover have "mb_files st' to = Some d \<and> mb_files st' from = None \<and>
       (\<forall>q. \<not> prefix from q \<and> \<not> prefix to q \<longrightarrow> mb_files st' q = mb_files st q)"
    if "mb_files st from = Some d" "\<not> prefix from to" "\<not> prefix to from" for d
  proof -
    have "ks \<noteq> []" using empty that by auto
    with step have st': "mb_nodes st' = nodes'" by auto
    from that(1) files have node: "(case map_of nodes from of Some (MFile d _) \<Rightarrow> Some d | _ \<Rightarrow> None) = Some d"
      by (simp add: mb_files_def fun_eq_iff)
    have "from \<in> set ks"
      using mb_files_key [of "st\<lparr>mb_nodes := nodes\<rparr>" "from" d] that(1) unfolding files
      by (auto simp: ks_def)
    from mb_move_target [OF ks(1) that(2,3) ks(2) this ks(3)] m node
    have "mb_files st' to = Some d \<and> mb_files st' from = None" by (simp add: mb_files_def st')
    moreover have "mb_files st' q = mb_files st q" if "\<not> prefix from q" "\<not> prefix to q" for q
      using mb_move_outside [OF ks(1) that, of nodes] m unfolding files [symmetric] by (simp add: mb_files_def st')
    ultimately show ?thesis by blast
  qed
  ultimately show ?thesis
    using step files empty by (auto split: if_splits)
qed

lemma mb_query_spec:
  assumes "mb_inv st"
  shows "mb_path_exists st p = (map_of (mb_nodes st) p \<noteq> None, snd (mb_path_exists st p)) \<and>
      mb_nodes (snd (mb_path_exists st p)) = mb_nodes st \<and> mb_hooks (snd (mb_path_exists st p)) = []"
    and "mb_is_file st p = (mb_files st p \<noteq> None, snd (mb_is_file st p)) \<and>
      mb_nodes (snd (mb_is_file st p)) = mb_nodes st \<and> mb_hooks (snd (mb_is_file st p)) = []"
    and "mb_nodes (snd (mb_list_dir st p)) = mb_nodes st \<and> mb_hooks (snd (mb_list_dir st p)) = []"
  using assms
  by (auto simp: mb_path_exists_def mb_is_file_def mb_list_dir_def mb_inv_def mb_exec_no_hooks mb_shape mb_files_def
      split: option.splits MockNode.splits)

lemma mb_create_dir_spec:
  assumes "mb_inv st"
  shows "mb_inv (snd (mb_create_dir st p)) \<and> mb_files (snd (mb_create_dir st p)) = mb_files st"
proof -
  let ?n = "ensure_parent_dirs (mb_now st) (mb_nodes st) p"
  have "mb_files (st\<lparr>mb_nodes := entry_or_insert p (mock_dir (mb_now st)) ?n, mb_history := hist\<rparr>) =
      mb_files (st\<lparr>mb_nodes := ?n\<rparr>)" for hist
    by (rule ext) (auto simp: mb_files_def entry_or_insert_get mock_dir_def)
  then show ?thesis
    using assms by (simp add: mb_create_dir_def mb_inv_def mb_exec_no_hooks Let_def ensure_parent_dirs_files)
qed

lemma mb_nodes_files: "mb_nodes st' = mb_nodes st \<Longrightarrow> mb_files st' = mb_files st"
  by (rule ext) (simp add: mb_files_def)

interpretation mock: storage_backend mock_backend mb_inv mb_files
proof (unfold_locales, goal_cases)
  case (1 st h off len rb st')
  then have "rb = (case mb_files st (h_path h) of Some d \<Rightarrow> Ok (read_window d off len) | None \<Rightarrow> Err Backend)"
    and "mb_nodes st' = mb_nodes st" "mb_hooks st' = []"
    using mb_read_spec [of st h off len] by (simp_all add: mock_backend_def)
  then show ?case
    using 1 mb_nodes_files [of st' st] by (auto simp: mb_inv_def split: option.splits)
next
  case (2 st h d r st')
  then show ?case using mb_write_spec [of st h d r st'] by (simp add: mock_backend_def)
next
  case (3 st p r st')
  then show ?case using mb_remove_spec [of st p r st'] by (simp add: mock_backend_def)
next
  case (4 st "from" to r st')
  then show ?case using mb_rename_spec [of st "from" to r st'] by (simp add: mock_backend_def)
next
  case (5 st p b st')
  then have "b = (map_of (mb_nodes st) p \<noteq> None)" "mb_nodes st' = mb_nodes st" "mb_hooks st' = []"
    using mb_query_spec(1) [of st p] by (simp_all add: mock_backend_def)
  then show ?case
    using 5 mb_nodes_files [of st' st] by (auto simp: mb_inv_def mb_files_def split: option.splits)
next
  case (6 st p b st')
  then show ?case
    using mb_query_spec(2) [of st p] mb_nodes_files [of st' st] by (auto simp: mock_backend_def mb_inv_def)
next
  case (7 st p rn st')
  then show ?case
    using mb_query_spec(3) [of st p] mb_nodes_files [of st' st] by (auto simp: mock_backend_def mb_inv_def)
next
  case (8 st p r st')
  then show ?case using mb_create_dir_spec [of st p] by (simp add: mock_backend_def)
qed

section \<open>The dry backend\<close>

text \<open>Reads go to the wrapped backend, everything that would change it is answered with success.\<close>

definition dry_backend :: "'b StorageBackend \<Rightarrow> 'b StorageBackend" where
  "dry_backend B =
     \<lparr>be_create = (\<lambda>st. (Ok (), st)), be_path_exists = be_path_exists B, be_read = be_read B,
      be_write = (\<lambda>st _ _. (Ok (), st)), be_rename = (\<lambda>st _ _. (Ok (), st)),
      be_list_dir = be_list_dir B, be_create_dir = (\<lambda>st _. (Ok (), st)),
      be_remove = (\<lambda>st _. (Ok (), st)), be_is_file = be_is_file B, be_is_dir = be_is_dir B,
      be_lstat = be_lstat B, be_is_dry_run = (\<lambda>_. True)\<rparr>"

text \<open>A client's request to a backend, and a run of several of them. The answers are dropped.\<close>

datatype request =
    QCreate | QExists path | QRead Handle int nat | QWrite Handle bytes | QRename path path
  | QListDir path | QCreateDir path | QRemove path | QIsFile path | QIsDir path | QLstat path

fun perform :: "'b StorageBackend \<Rightarrow> request \<Rightarrow> 'b \<Rightarrow> 'b" where
  "perform B QCreate st = snd (be_create B st)"
| "perform B (QExists p) st = snd (be_path_exists B st p)"
| "perform B (QRead h off len) st = snd (be_read B st h off len)"
| "perform B (QWrite h d) st = snd (be_write B st h d)"
| "perform B (QRename p q) st = snd (be_rename B st p q)"
| "perform B (QListDir p) st = snd (be_list_dir B st p)"
| "perform B (QCreateDir p) st = snd (be_create_dir B st p)"
| "perform B (QRemove p) st = snd (be_remove B st p)"
| "perform B (QIsFile p) st = snd (be_is_file B st p)"
| "perform B (QIsDir p) st = snd (be_is_dir B st p)"
| "perform B (QLstat p) st = snd (be_lstat B st p)"

lemma dry_perform_nodes:
  "mb_nodes (perform (dry_backend mock_backend) q st) = mb_nodes st"
proof -
  have exec: "mb_nodes (snd (mb_exec op (\<lambda>st. (f st, st)) st)) = mb_nodes st" for op f
    by (simp add: mb_exec_def Let_def split: prod.splits option.splits)
  show ?thesis
  proof (cases q)
    case (QRead h off len)
    then show ?thesis
      by (auto simp: dry_backend_def mock_backend_def mb_read_def mb_exec_def Let_def
          split: option.splits MockNode.splits prod.splits)
  next
    case (QLstat p)
    then show ?thesis
      by (auto simp: dry_backend_def mock_backend_def mb_lstat_def mb_exec_def Let_def
          split: option.splits MockNode.splits prod.splits)
  qed (simp_all add: dry_backend_def mock_backend_def mb_path_exists_def mb_is_file_def mb_is_dir_def
      mb_list_dir_def exec)
qed

section \<open>Properties\<close>

text \<open>After a successful write every later read of that path returns the written bytes, in full or as
  the window the offset and length select; reads of other files are unaffected.\<close>

theorem mock_read_after_write:
  assumes "mb_inv st" "mb_write st h d = (Ok u, st')"
  shows "fst (mb_read st' (handle_new (h_path h)) 0 0) = Ok d \<and>
         fst (mb_read st' h' off len) =
           (if h_path h' = h_path h then Ok (read_window d off len) else fst (mb_read st h' off len))"
proof -
  have "mb_inv st'" "mb_files st' = (mb_files st)(h_path h \<mapsto> d)"
    using mock.write_file [of st h d "Ok u" st'] assms by (simp_all add: mock_backend_def)
  moreover have spec: "mb_inv s \<Longrightarrow> fst (mb_read s h off len) =
      (case mb_files s (h_path h) of Some d \<Rightarrow> Ok (read_window d off len) | None \<Rightarrow> Err Backend)" for s h off len
    using mb_read_spec [of s h off len] by (metis fst_conv)
  ultimately show ?thesis
    using assms(1) by (simp add: spec handle_new_def)
qed

theorem mock_read_after_write_witness:
  "fst (mb_read (snd (mb_write (mock_new 7) (handle_new [''data'', ''x'']) [1,2,3,4]))
      (handle_new [''data'', ''x'']) (-3) 2) = Ok [2,3]"
proof -
  have "mb_inv (mock_new 7)" by (simp add: mb_inv_def mock_new_def)
  moreover have "mb_write (mock_new 7) (handle_new [''data'', ''x'']) [1,2,3,4] =
      (Ok (), snd (mb_write (mock_new 7) (handle_new [''data'', ''x'']) [1,2,3,4]))"
    by (simp add: mb_write_def mock_new_def mb_exec_no_hooks as_unit_def Let_def)
  ultimately show ?thesis
    using mock_read_after_write [where h = "handle_new [''data'', ''x'']" and h' = "handle_new [''data'', ''x'']"
        and off = "-3" and len = 2]
    by (simp add: read_window_def resolve_read_offset_def handle_new_def)
qed


text \<open>Renaming a file moves its contents: the new path holds them, the old path is gone, and every
  path outside both subtrees keeps its contents.\<close>

theorem mock_rename_moves:
  assumes "mb_inv st" "mb_files st from = Some d" "\<not> prefix from to" "\<not> prefix to from"
    "mb_rename st from to = (r, st')"
  shows "r = Ok () \<and> mb_inv st' \<and> mb_files st' to = Some d \<and> mb_files st' from = None \<and>
         (\<forall>q. \<not> prefix from q \<and> \<not> prefix to q \<longrightarrow> mb_files st' q = mb_files st q)"
  using mock.rename_file [of st "from" to r st'] assms
  by (cases r) (auto simp: mock_backend_def)

theorem mock_rename_moves_witness:
  "mb_files (snd (mb_rename (put_file (mock_new 0) [''a''] [5]) [''a''] [''b'', ''c''])) [''b'', ''c''] = Some [5]"
proof -
  have "mb_inv (put_file (mock_new 0) [''a''] [5])" by (simp add: mb_inv_def mock_new_def put_file_def)
  moreover have "mb_files (put_file (mock_new 0) [''a''] [5]) [''a''] = Some [5]"
    by (simp add: mb_files_def mock_new_def put_file_def mock_file_def)
  ultimately show ?thesis
    using mock_rename_moves [of "put_file (mock_new 0) [''a''] [5]" "[''a'']" "[5]" "[''b'', ''c'']"
        "fst (mb_rename (put_file (mock_new 0) [''a''] [5]) [''a''] [''b'', ''c''])"
        "snd (mb_rename (put_file (mock_new 0) [''a''] [5]) [''a''] [''b'', ''c''])"]
    by simp
qed

end
