(* ===== verification/Packer.thy ===== *)
theory Packer
  imports Bytes Storage Backend
begin

text \<open>
  The pack format of \<open>repository/packer.rs\<close>: the \<open>Packer\<close> buffer (\<open>add_blob\<close>,
  \<open>finalize_and_extract\<close>, \<open>recycle_buffer\<close>), the footer writer \<open>generate_footer\<close> and the readers
  \<open>parse_footer\<close> and \<open>parse_pack_footer\<close>.

  The random padding entries of the footer are drawn from an argument \<open>rng\<close>, the nonce of the footer's
  encryption is an argument. The zstd working memory (\<open>EncodingContext\<close>) has no observable state and
  is left out. \<open>offset += length\<close> in \<open>parse_footer\<close> wraps as in a release build.
\<close>

section \<open>Data\<close>

definition FOOTER_BLOB_LEN :: nat where "FOOTER_BLOB_LEN = 41"
definition FOOTER_BLOB_MULTIPLE :: nat where "FOOTER_BLOB_MULTIPLE = 64"

record PackedBlobDescriptor =
  pd_id :: ID
  pd_type :: BlobType
  pd_offset :: u32
  pd_length :: u32
  pd_raw_length :: u32

record PackFinalizationResult =
  pf_id :: ID
  pf_data :: bytes
  pf_descriptors :: "PackedBlobDescriptor list"
  pf_raw_size :: u64
  pf_meta_size :: nat
  pf_encoded_size :: nat

record Packer =
  pk_instance_id :: u64
  pk_buffer :: bytes
  pk_descriptors :: "PackedBlobDescriptor list"
  pk_raw_size :: u64
  pk_storage :: SecureStorage

section \<open>Operations\<close>

definition packer_new :: "u64 \<Rightarrow> SecureStorage \<Rightarrow> Packer" where
  "packer_new next_id ss =
     \<lparr>pk_instance_id = next_id, pk_buffer = [], pk_descriptors = [], pk_raw_size = 0, pk_storage = ss\<rparr>"

definition pk_size :: "Packer \<Rightarrow> nat" where "pk_size p = length (pk_buffer p)"
definition pk_is_empty :: "Packer \<Rightarrow> bool" where "pk_is_empty p \<longleftrightarrow> pk_buffer p = []"
definition num_objects :: "Packer \<Rightarrow> nat" where "num_objects p = length (pk_descriptors p)"

text \<open>\<open>add_blob\<close>: three checked conversions to \<open>u32\<close>, each before the packer is touched.\<close>

definition add_blob :: "Packer \<Rightarrow> ID \<Rightarrow> BlobType \<Rightarrow> bytes \<Rightarrow> u64 \<Rightarrow> Packer result" where
  "add_blob p bid blob_type encoded_data raw_size =
     bind_result (ok_or (u32_try_from (length (pk_buffer p))) Integrity) (\<lambda>offset.
     bind_result (ok_or (u32_try_from (length encoded_data)) Integrity) (\<lambda>len.
     bind_result (ok_or (u32_try_from (unat raw_size)) Integrity) (\<lambda>raw_length.
       Ok (p\<lparr>pk_buffer := pk_buffer p @ encoded_data,
             pk_descriptors := pk_descriptors p @
               [\<lparr>pd_id = bid, pd_type = blob_type, pd_offset = offset, pd_length = len,
                 pd_raw_length = raw_length\<rparr>],
             pk_raw_size := pk_raw_size p + raw_size\<rparr>))))"

text \<open>The \<open>i\<close>-th padding entry: the generator yields an id and three numbers per entry.\<close>

type_synonym pad_rng = "nat \<Rightarrow> ID \<times> u32 \<times> u32 \<times> u32"

definition padding_descriptor :: "ID \<times> u32 \<times> u32 \<times> u32 \<Rightarrow> PackedBlobDescriptor" where
  "padding_descriptor r =
     (case r of (i, off, len, raw) \<Rightarrow>
        \<lparr>pd_id = i, pd_type = Padding, pd_offset = off, pd_length = len, pd_raw_length = raw\<rparr>)"

definition footer_entry :: "bytes \<Rightarrow> PackedBlobDescriptor \<Rightarrow> bytes" where
  "footer_entry buf d =
     put_u32 (put_u32 (put_u8 (put_bytes buf (id_bytes (pd_id d))) (blob_type_u8 (pd_type d)))
       (pd_length d)) (pd_raw_length d)"

text \<open>\<open>generate_footer\<close> extends the descriptor list in place: the result is the extended list and the
  raw footer.\<close>

definition generate_footer :: "pad_rng \<Rightarrow> PackedBlobDescriptor list \<Rightarrow> PackedBlobDescriptor list \<times> bytes" where
  "generate_footer rng descriptors =
     (let num_padding_blobs =
            (if length descriptors mod FOOTER_BLOB_MULTIPLE \<noteq> 0
             then FOOTER_BLOB_MULTIPLE - length descriptors mod FOOTER_BLOB_MULTIPLE else 0);
          descriptors' = descriptors @ map (\<lambda>i. padding_descriptor (rng i)) [0..<num_padding_blobs]
      in (descriptors', foldl footer_entry [] descriptors'))"

text \<open>\<open>finalize_and_extract\<close>: the descriptors are taken before the footer is encoded, so a failed
  encoding leaves a packer with its buffer and without descriptors.\<close>

definition finalize_and_extract :: "crypto \<Rightarrow> pad_rng \<Rightarrow> bytes \<Rightarrow> Packer \<Rightarrow>
    PackFinalizationResult option result \<times> Packer" where
  "finalize_and_extract cr rng nonce p =
     (if pk_buffer p = [] then (Ok None, p)
      else
        let (descriptors, footer) = generate_footer rng (pk_descriptors p);
            raw_size = pk_raw_size p;
            p1 = p\<lparr>pk_descriptors := []\<rparr>
        in case ss_encode cr (pk_storage p) nonce footer of
             Inl e \<Rightarrow> (Err e, p1)
           | Inr encoded_footer \<Rightarrow>
               let footer_len_bytes = to_le_bytes 4 (word_of_nat (length encoded_footer) :: u32);
                   buffer = pk_buffer p @ encoded_footer @ footer_len_bytes
               in (Ok (Some \<lparr>pf_id = cr_hash cr buffer, pf_data = buffer, pf_descriptors = descriptors,
                            pf_raw_size = raw_size, pf_meta_size = length encoded_footer + 4,
                            pf_encoded_size = length buffer\<rparr>),
                   p1\<lparr>pk_buffer := [], pk_raw_size := 0\<rparr>))"

definition recycle_buffer :: "Packer \<Rightarrow> bytes \<Rightarrow> Packer" where
  "recycle_buffer p old_buffer = p\<lparr>pk_buffer := [], pk_descriptors := [], pk_raw_size := 0\<rparr>"

section \<open>Reading a footer\<close>

text \<open>One iteration of the loop of \<open>parse_footer\<close>.\<close>

definition parse_entry :: "bytes \<Rightarrow> (ID \<times> BlobType \<times> u32 \<times> u32 \<times> bytes) result" where
  "parse_entry cur =
     bind_result (get_array 32 cur) (\<lambda>(i, cur).
     bind_result (get_u8 cur) (\<lambda>(tb, cur).
     bind_result (blob_type_try_from tb) (\<lambda>blob_type.
     bind_result (get_u32 cur) (\<lambda>(len, cur).
     bind_result (get_u32 cur) (\<lambda>(raw_length, cur).
       Ok (ID i, blob_type, len, raw_length, cur))))))"

lemma parse_entry_consumes:
  "parse_entry cur = Ok (i, t, len, raw, rest) \<Longrightarrow> length cur = length rest + FOOTER_BLOB_LEN"
  by (auto simp: parse_entry_def get_array_def get_exact_def get_u8_def get_u32_def bind_result_Inr
      FOOTER_BLOB_LEN_def split: if_splits)

function parse_entries :: "bytes \<Rightarrow> u32 \<Rightarrow> PackedBlobDescriptor list \<Rightarrow> PackedBlobDescriptor list result" where
  "parse_entries cur offset acc =
     (if cur = [] then Ok acc
      else case parse_entry cur of
          Inl e \<Rightarrow> Err e
        | Inr (i, t, len, raw, rest) \<Rightarrow>
            if t \<noteq> Padding then
              parse_entries rest (offset + len)
                (acc @ [\<lparr>pd_id = i, pd_type = t, pd_offset = offset, pd_length = len, pd_raw_length = raw\<rparr>])
            else parse_entries rest offset acc)"
  by pat_completeness auto
termination
  by (relation "measure (\<lambda>(cur, _, _). length cur)")
    (auto dest!: parse_entry_consumes simp: FOOTER_BLOB_LEN_def)

declare parse_entries.simps [simp del]

definition parse_footer :: "crypto \<Rightarrow> SecureStorage \<Rightarrow> bytes \<Rightarrow> PackedBlobDescriptor list result" where
  "parse_footer cr ss footer_data =
     (if length footer_data < 4 then Err Format
      else
        let n = length footer_data;
            encoded_footer_length = unat (from_le_bytes (drop (n - 4) footer_data) :: u32)
        in if encoded_footer_length + 4 > n then Err Integrity
           else bind_result
                  (ss_decode cr ss (slice (n - encoded_footer_length - 4) (n - 4) footer_data))
                  (\<lambda>footer_blob_info. parse_entries footer_blob_info 0 []))"

text \<open>\<open>parse_pack_footer\<close>: two reads from the end of the pack file, whose path the repository supplies.
  The slice of the first read is turned into an array of four bytes.\<close>

definition parse_pack_footer :: "'b StorageBackend \<Rightarrow> crypto \<Rightarrow> SecureStorage \<Rightarrow> path \<Rightarrow> 'b \<Rightarrow>
    PackedBlobDescriptor list result \<times> 'b" where
  "parse_pack_footer B cr ss pack_path st =
     (case be_read B st (handle_new pack_path) (-4) 4 of
        (Inl e, st1) \<Rightarrow> (Err e, st1)
      | (Inr fl, st1) \<Rightarrow>
          if length fl \<noteq> 4 then (Err Format, st1)
          else
            let encoded_footer_length = unat (from_le_bytes fl :: u32)
            in case be_read B st1 (handle_new pack_path) (- (4 + int encoded_footer_length)) (4 + encoded_footer_length) of
                 (Inl e, st2) \<Rightarrow> (Err e, st2)
               | (Inr footer_data, st2) \<Rightarrow> (parse_footer cr ss footer_data, st2))"

section \<open>The packer's invariant\<close>

text \<open>The descriptors tile the buffer: each starts where the previous one ends.\<close>

fun tiles :: "nat \<Rightarrow> PackedBlobDescriptor list \<Rightarrow> bool" where
  "tiles off [] = True"
| "tiles off (d # ds) \<longleftrightarrow>
     off < 2 ^ 32 \<and> pd_offset d = word_of_nat off \<and> id_ok (pd_id d) \<and> pd_type d \<noteq> Padding \<and>
     tiles (off + unat (pd_length d)) ds"

definition total_length :: "PackedBlobDescriptor list \<Rightarrow> nat" where
  "total_length ds = sum_list (map (\<lambda>d. unat (pd_length d)) ds)"

definition packer_ok :: "Packer \<Rightarrow> bool" where
  "packer_ok p \<longleftrightarrow> tiles 0 (pk_descriptors p) \<and> total_length (pk_descriptors p) = length (pk_buffer p)"

text \<open>The bytes a descriptor points at.\<close>

definition blob_at :: "bytes \<Rightarrow> PackedBlobDescriptor \<Rightarrow> bytes" where
  "blob_at data d = slice (unat (pd_offset d)) (unat (pd_offset d) + unat (pd_length d)) data"

text \<open>The blobs of a packer, as the abstract content: id, type and encoded bytes in the order of
  insertion.\<close>

definition pack_blobs :: "bytes \<Rightarrow> PackedBlobDescriptor list \<Rightarrow> (ID \<times> BlobType \<times> bytes) list" where
  "pack_blobs data ds = map (\<lambda>d. (pd_id d, pd_type d, blob_at data d)) ds"

abbreviation packer_blobs :: "Packer \<Rightarrow> (ID \<times> BlobType \<times> bytes) list" where
  "packer_blobs p \<equiv> pack_blobs (pk_buffer p) (pk_descriptors p)"

lemma total_length_simps [simp]:
  "total_length [] = 0" "total_length (d # ds) = unat (pd_length d) + total_length ds"
  "total_length (ds @ es) = total_length ds + total_length es"
  by (simp_all add: total_length_def)

lemma tiles_append:
  "tiles off (ds @ es) \<longleftrightarrow> tiles off ds \<and> tiles (off + total_length ds) es"
  by (induction ds arbitrary: off) (auto simp: add.assoc)

lemma tiles_bounds:
  "tiles off ds \<Longrightarrow> d \<in> set ds \<Longrightarrow>
   off \<le> unat (pd_offset d) \<and> unat (pd_offset d) + unat (pd_length d) \<le> off + total_length ds"
  by (induction ds arbitrary: off) fastforce+

lemma pack_blobs_append:
  assumes "tiles 0 ds" "total_length ds \<le> length data"
  shows "pack_blobs (data @ extra) ds = pack_blobs data ds"
  unfolding pack_blobs_def blob_at_def
  using tiles_bounds [OF assms(1)] assms(2) by (fastforce intro!: slice_append_left)

lemma add_blob_eq:
  "add_blob p bid t enc raw = Ok p' \<longleftrightarrow>
     length (pk_buffer p) < 2 ^ 32 \<and> length enc < 2 ^ 32 \<and> unat raw < 2 ^ 32 \<and>
     p' = p\<lparr>pk_buffer := pk_buffer p @ enc,
            pk_descriptors := pk_descriptors p @
              [\<lparr>pd_id = bid, pd_type = t, pd_offset = word_of_nat (length (pk_buffer p)),
                pd_length = word_of_nat (length enc), pd_raw_length = word_of_nat (unat raw)\<rparr>],
            pk_raw_size := pk_raw_size p + raw\<rparr>"
  by (auto simp: add_blob_def bind_result_Inr u32_try_from_Some)

lemma packer_ok_new [simp]: "packer_ok (packer_new i ss)"
  by (simp add: packer_ok_def packer_new_def)

lemma packer_ok_recycle [simp]: "packer_ok (recycle_buffer p buf)"
  by (simp add: packer_ok_def recycle_buffer_def)

lemma packer_ok_add:
  "packer_ok p \<Longrightarrow> add_blob p bid t enc raw = Ok p' \<Longrightarrow> id_ok bid \<Longrightarrow> t \<noteq> Padding \<Longrightarrow> packer_ok p'"
  by (auto simp: packer_ok_def add_blob_eq tiles_append)

lemma packer_blobs_add:
  assumes "packer_ok p" "add_blob p bid t enc raw = Ok p'"
  shows "packer_blobs p' = packer_blobs p @ [(bid, t, enc)]"
  using assms pack_blobs_append [of "pk_descriptors p" "pk_buffer p" enc]
  by (auto simp: add_blob_eq packer_ok_def pack_blobs_def blob_at_def slice_def)

section \<open>The footer round trip\<close>

definition entry_bytes :: "PackedBlobDescriptor \<Rightarrow> bytes" where
  "entry_bytes d = id_bytes (pd_id d) @ [blob_type_u8 (pd_type d)] @ to_le_bytes 4 (pd_length d) @
     to_le_bytes 4 (pd_raw_length d)"

lemma footer_entry_bytes: "footer_entry buf d = buf @ entry_bytes d"
  by (simp add: footer_entry_def entry_bytes_def put_bytes_def put_u8_def put_u32_def)

lemma foldl_footer_entry: "foldl footer_entry buf ds = buf @ concat (map entry_bytes ds)"
  by (induction ds arbitrary: buf) (auto simp: footer_entry_bytes)

lemma length_entry_bytes: "id_ok (pd_id d) \<Longrightarrow> length (entry_bytes d) = FOOTER_BLOB_LEN"
  by (simp add: entry_bytes_def id_ok_def ID_LENGTH_def FOOTER_BLOB_LEN_def)

lemma parse_entry_bytes:
  assumes "id_ok (pd_id d)"
  shows "parse_entry (entry_bytes d @ rest) =
         Ok (pd_id d, pd_type d, pd_length d, pd_raw_length d, rest)"
proof -
  have "get_array 32 (entry_bytes d @ rest) =
      Ok (id_bytes (pd_id d), blob_type_u8 (pd_type d) # to_le_bytes 4 (pd_length d) @ to_le_bytes 4 (pd_raw_length d) @ rest)"
    using assms get_array_append [of "id_bytes (pd_id d)" 32]
    by (simp add: entry_bytes_def id_ok_def ID_LENGTH_def)
  then show ?thesis by (simp add: parse_entry_def)
qed

lemma parse_entries_cons:
  assumes "id_ok (pd_id d)"
  shows "parse_entries (entry_bytes d @ rest) off acc =
    (if pd_type d \<noteq> Padding then parse_entries rest (off + pd_length d) (acc @ [d\<lparr>pd_offset := off\<rparr>])
     else parse_entries rest off acc)"
proof -
  have "entry_bytes d \<noteq> []" by (simp add: entry_bytes_def)
  then show ?thesis
    by (subst parse_entries.simps) (use assms in \<open>cases d, simp add: parse_entry_bytes\<close>)
qed

lemma parse_entries_padding:
  "\<forall>d\<in>set ds. pd_type d = Padding \<and> id_ok (pd_id d) \<Longrightarrow>
   parse_entries (concat (map entry_bytes ds)) off acc = Ok acc"
proof (induction ds)
  case Nil
  show ?case by (subst parse_entries.simps) simp
qed (simp add: parse_entries_cons)

lemma parse_entries_tiles:
  assumes "tiles off ds" "\<forall>d\<in>set pad. pd_type d = Padding \<and> id_ok (pd_id d)"
  shows "parse_entries (concat (map entry_bytes (ds @ pad))) (word_of_nat off) acc = Ok (acc @ ds)"
  using assms(1)
proof (induction ds arbitrary: off acc)
  case Nil
  show ?case using parse_entries_padding [OF assms(2)] by simp
next
  case (Cons d ds)
  then have "parse_entries (concat (map entry_bytes (ds @ pad))) (word_of_nat (off + unat (pd_length d))) (acc @ [d]) =
      Ok ((acc @ [d]) @ ds)" by (intro Cons.IH) simp
  with Cons.prems show ?case by (cases d) (simp add: parse_entries_cons)
qed

lemma padding_descriptor_simps:
  "pd_type (padding_descriptor r) = Padding" "pd_id (padding_descriptor r) = fst r"
  by (cases r, simp add: padding_descriptor_def)+

lemma round_up_64: "k mod 64 > 0 \<Longrightarrow> (k + 64 - k mod 64) mod 64 = (0 :: nat)"
proof -
  have "k + 64 - k mod 64 = (k - k mod 64) + 64"
    using mod_less_eq_dividend [of k 64] by simp
  then have "k + 64 - k mod 64 = 64 * (k div 64 + 1)" by (simp add: minus_mod_eq_mult_div)
  then show ?thesis by (simp only: mod_mult_self1_is_0)
qed

lemma round_up_64_div: "k + (if k mod 64 \<noteq> 0 then 64 - k mod 64 else 0) = 64 * ((k + 63) div 64)" for k :: nat
proof -
  define q m where "q = k div 64" and "m = k mod 64"
  have k: "k = 64 * q + m" "m < 64" by (simp_all add: q_def m_def)
  then have "(k + 63) div 64 = (if m = 0 then q else q + 1)"
    by (auto simp: div_nat_eqI)
  with k show ?thesis by (simp add: m_def [symmetric])
qed

lemma generate_footer_eq:
  obtains pad where "generate_footer rng ds = (ds @ pad, concat (map entry_bytes (ds @ pad)))"
    "\<forall>d\<in>set pad. pd_type d = Padding \<and> (\<exists>i. pd_id d = fst (rng i))"
    "length (ds @ pad) mod FOOTER_BLOB_MULTIPLE = 0"
proof
  define n where "n = (if length ds mod FOOTER_BLOB_MULTIPLE \<noteq> 0
      then FOOTER_BLOB_MULTIPLE - length ds mod FOOTER_BLOB_MULTIPLE else 0)"
  define pad where "pad = map (\<lambda>i. padding_descriptor (rng i)) [0..<n]"
  show "generate_footer rng ds = (ds @ pad, concat (map entry_bytes (ds @ pad)))"
    by (simp add: generate_footer_def Let_def foldl_footer_entry pad_def n_def)
  show "\<forall>d\<in>set pad. pd_type d = Padding \<and> (\<exists>i. pd_id d = fst (rng i))"
    by (auto simp: pad_def padding_descriptor_simps)
  show "length (ds @ pad) mod FOOTER_BLOB_MULTIPLE = 0"
    using round_up_64 [of "length ds"] by (simp add: pad_def n_def FOOTER_BLOB_MULTIPLE_def)
qed

text \<open>A footer can be parsed from any suffix of the pack that contains it.\<close>

lemma parse_footer_suffix:
  assumes "ss_decode cr ss enc = Ok footer" "length enc < 2 ^ 32"
  shows "parse_footer cr ss (x @ enc @ to_le_bytes 4 (word_of_nat (length enc) :: u32)) =
         parse_entries footer 0 []"
proof -
  have "slice (length x) (length x + length enc) (x @ enc @ to_le_bytes 4 (word_of_nat (length enc) :: u32)) = enc"
    by (rule slice_full_append)
  then show ?thesis
    using assms by (simp add: parse_footer_def Let_def from_to_le_bytes)
qed

section \<open>Properties\<close>

lemma finalize_cases:
  assumes "finalize_and_extract cr rng nonce p = (Ok (Some r), p')"
  obtains pad enc where
    "ss_encode cr (pk_storage p) nonce (concat (map entry_bytes (pk_descriptors p @ pad))) = Ok enc"
    "pf_data r = pk_buffer p @ enc @ to_le_bytes 4 (word_of_nat (length enc) :: u32)"
    "pf_id r = cr_hash cr (pf_data r)" "pf_descriptors r = pk_descriptors p @ pad"
    "\<forall>d\<in>set pad. pd_type d = Padding \<and> (\<exists>i. pd_id d = fst (rng i))"
    "pf_meta_size r = length enc + 4"
    "pk_buffer p \<noteq> []" "p' = recycle_buffer p []"
proof -
  obtain pad where pad: "generate_footer rng (pk_descriptors p) =
      (pk_descriptors p @ pad, concat (map entry_bytes (pk_descriptors p @ pad)))"
    "\<forall>d\<in>set pad. pd_type d = Padding \<and> (\<exists>i. pd_id d = fst (rng i))"
    by (rule generate_footer_eq)
  from assms pad(1) obtain enc where
    "ss_encode cr (pk_storage p) nonce (concat (map entry_bytes (pk_descriptors p @ pad))) = Ok enc"
    by (auto simp: finalize_and_extract_def Let_def split: if_splits sum.splits)
  with assms pad(1) show ?thesis
    by (intro that [of pad enc] pad(2))
      (auto simp: finalize_and_extract_def Let_def recycle_buffer_def split: if_splits)
qed

lemma finalized_parse:
  assumes "crypto_ok cr" "length nonce = 12" "\<forall>i. id_ok (fst (rng i))" "packer_ok p"
    "finalize_and_extract cr rng nonce p = (Ok (Some r), p')"
    "pf_meta_size r < 2 ^ 32" "k \<le> length (pk_buffer p)"
  shows "parse_footer cr (pk_storage p) (drop k (pf_data r)) = Ok (pk_descriptors p) \<and>
         pack_blobs (pf_data r) (pk_descriptors p) = packer_blobs p"
proof -
  from assms(5) obtain pad enc where enc:
      "ss_encode cr (pk_storage p) nonce (concat (map entry_bytes (pk_descriptors p @ pad))) = Ok enc"
    and data: "pf_data r = pk_buffer p @ enc @ to_le_bytes 4 (word_of_nat (length enc) :: u32)"
    and pad: "\<forall>d\<in>set pad. pd_type d = Padding \<and> (\<exists>i. pd_id d = fst (rng i))"
    and meta: "pf_meta_size r = length enc + 4"
    by (rule finalize_cases)
  have "ss_decode cr (pk_storage p) enc = Ok (concat (map entry_bytes (pk_descriptors p @ pad)))"
    using encode_decode_ok [OF assms(1,2) enc] by simp
  then have "parse_footer cr (pk_storage p) (drop k (pf_data r)) =
      parse_entries (concat (map entry_bytes (pk_descriptors p @ pad))) 0 []"
    using parse_footer_suffix [of cr "pk_storage p" enc _ "drop k (pk_buffer p)"] assms(6,7) meta
    by (simp add: data)
  also have "\<dots> = Ok (pk_descriptors p)"
    using parse_entries_tiles [of 0 "pk_descriptors p" pad "[]"] pad assms(3,4)
    by (fastforce simp: packer_ok_def)
  finally show ?thesis
    using pack_blobs_append [of "pk_descriptors p" "pk_buffer p"] assms(4)
    by (simp add: packer_ok_def data)
qed

text \<open>C9: a finalized pack describes itself. The footer read back from the pack, or from any suffix of it
  that still contains the footer, lists exactly the descriptors of the blobs that were added, with
  their offsets, and the bytes at each descriptor are the blob that was added. The encoded footer must
  fit the trailer's \<open>u32\<close>.\<close>

theorem pack_roundtrip:
  assumes "crypto_ok cr" "length nonce = 12" "\<forall>i. id_ok (fst (rng i))" "packer_ok p"
    "finalize_and_extract cr rng nonce p = (Ok (Some r), p')"
    "pf_meta_size r < 2 ^ 32" "k \<le> length (pk_buffer p)"
  shows "parse_footer cr (pk_storage p) (drop k (pf_data r)) = Ok (pk_descriptors p) \<and>
         pack_blobs (pf_data r) (pk_descriptors p) = packer_blobs p"
  using assms by (rule finalized_parse)

text \<open>The length of a footer shows only how many groups of 64 entries it has.\<close>

lemma length_entries:
  "\<forall>d\<in>set ds. id_ok (pd_id d) \<Longrightarrow> length (concat (map entry_bytes ds)) = FOOTER_BLOB_LEN * length ds"
  by (induction ds) (auto simp: length_entry_bytes)

lemma tiles_id_ok: "tiles off ds \<Longrightarrow> \<forall>d\<in>set ds. id_ok (pd_id d)"
  by (induction ds arbitrary: off) auto

lemma footer_length:
  assumes "\<forall>i. id_ok (fst (rng i))" "packer_ok p"
  shows "length (snd (generate_footer rng (pk_descriptors p))) =
         FOOTER_BLOB_LEN * (FOOTER_BLOB_MULTIPLE * ((num_objects p + FOOTER_BLOB_MULTIPLE - 1) div FOOTER_BLOB_MULTIPLE))"
proof -
  let ?n = "num_objects p"
  obtain pad where pad: "generate_footer rng (pk_descriptors p) =
      (pk_descriptors p @ pad, concat (map entry_bytes (pk_descriptors p @ pad)))"
    "\<forall>d\<in>set pad. pd_type d = Padding \<and> (\<exists>i. pd_id d = fst (rng i))"
    by (rule generate_footer_eq)
  have len: "length (pk_descriptors p @ pad) = ?n + (if ?n mod 64 \<noteq> 0 then 64 - ?n mod 64 else 0)"
    using arg_cong [OF pad(1), of "\<lambda>x. length (fst x)"]
    unfolding FOOTER_BLOB_MULTIPLE_def generate_footer_def Let_def num_objects_def by simp
  have "?n + (if ?n mod 64 \<noteq> 0 then 64 - ?n mod 64 else 0) = 64 * ((?n + 63) div 64)"
    by (rule round_up_64_div)
  moreover have "\<forall>d\<in>set (pk_descriptors p @ pad). id_ok (pd_id d)"
    using pad(2) assms tiles_id_ok [of 0 "pk_descriptors p"] by (auto simp: packer_ok_def)
  ultimately show ?thesis
    using length_entries [of "pk_descriptors p @ pad"] len pad(1) by (simp add: FOOTER_BLOB_MULTIPLE_def add.commute)
qed

text \<open>The raw footer is always a multiple of \<open>64 * 41\<close> bytes, at most one group longer than the
  descriptors need, so its size reveals the number of blobs only up to the group.\<close>

theorem footer_length_hidden:
  assumes "\<forall>i. id_ok (fst (rng i))" "packer_ok p"
  shows "length (snd (generate_footer rng (pk_descriptors p))) =
         FOOTER_BLOB_LEN * (FOOTER_BLOB_MULTIPLE * ((num_objects p + FOOTER_BLOB_MULTIPLE - 1) div FOOTER_BLOB_MULTIPLE))"
  using assms by (rule footer_length)

text \<open>\<open>add_blob\<close> appends exactly the given blob and keeps the packer well formed; it fails only when a
  length does not fit in 32 bits.\<close>

theorem add_blob_appends:
  assumes "packer_ok p" "id_ok bid" "t \<noteq> Padding"
  shows "case add_blob p bid t enc raw of
           Inr p' \<Rightarrow> packer_ok p' \<and> packer_blobs p' = packer_blobs p @ [(bid, t, enc)] \<and>
                     pk_size p' = pk_size p + length enc \<and> num_objects p' = num_objects p + 1
         | Inl e \<Rightarrow> e = Integrity \<and> (2 ^ 32 \<le> pk_size p \<or> 2 ^ 32 \<le> length enc \<or> 2 ^ 32 \<le> unat raw)"
proof (cases "add_blob p bid t enc raw")
  case (Inl e)
  then show ?thesis
    by (auto simp: add_blob_def pk_size_def u32_try_from_def bind_result_def ok_or_def split: if_splits)
next
  case (Inr p')
  then have "pk_size p' = pk_size p + length enc \<and> num_objects p' = num_objects p + 1"
    by (auto simp: add_blob_eq pk_size_def num_objects_def)
  then show ?thesis
    using packer_ok_add [OF assms(1) Inr assms(2,3)] packer_blobs_add [OF assms(1) Inr] Inr by simp
qed

section \<open>Reading the footer from a backend\<close>

context storage_backend
begin

lemma parse_pack_footer_reads:
  assumes "inv st" "files st p = Some data"
    and data: "data = x @ enc @ to_le_bytes 4 (word_of_nat (length enc) :: u32)" and "length enc < 2 ^ 32"
  shows "\<exists>st'. parse_pack_footer B cr ss p st = (parse_footer cr ss (enc @ to_le_bytes 4 (word_of_nat (length enc) :: u32)), st')
    \<and> inv st' \<and> files st' = files st"
proof -
  let ?le = "to_le_bytes 4 (word_of_nat (length enc) :: u32)"
  obtain r1 st1 where 1: "be_read B st (handle_new p) (-4) 4 = (r1, st1)" by fastforce
  have st1: "inv st1" "files st1 = files st" and r1: "r1 = Ok ?le"
    using read_file [OF assms(1) 1] assms(2) read_window_suffix [of 4 data]
    by (simp_all add: handle_new_def data)
  obtain r2 st2 where 2: "be_read B st1 (handle_new p) (- (4 + int (length enc))) (4 + length enc) = (r2, st2)"
    by fastforce
  have "inv st2" "files st2 = files st" and "r2 = Ok (enc @ ?le)"
    using read_file [OF st1(1) 2] st1(2) assms(2) read_window_suffix [of "4 + length enc" data]
    by (simp_all add: handle_new_def data)
  with 1 2 r1 assms(4) show ?thesis by (simp add: parse_pack_footer_def from_to_le_bytes Let_def)
qed

end

text \<open>C16: Once a finalized pack has been written to the backend, \<open>parse_pack_footer\<close> recovers its
  descriptors with two ranged reads and changes no file.\<close>

theorem parse_pack_footer_roundtrip:
  assumes "crypto_ok cr" "length nonce = 12" "\<forall>i. id_ok (fst (rng i))" "packer_ok p"
    "finalize_and_extract cr rng nonce p = (Ok (Some r), p')" "pf_meta_size r < 2 ^ 32"
    "mb_inv st" "mb_write st h (pf_data r) = (Ok u, st')"
  shows "\<exists>st''. parse_pack_footer mock_backend cr (pk_storage p) (h_path h) st' = (Ok (pk_descriptors p), st'') \<and>
                mb_files st'' = mb_files st'"
proof -
  from assms(5) obtain pad enc where
    data: "pf_data r = pk_buffer p @ enc @ to_le_bytes 4 (word_of_nat (length enc) :: u32)"
    and meta: "pf_meta_size r = length enc + 4" by (rule finalize_cases)
  have "mb_inv st'" "mb_files st' (h_path h) = Some (pf_data r)"
    using mb_write_spec [OF assms(7,8)] by simp_all
  then obtain st'' where "parse_pack_footer mock_backend cr (pk_storage p) (h_path h) st' =
      (parse_footer cr (pk_storage p) (enc @ to_le_bytes 4 (word_of_nat (length enc) :: u32)), st'')"
    "mb_files st'' = mb_files st'"
    using mock.parse_pack_footer_reads [OF _ _ data] meta assms(6) by fastforce
  moreover have "parse_footer cr (pk_storage p) (enc @ to_le_bytes 4 (word_of_nat (length enc) :: u32)) = Ok (pk_descriptors p)"
    using finalized_parse [OF assms(1-6), of "length (pk_buffer p)"] by (simp add: data)
  ultimately show ?thesis by simp
qed

section \<open>Witnesses\<close>

definition demo_rng :: pad_rng where
  "demo_rng i = (ID (replicate 32 (word_of_nat i)), 0, 1, 2)"

definition demo_packer :: Packer where
  "demo_packer =
     \<lparr>pk_instance_id = 1, pk_buffer = [1, 2, 3, 4, 5],
      pk_descriptors =
        [\<lparr>pd_id = ID (replicate 32 7), pd_type = Data, pd_offset = 0, pd_length = 2, pd_raw_length = 2\<rparr>,
         \<lparr>pd_id = ID (replicate 32 8), pd_type = Data, pd_offset = 2, pd_length = 3, pd_raw_length = 3\<rparr>],
      pk_raw_size = 5, pk_storage = demo_ss\<rparr>"

lemma demo_rng_ok: "\<forall>i. id_ok (fst (demo_rng i))"
  by (simp add: demo_rng_def id_ok_def ID_LENGTH_def)

lemma demo_packer_ok: "packer_ok demo_packer"
  by (simp add: packer_ok_def demo_packer_def id_ok_def ID_LENGTH_def)

lemma demo_finalize:
  obtains r where "finalize_and_extract demo_crypto demo_rng (replicate 12 1) demo_packer =
      (Ok (Some r), recycle_buffer demo_packer [])" "pf_meta_size r < 2 ^ 32"
proof -
  let ?f = "snd (generate_footer demo_rng (pk_descriptors demo_packer))"
  obtain e where e: "ss_encode demo_crypto demo_ss (replicate 12 1) ?f = Ok e" "length e = length ?f + 28"
    by (simp add: ss_encode_def transform_into_def ss_compress_def demo_crypto_def)
  have "length ?f = 2624"
    using footer_length [OF demo_rng_ok demo_packer_ok]
    by (simp add: num_objects_def demo_packer_def FOOTER_BLOB_MULTIPLE_def FOOTER_BLOB_LEN_def)
  with e have "\<exists>r. finalize_and_extract demo_crypto demo_rng (replicate 12 1) demo_packer =
      (Ok (Some r), recycle_buffer demo_packer []) \<and> pf_meta_size r < 2 ^ 32"
    by (auto simp: finalize_and_extract_def Let_def demo_packer_def recycle_buffer_def split: prod.splits)
  with that show ?thesis by blast
qed

theorem pack_roundtrip_witness:
  "\<exists>r p'. finalize_and_extract demo_crypto demo_rng (replicate 12 1) demo_packer = (Ok (Some r), p') \<and>
     parse_footer demo_crypto demo_ss (pf_data r) = Ok (pk_descriptors demo_packer)"
proof -
  obtain r where r: "finalize_and_extract demo_crypto demo_rng (replicate 12 1) demo_packer =
      (Ok (Some r), recycle_buffer demo_packer [])" "pf_meta_size r < 2 ^ 32" by (rule demo_finalize)
  from pack_roundtrip [OF demo_crypto_ok _ demo_rng_ok demo_packer_ok r, of 0] r show ?thesis
    by (simp add: demo_packer_def)
qed

theorem footer_length_hidden_witness:
  "length (snd (generate_footer demo_rng (pk_descriptors demo_packer))) = 41 * 64"
  using footer_length_hidden [OF demo_rng_ok demo_packer_ok]
  by (simp add: num_objects_def demo_packer_def FOOTER_BLOB_MULTIPLE_def FOOTER_BLOB_LEN_def)

theorem add_blob_appends_witness:
  "case add_blob demo_packer (ID (replicate 32 3)) Tree [9, 9] 2 of
     Inr p' \<Rightarrow> packer_ok p' \<and> pk_size p' = 7 | Inl e \<Rightarrow> False"
  using add_blob_appends [OF demo_packer_ok, of "ID (replicate 32 3)" Tree "[9, 9]" 2]
  by (simp add: id_ok_def ID_LENGTH_def demo_packer_def pk_size_def split: sum.splits)

theorem parse_pack_footer_roundtrip_witness:
  "\<exists>r p' st' st''. finalize_and_extract demo_crypto demo_rng (replicate 12 1) demo_packer = (Ok (Some r), p') \<and>
     mb_write (mock_new 0) (handle_new [''p'']) (pf_data r) = (Ok (), st') \<and>
     parse_pack_footer mock_backend demo_crypto demo_ss [''p''] st' = (Ok (pk_descriptors demo_packer), st'')"
proof -
  obtain r where r: "finalize_and_extract demo_crypto demo_rng (replicate 12 1) demo_packer =
      (Ok (Some r), recycle_buffer demo_packer [])" "pf_meta_size r < 2 ^ 32" by (rule demo_finalize)
  obtain st' where w: "mb_write (mock_new 0) (handle_new [''p'']) (pf_data r) = (Ok (), st')"
    by (simp add: mb_write_def mock_new_def mb_exec_no_hooks as_unit_def Let_def)
  have "mb_inv (mock_new 0)" by (simp add: mb_inv_def mock_new_def)
  from parse_pack_footer_roundtrip [OF demo_crypto_ok _ demo_rng_ok demo_packer_ok r this w] r w show ?thesis
    by (simp add: demo_packer_def handle_new_def) metis
qed

end
