(* ===== verification/Stats.thy ===== *)
theory Stats
  imports Prelude
begin

text \<open>
  The byte counters of \<open>repository/repo.rs\<close>: \<open>SizePair\<close> with its addition, and the repository's atomic
  statistics with \<open>reset\<close> and \<open>snapshot\<close>. All counters are \<open>u64\<close> and wrap.
\<close>

section \<open>Sizes\<close>

record SizePair =
  sp_raw :: u64
  sp_encoded :: u64

definition sp_new :: "u64 \<Rightarrow> u64 \<Rightarrow> SizePair" where
  "sp_new raw encoded = \<lparr>sp_raw = raw, sp_encoded = encoded\<rparr>"

definition sp_zero :: SizePair where
  "sp_zero = \<lparr>sp_raw = 0, sp_encoded = 0\<rparr>"

definition sp_add :: "SizePair \<Rightarrow> SizePair \<Rightarrow> SizePair" where
  "sp_add a b = \<lparr>sp_raw = sp_raw a + sp_raw b, sp_encoded = sp_encoded a + sp_encoded b\<rparr>"

lemma sp_add_zero [simp]: "sp_add sp_zero a = a" "sp_add a sp_zero = a"
  by (simp_all add: sp_add_def sp_zero_def)

lemma sp_add_assoc: "sp_add (sp_add a b) c = sp_add a (sp_add b c)"
  by (simp add: sp_add_def)

section \<open>Repository statistics\<close>

record RepoStats =
  rs_raw_bytes :: u64
  rs_encoded_bytes :: u64
  rs_data_blobs :: u64
  rs_meta_raw_bytes :: u64
  rs_meta_encoded_bytes :: u64
  rs_meta_blobs :: u64
  rs_index_raw_bytes :: u64
  rs_index_meta_bytes :: u64

definition stats_reset :: "RepoStats \<Rightarrow> RepoStats" where
  "stats_reset s = \<lparr>rs_raw_bytes = 0, rs_encoded_bytes = 0, rs_data_blobs = 0, rs_meta_raw_bytes = 0,
     rs_meta_encoded_bytes = 0, rs_meta_blobs = 0, rs_index_raw_bytes = 0, rs_index_meta_bytes = 0\<rparr>"

record RepoStatsSnapshot =
  sn_data :: SizePair
  sn_meta :: SizePair
  sn_total :: SizePair
  sn_blobs :: u64
  sn_meta_blobs :: u64
  sn_index :: SizePair

definition stats_snapshot :: "RepoStats \<Rightarrow> RepoStatsSnapshot" where
  "stats_snapshot s =
     (let rb = rs_raw_bytes s; eb = rs_encoded_bytes s; mrb = rs_meta_raw_bytes s; meb = rs_meta_encoded_bytes s
      in \<lparr>sn_data = sp_new rb eb, sn_meta = sp_new mrb meb, sn_total = sp_new (rb + mrb) (eb + meb),
          sn_blobs = rs_data_blobs s, sn_meta_blobs = rs_meta_blobs s,
          sn_index = sp_new (rs_index_raw_bytes s) (rs_index_meta_bytes s)\<rparr>)"

lemma snapshot_total: "sn_total (stats_snapshot s) = sp_add (sn_data (stats_snapshot s)) (sn_meta (stats_snapshot s))"
  by (simp add: stats_snapshot_def Let_def sp_new_def sp_add_def)

end
