(* ===== verification/PackSaver.thy ===== *)
theory PackSaver
  imports Packer Stats "HOL-Library.Multiset"
begin

text \<open>
  The pack saver of \<open>repository/packer.rs\<close> as a state machine: the main loop (\<open>PackSaver::run\<close>,
  \<open>dispatch_packer\<close>), the worker threads started by \<open>PackSaver::new\<close>, and the two bounded channels
  between them. One step is one action of one thread, so the reachable states are those of every
  interleaving.

  \<^item> \<open>main_step\<close> is the main thread; \<open>None\<close> means it waits on a channel.
  \<^item> \<open>worker_step i ev\<close> is worker \<open>i\<close>. The event \<open>ev\<close> holds what the environment decides when a pack is
    processed: the random padding, the nonce, whether the repository still exists, and the outcome of
    \<open>save_file\<close> and of the index's \<open>add_pack\<close>.
  \<^item> \<open>ps_uploaded\<close> and \<open>ps_indexed\<close> list the packs whose \<open>save_file\<close> and whose \<open>add_pack\<close> succeeded.

  A channel is disconnected once every worker has stopped: the coordinator thread keeps its own ends
  until it has joined them. The requests that will arrive before the sender is dropped are \<open>ps_rx\<close>.
\<close>

section \<open>State\<close>

record SaveBlob =
  rq_id :: ID
  rq_type :: BlobType
  rq_data :: bytes
  rq_raw_length :: u64

text \<open>A worker waits, processes a packer, hands one back, or has returned. What it does after handing a
  packer back depends on the branch: always go on, go on only if the send succeeded, or stop.\<close>

datatype after_send = AContinue | ANext | AStop

datatype worker = WIdle | WBusy Packer BlobType | WReturn Packer after_send | WStopped

text \<open>Where the main thread is: receiving, in a \<open>dispatch_packer\<close> called from the loop, in one of the two
  final flushes, joining the workers, or returned.\<close>

datatype phase = PRecv | PDispatch BlobType | PFlushData | PFlushTree | PJoin | PDone "unit result"

record saver =
  ps_rx :: "SaveBlob list"
  ps_data :: Packer
  ps_tree :: Packer
  ps_max :: nat
  ps_full :: "(Packer \<times> BlobType) list"
  ps_empty :: "Packer list"
  ps_workers :: "worker list"
  ps_err :: "MapacheError option"
  ps_phase :: phase
  ps_uploaded :: "PackFinalizationResult list"
  ps_indexed :: "PackFinalizationResult list"
  ps_stats :: RepoStats

text \<open>\<open>PackSaver::new\<close>: \<open>n + 2\<close> packers are created, two of them become the active slots.\<close>

definition saver_new :: "SaveBlob list \<Rightarrow> SecureStorage \<Rightarrow> nat \<Rightarrow> nat \<Rightarrow> RepoStats \<Rightarrow> saver" where
  "saver_new rx ss max_packer_size num_packers stats =
     (let pool = map (\<lambda>i. packer_new (word_of_nat (i + 1)) ss) [0..<num_packers + 2]
      in \<lparr>ps_rx = rx, ps_data = pool ! 0, ps_tree = pool ! 1, ps_max = max_packer_size, ps_full = [],
          ps_empty = drop 2 pool, ps_workers = replicate num_packers WIdle, ps_err = None,
          ps_phase = PRecv, ps_uploaded = [], ps_indexed = [], ps_stats = stats\<rparr>)"

definition all_stopped :: "saver \<Rightarrow> bool" where
  "all_stopped s \<longleftrightarrow> (\<forall>w\<in>set (ps_workers s). w = WStopped)"

definition slot :: "saver \<Rightarrow> BlobType \<Rightarrow> Packer" where
  "slot s t = (case t of Data \<Rightarrow> ps_data s | _ \<Rightarrow> ps_tree s)"

definition set_slot :: "saver \<Rightarrow> BlobType \<Rightarrow> Packer \<Rightarrow> saver" where
  "set_slot s t p = (case t of Data \<Rightarrow> s\<lparr>ps_data := p\<rparr> | _ \<Rightarrow> s\<lparr>ps_tree := p\<rparr>)"

section \<open>The main thread\<close>

text \<open>\<open>dispatch_packer\<close>, continuing in phase \<open>k\<close>. It waits while the pool is empty or the work queue full and a
  worker is left; with no worker left the receive or the send fails.\<close>

definition dispatch_packer :: "saver \<Rightarrow> BlobType \<Rightarrow> phase \<Rightarrow> saver option" where
  "dispatch_packer s blob_type k =
     (if blob_type = Padding \<or> pk_is_empty (slot s blob_type) then Some (s\<lparr>ps_phase := k\<rparr>)
      else case ps_empty s of
          [] \<Rightarrow> if all_stopped s then Some (s\<lparr>ps_phase := PDone (Err Repo)\<rparr>) else None
        | new_packer # pool \<Rightarrow>
            if all_stopped s then Some ((set_slot s blob_type new_packer)\<lparr>ps_empty := pool, ps_phase := PDone (Err Repo)\<rparr>)
            else if length (ps_full s) < length (ps_workers s) then
              Some ((set_slot s blob_type new_packer)\<lparr>ps_empty := pool,
                      ps_full := ps_full s @ [(slot s blob_type, blob_type)], ps_phase := k\<rparr>)
            else None)"

definition main_step :: "saver \<Rightarrow> saver option" where
  "main_step s =
     (case ps_phase s of
        PRecv \<Rightarrow>
          (case ps_rx s of
             [] \<Rightarrow> Some (s\<lparr>ps_phase := PFlushData\<rparr>)
           | r # rest \<Rightarrow>
               if rq_type r = Padding then Some (s\<lparr>ps_rx := rest\<rparr>)
               else
                 (case add_blob (slot s (rq_type r)) (rq_id r) (rq_type r) (rq_data r) (rq_raw_length r) of
                    Inl e \<Rightarrow> Some (s\<lparr>ps_rx := rest, ps_phase := PDone (Err e)\<rparr>)
                  | Inr p \<Rightarrow>
                      let s1 = (set_slot s (rq_type r) p)\<lparr>ps_rx := rest\<rparr>
                      in if pk_size p \<ge> ps_max s then Some (s1\<lparr>ps_phase := PDispatch (rq_type r)\<rparr>)
                         else Some s1))
      | PDispatch t \<Rightarrow> dispatch_packer s t PRecv
      | PFlushData \<Rightarrow> dispatch_packer s Data PFlushTree
      | PFlushTree \<Rightarrow> dispatch_packer s Tree PJoin
      | PJoin \<Rightarrow>
          if all_stopped s
          then Some (s\<lparr>ps_phase := PDone (case ps_err s of None \<Rightarrow> Ok () | Some e \<Rightarrow> Err e)\<rparr>)
          else None
      | PDone _ \<Rightarrow> None)"

section \<open>The workers\<close>

definition update_stats :: "RepoStats \<Rightarrow> u64 \<Rightarrow> u64 \<Rightarrow> u64 \<Rightarrow> u64 \<Rightarrow> SizePair \<Rightarrow> BlobType \<Rightarrow> RepoStats" where
  "update_stats s raw_size encoded_size meta_size num_blobs index blob_type =
     (let s1 = (case blob_type of
          Data \<Rightarrow> s\<lparr>rs_raw_bytes := rs_raw_bytes s + raw_size,
                    rs_encoded_bytes := rs_encoded_bytes s + (encoded_size - meta_size),
                    rs_meta_raw_bytes := rs_meta_raw_bytes s + meta_size,
                    rs_meta_encoded_bytes := rs_meta_encoded_bytes s + meta_size,
                    rs_data_blobs := rs_data_blobs s + num_blobs\<rparr>
        | Tree \<Rightarrow> s\<lparr>rs_meta_raw_bytes := rs_meta_raw_bytes s + (raw_size + meta_size),
                    rs_meta_encoded_bytes := rs_meta_encoded_bytes s + encoded_size,
                    rs_meta_blobs := rs_meta_blobs s + num_blobs\<rparr>
        | Padding \<Rightarrow> s)
      in s1\<lparr>rs_index_raw_bytes := rs_index_raw_bytes s1 + sp_raw index,
            rs_index_meta_bytes := rs_index_meta_bytes s1 + sp_encoded index\<rparr>)"

datatype outcome = Saved SizePair | UploadFails MapacheError | IndexFails MapacheError

record event =
  ev_rng :: pad_rng
  ev_nonce :: bytes
  ev_repo_alive :: bool
  ev_outcome :: outcome

text \<open>The body of a worker's loop after \<open>recv\<close>.\<close>

definition process_pack :: "crypto \<Rightarrow> event \<Rightarrow> saver \<Rightarrow> Packer \<Rightarrow> BlobType \<Rightarrow> worker \<times> saver" where
  "process_pack cr ev s packer blob_type =
     (case finalize_and_extract cr (ev_rng ev) (ev_nonce ev) packer of
        (Inl e, p) \<Rightarrow> (WReturn p AStop, s\<lparr>ps_err := Some e\<rparr>)
      | (Inr None, p) \<Rightarrow> (WReturn p AContinue, s)
      | (Inr (Some res), p) \<Rightarrow>
          if \<not> ev_repo_alive ev then (WReturn p AStop, s)
          else
            case ev_outcome ev of
              UploadFails e \<Rightarrow> (WReturn (recycle_buffer p (pf_data res)) AStop, s\<lparr>ps_err := Some Backend\<rparr>)
            | IndexFails e \<Rightarrow>
                (WReturn (recycle_buffer p (pf_data res)) AStop,
                 s\<lparr>ps_err := Some Repo, ps_uploaded := ps_uploaded s @ [res]\<rparr>)
            | Saved index_size \<Rightarrow>
                (WReturn (recycle_buffer p (pf_data res)) ANext,
                 s\<lparr>ps_uploaded := ps_uploaded s @ [res], ps_indexed := ps_indexed s @ [res],
                   ps_stats := update_stats (ps_stats s) (pf_raw_size res) (word_of_nat (pf_encoded_size res))
                     (word_of_nat (pf_meta_size res)) (word_of_nat (length (pf_descriptors res))) index_size blob_type\<rparr>))"

text \<open>The sender of the work queue is dropped before the join and on every early return.\<close>

definition queue_closed :: "saver \<Rightarrow> bool" where
  "queue_closed s \<longleftrightarrow> (case ps_phase s of PJoin \<Rightarrow> True | PDone _ \<Rightarrow> True | _ \<Rightarrow> False)"

text \<open>The receiver of the pool is dropped when \<open>run\<close> returns: sends fail from then on.\<close>

definition main_returned :: "saver \<Rightarrow> bool" where
  "main_returned s \<longleftrightarrow> (case ps_phase s of PDone _ \<Rightarrow> True | _ \<Rightarrow> False)"

definition worker_step :: "crypto \<Rightarrow> nat \<Rightarrow> event \<Rightarrow> saver \<Rightarrow> saver option" where
  "worker_step cr i ev s =
     (if i \<ge> length (ps_workers s) then None
      else case ps_workers s ! i of
          WIdle \<Rightarrow>
            (case ps_full s of
               [] \<Rightarrow> if queue_closed s then Some (s\<lparr>ps_workers := (ps_workers s)[i := WStopped]\<rparr>) else None
             | (packer, t) # rest \<Rightarrow>
                 if ps_err s \<noteq> None then Some (s\<lparr>ps_full := rest, ps_workers := (ps_workers s)[i := WStopped]\<rparr>)
                 else Some (s\<lparr>ps_full := rest, ps_workers := (ps_workers s)[i := WBusy packer t]\<rparr>))
        | WBusy packer t \<Rightarrow>
            (case process_pack cr ev s packer t of
               (w, s1) \<Rightarrow> Some (s1\<lparr>ps_workers := (ps_workers s)[i := w]\<rparr>))
        | WReturn packer after \<Rightarrow>
            (if main_returned s
             then Some (s\<lparr>ps_workers := (ps_workers s)[i := if after = AContinue then WIdle else WStopped]\<rparr>)
             else Some (s\<lparr>ps_empty := ps_empty s @ [packer],
                          ps_workers := (ps_workers s)[i := if after = AStop then WStopped else WIdle]\<rparr>))
        | WStopped \<Rightarrow> None)"

text \<open>One step of the system. The events are those where the repository has not been dropped; nonces
  have the cipher's length and random ids 32 bytes.\<close>

definition event_ok :: "event \<Rightarrow> bool" where
  "event_ok ev \<longleftrightarrow> ev_repo_alive ev \<and> length (ev_nonce ev) = 12 \<and> (\<forall>k. id_ok (fst (ev_rng ev k)))"

inductive saver_step :: "crypto \<Rightarrow> saver \<Rightarrow> saver \<Rightarrow> bool" for cr where
  main: "main_step s = Some s' \<Longrightarrow> saver_step cr s s'"
| work: "event_ok ev \<Longrightarrow> worker_step cr i ev s = Some s' \<Longrightarrow> saver_step cr s s'"

inductive_cases saver_stepE: "saver_step cr s s'"

abbreviation saver_reach :: "crypto \<Rightarrow> saver \<Rightarrow> saver \<Rightarrow> bool" where
  "saver_reach cr \<equiv> (saver_step cr)\<^sup>*\<^sup>*"

section \<open>Termination: every step uses something up\<close>

definition packer_weight :: "Packer \<Rightarrow> nat" where
  "packer_weight p = (if pk_is_empty p then 0 else 4)"

definition worker_weight :: "worker \<Rightarrow> nat" where
  "worker_weight w =
     (case w of WIdle \<Rightarrow> 10 | WBusy _ _ \<Rightarrow> 13 | WStopped \<Rightarrow> 0
      | WReturn p a \<Rightarrow> (if a = AStop then 0 else 10) + 2 + packer_weight p)"

definition phase_weight :: "phase \<Rightarrow> nat" where
  "phase_weight k =
     (case k of PDispatch _ \<Rightarrow> 5 | PRecv \<Rightarrow> 4 | PFlushData \<Rightarrow> 3 | PFlushTree \<Rightarrow> 2 | PJoin \<Rightarrow> 1 | PDone _ \<Rightarrow> 0)"

definition saver_measure :: "saver \<Rightarrow> nat" where
  "saver_measure s =
     8 * length (ps_rx s) + packer_weight (ps_data s) + packer_weight (ps_tree s)
     + sum_list (map packer_weight (ps_empty s)) + 4 * length (ps_full s)
     + sum_list (map worker_weight (ps_workers s)) + phase_weight (ps_phase s)"

lemma sum_list_map_update:
  fixes f :: "'a \<Rightarrow> 'm::cancel_comm_monoid_add"
  assumes "i < length ws"
  shows "sum_list (map f (ws[i := w])) + f (ws ! i) = sum_list (map f ws) + f w"
  using assms
proof (induction ws arbitrary: i)
  case (Cons a ws)
  show ?case
  proof (cases i)
    case (Suc j)
    with Cons.IH [of j] Cons.prems show ?thesis by (simp add: add.assoc)
  qed (simp add: add.commute add.left_commute)
qed simp

lemma packer_weight_le: "packer_weight p \<le> 4"
  by (simp add: packer_weight_def)

lemma phase_weight_simps [simp]:
  "phase_weight (PDispatch t) = 5" "phase_weight PRecv = 4" "phase_weight PFlushData = 3"
  "phase_weight PFlushTree = 2" "phase_weight PJoin = 1" "phase_weight (PDone r) = 0"
  by (simp_all add: phase_weight_def)

lemma packer_weight_full: "\<not> pk_is_empty p \<Longrightarrow> packer_weight p = 4"
  by (simp add: packer_weight_def)

lemma dispatch_measure:
  assumes "dispatch_packer s t k = Some s'" "phase_weight k < phase_weight (ps_phase s)"
  shows "saver_measure s' < saver_measure s"
  using assms
  by (cases t; cases "ps_empty s")
    (auto simp: dispatch_packer_def saver_measure_def slot_def set_slot_def packer_weight_full split: if_splits)

lemma main_step_measure:
  assumes "main_step s = Some s'"
  shows "saver_measure s' < saver_measure s"
proof (cases "ps_phase s")
  case PRecv
  show ?thesis
  proof (cases "ps_rx s")
    case (Cons r rest)
    have "packer_weight p \<le> 4" for p by (rule packer_weight_le)
    with assms PRecv Cons show ?thesis
      by (auto simp: main_step_def saver_measure_def phase_weight_def set_slot_def Let_def packer_weight_def
          split: if_splits sum.splits BlobType.splits)
  qed (use assms PRecv in \<open>auto simp: main_step_def saver_measure_def phase_weight_def\<close>)
qed (use assms dispatch_measure [of s] in
    \<open>auto simp: main_step_def saver_measure_def phase_weight_def split: if_splits\<close>)

lemma process_pack_measure:
  assumes "process_pack cr ev s p t = (w, s1)"
  shows "worker_weight w < 13 \<and> ps_rx s1 = ps_rx s \<and> ps_data s1 = ps_data s \<and> ps_tree s1 = ps_tree s \<and>
     ps_empty s1 = ps_empty s \<and> ps_full s1 = ps_full s \<and> ps_phase s1 = ps_phase s \<and> ps_workers s1 = ps_workers s \<and>
     ps_max s1 = ps_max s"
  using assms
  by (auto simp: process_pack_def worker_weight_def packer_weight_def pk_is_empty_def recycle_buffer_def
      finalize_and_extract_def Let_def split: prod.splits sum.splits option.splits if_splits outcome.splits)

lemma worker_step_measure:
  assumes "worker_step cr i ev s = Some s'"
  shows "saver_measure s' < saver_measure s"
proof -
  have i: "i < length (ps_workers s)" using assms by (simp add: worker_step_def split: if_splits)
  note upd = sum_list_map_update [OF i, of worker_weight]
  show ?thesis
  proof (cases "ps_workers s ! i")
    case WIdle
    then show ?thesis using assms i upd [of WStopped] upd [of "WBusy _ _"]
      by (auto simp: worker_step_def saver_measure_def worker_weight_def split: list.splits if_splits)
  next
    case (WBusy p t)
    obtain w s1 where pp: "process_pack cr ev s p t = (w, s1)" by fastforce
    with assms i WBusy have "s' = s1\<lparr>ps_workers := (ps_workers s)[i := w]\<rparr>" by (simp add: worker_step_def)
    with process_pack_measure [OF pp] upd [of w] WBusy show ?thesis
      by (simp add: saver_measure_def worker_weight_def)
  next
    case (WReturn p a)
    then show ?thesis using assms i upd [of WIdle] upd [of WStopped]
      by (auto simp: worker_step_def saver_measure_def worker_weight_def split: if_splits)
  qed (use assms i in \<open>simp add: worker_step_def\<close>)
qed

lemma saver_step_measure: "saver_step cr s s' \<Longrightarrow> saver_measure s' < saver_measure s"
  by (auto elim!: saver_stepE dest: main_step_measure worker_step_measure)

lemma sum_list_le_length: "(\<And>x. x \<in> set xs \<Longrightarrow> f x \<le> (1 :: nat)) \<Longrightarrow> sum_list (map f xs) \<le> length xs"
  by (induction xs) fastforce+

section \<open>Packers are neither lost nor duplicated\<close>

definition held :: "worker \<Rightarrow> nat" where
  "held w = (case w of WBusy _ _ \<Rightarrow> 1 | WReturn _ _ \<Rightarrow> 1 | _ \<Rightarrow> 0)"

definition stopped :: "worker \<Rightarrow> nat" where
  "stopped w = (if w = WStopped then 1 else 0)"

definition in_flight :: "saver \<Rightarrow> nat" where
  "in_flight s = length (ps_full s) + sum_list (map held (ps_workers s)) + length (ps_empty s)"

text \<open>At most one packer per worker is outside the two active slots; while the main thread runs, one is
  missing only for a worker that has stopped.\<close>

definition pool_inv :: "nat \<Rightarrow> saver \<Rightarrow> bool" where
  "pool_inv n s \<longleftrightarrow> length (ps_workers s) = n \<and> in_flight s \<le> n \<and>
     (\<not> main_returned s \<longrightarrow> n \<le> in_flight s + sum_list (map stopped (ps_workers s)))"

lemma saver_new_simps [simp]:
  "ps_rx (saver_new rx ss m n st) = rx" "ps_full (saver_new rx ss m n st) = []"
  "ps_workers (saver_new rx ss m n st) = replicate n WIdle" "ps_err (saver_new rx ss m n st) = None"
  "ps_phase (saver_new rx ss m n st) = PRecv" "ps_indexed (saver_new rx ss m n st) = []"
  "ps_uploaded (saver_new rx ss m n st) = []" "length (ps_empty (saver_new rx ss m n st)) = n"
  by (simp_all add: saver_new_def Let_def del: upt_Suc)

lemma saver_new_packers:
  "\<exists>i. ps_data (saver_new rx ss m n st) = packer_new i ss" "\<exists>i. ps_tree (saver_new rx ss m n st) = packer_new i ss"
  "p \<in> set (ps_empty (saver_new rx ss m n st)) \<Longrightarrow> \<exists>i. p = packer_new i ss"
  by (auto simp: saver_new_def Let_def simp del: upt_Suc dest!: in_set_dropD)

lemma pool_inv_new: "pool_inv n (saver_new rx ss m n st)"
  by (simp add: pool_inv_def in_flight_def held_def main_returned_def sum_list_replicate)

lemma pool_inv_dispatch: "pool_inv n s \<Longrightarrow> dispatch_packer s t k = Some s' \<Longrightarrow> \<not> main_returned s \<Longrightarrow> pool_inv n s'"
  by (cases t; cases "ps_empty s")
    (auto simp: dispatch_packer_def pool_inv_def in_flight_def set_slot_def main_returned_def split: if_splits)

lemma pool_inv_main: 
  assumes "pool_inv n s" "main_step s = Some s'"
  shows "pool_inv n s'"
proof (cases "ps_phase s")
  case PRecv
  with assms show ?thesis
    by (auto simp: main_step_def pool_inv_def in_flight_def set_slot_def main_returned_def Let_def
        split: list.splits if_splits sum.splits BlobType.splits)
next
  case PJoin
  with assms show ?thesis
    by (auto simp: main_step_def pool_inv_def in_flight_def main_returned_def split: if_splits)
qed (use assms pool_inv_dispatch [of n s] in \<open>auto simp: main_step_def main_returned_def\<close>)

lemma pool_inv_worker:
  assumes "pool_inv n s" "worker_step cr i ev s = Some s'"
  shows "pool_inv n s'"
proof -
  have i: "i < length (ps_workers s)" using assms(2) by (simp add: worker_step_def split: if_splits)
  note updh = sum_list_map_update [OF i, of held] and upds = sum_list_map_update [OF i, of stopped]
  show ?thesis
  proof (cases "ps_workers s ! i")
    case WIdle
    then show ?thesis
      using assms i updh [of WStopped] upds [of WStopped] updh [of "WBusy _ _"] upds [of "WBusy _ _"]
      by (auto simp: worker_step_def pool_inv_def in_flight_def held_def stopped_def main_returned_def
          split: list.splits if_splits)
  next
    case (WBusy p t)
    obtain w s1 where pp: "process_pack cr ev s p t = (w, s1)" by fastforce
    then have w: "held w = 1" "stopped w = 0"
      by (auto simp: process_pack_def held_def stopped_def split: prod.splits sum.splits option.splits if_splits outcome.splits)
    from assms i WBusy pp have "s' = s1\<lparr>ps_workers := (ps_workers s)[i := w]\<rparr>" by (simp add: worker_step_def)
    with process_pack_measure [OF pp] updh [of w] upds [of w] w WBusy assms(1) show ?thesis
      by (simp add: pool_inv_def in_flight_def held_def stopped_def main_returned_def)
  next
    case (WReturn p a)
    then show ?thesis
      using assms i updh [of WIdle] upds [of WIdle] updh [of WStopped] upds [of WStopped]
      by (auto simp: worker_step_def pool_inv_def in_flight_def held_def stopped_def main_returned_def split: if_splits)
  qed (use assms i in \<open>simp add: worker_step_def\<close>)
qed

lemma pool_inv_reach:
  assumes "saver_reach cr (saver_new rx ss m n st) s"
  shows "pool_inv n s"
  using assms
  by (induction rule: rtranclp_induct)
    (auto simp: pool_inv_new elim!: saver_stepE intro: pool_inv_main pool_inv_worker)

lemma dispatch_enabled:
  assumes "pool_inv n s" "dispatch_packer s t k = None"
  shows "ps_empty s = [] \<and> \<not> all_stopped s"
  using assms
  by (cases "ps_empty s") (auto simp: dispatch_packer_def pool_inv_def in_flight_def split: if_splits)

lemma held_enabled:
  assumes "i < length (ps_workers s)" "held (ps_workers s ! i) = 1"
  shows "\<exists>s'. worker_step cr i ev s = Some s'"
  using assms by (auto simp: worker_step_def held_def split: worker.splits prod.splits)

lemma idle_enabled:
  assumes "i < length (ps_workers s)" "ps_workers s ! i = WIdle" "ps_full s \<noteq> [] \<or> queue_closed s"
  shows "\<exists>s'. worker_step cr i ev s = Some s'"
  using assms by (cases "ps_full s") (auto simp: worker_step_def)

definition some_event :: event where
  "some_event = \<lparr>ev_rng = demo_rng, ev_nonce = replicate 12 0, ev_repo_alive = True, ev_outcome = UploadFails Io\<rparr>"

lemma some_event_ok: "event_ok some_event"
  by (simp add: event_ok_def some_event_def demo_rng_ok)

lemma not_stopped_enabled:
  assumes "pool_inv n s" "\<not> all_stopped s" "ps_empty s = [] \<or> queue_closed s" "\<not> main_returned s"
  shows "\<exists>s'. saver_step cr s s'"
proof (cases "\<exists>i<length (ps_workers s). held (ps_workers s ! i) = 1")
  case True
  then show ?thesis using held_enabled some_event_ok by (blast intro: saver_step.work)
next
  case False
  then have zero: "held w = 0" if "w \<in> set (ps_workers s)" for w
    using that by (fastforce simp: held_def in_set_conv_nth split: worker.splits)
  obtain i where i: "i < length (ps_workers s)" "ps_workers s ! i \<noteq> WStopped"
    using assms(2) by (auto simp: all_stopped_def in_set_conv_nth)
  then have idle: "ps_workers s ! i = WIdle"
    using zero [of "ps_workers s ! i"] by (auto simp: held_def split: worker.splits)
  have "sum_list (map stopped ((ps_workers s)[i := WStopped])) \<le> length (ps_workers s)"
    using sum_list_le_length [of "(ps_workers s)[i := WStopped]" stopped] by (simp add: stopped_def)
  then have "sum_list (map stopped (ps_workers s)) < length (ps_workers s)"
    using sum_list_map_update [OF i(1), of stopped WStopped] idle by (simp add: stopped_def)
  moreover have "sum_list (map held (ps_workers s)) = 0" using zero by (simp add: sum_list_eq_0_iff)
  ultimately have "length (ps_full s) + length (ps_empty s) > 0"
    using assms(1,4) unfolding pool_inv_def in_flight_def by linarith
  then have "ps_full s \<noteq> [] \<or> queue_closed s" using assms(3) by auto
  from idle_enabled [OF i(1) idle this] some_event_ok show ?thesis by (blast intro: saver_step.work)
qed

lemma saver_progress:
  assumes "saver_reach cr (saver_new rx ss m n st) s" "\<not> main_returned s"
  shows "\<exists>s'. saver_step cr s s'"
proof -
  have inv: "pool_inv n s" by (rule pool_inv_reach [OF assms(1)])
  show ?thesis
  proof (cases "main_step s")
    case None
    then consider "ps_empty s = []" "\<not> all_stopped s" | "ps_phase s = PJoin" "\<not> all_stopped s"
      using assms(2) dispatch_enabled [OF inv]
      by (auto simp: main_step_def main_returned_def Let_def split: phase.splits list.splits if_splits sum.splits)
    then show ?thesis
      by cases (use not_stopped_enabled [OF inv] assms(2) in \<open>auto simp: queue_closed_def\<close>)
  qed (auto intro: saver_step.main)
qed

section \<open>No blob is lost\<close>

definition req_blob :: "SaveBlob \<Rightarrow> ID \<times> BlobType \<times> bytes" where
  "req_blob r = (rq_id r, rq_type r, rq_data r)"

definition wanted :: "SaveBlob list \<Rightarrow> (ID \<times> BlobType \<times> bytes) multiset" where
  "wanted rs = mset (map req_blob (filter (\<lambda>r. rq_type r \<noteq> Padding) rs))"

text \<open>A request the repository sends: a 32-byte id and an encoded blob, which is never empty.\<close>

definition req_ok :: "SaveBlob \<Rightarrow> bool" where
  "req_ok r \<longleftrightarrow> id_ok (rq_id r) \<and> rq_data r \<noteq> []"

definition real_descriptors :: "PackFinalizationResult \<Rightarrow> PackedBlobDescriptor list" where
  "real_descriptors r = filter (\<lambda>d. pd_type d \<noteq> Padding) (pf_descriptors r)"

definition result_blobs :: "PackFinalizationResult \<Rightarrow> (ID \<times> BlobType \<times> bytes) list" where
  "result_blobs r = pack_blobs (pf_data r) (real_descriptors r)"

text \<open>A pack as it should be: named by its hash, one blob type, readable from its own footer.\<close>

definition result_ok :: "crypto \<Rightarrow> SecureStorage \<Rightarrow> PackFinalizationResult \<Rightarrow> bool" where
  "result_ok cr ss r \<longleftrightarrow>
     pf_id r = cr_hash cr (pf_data r) \<and>
     (\<exists>t. \<forall>d\<in>set (real_descriptors r). pd_type d = t) \<and>
     (pf_meta_size r < 2 ^ 32 \<longrightarrow> parse_footer cr ss (pf_data r) = Ok (real_descriptors r))"

definition packer_good :: "SecureStorage \<Rightarrow> BlobType \<Rightarrow> Packer \<Rightarrow> bool" where
  "packer_good ss t p \<longleftrightarrow>
     packer_ok p \<and> pk_storage p = ss \<and> (pk_is_empty p \<longrightarrow> pk_descriptors p = []) \<and>
     t \<noteq> Padding \<and> (\<forall>d\<in>set (pk_descriptors p). pd_type d = t)"

definition packer_fresh :: "SecureStorage \<Rightarrow> Packer \<Rightarrow> bool" where
  "packer_fresh ss p \<longleftrightarrow> pk_buffer p = [] \<and> pk_descriptors p = [] \<and> pk_storage p = ss"

definition worker_good :: "SecureStorage \<Rightarrow> worker \<Rightarrow> bool" where
  "worker_good ss w \<longleftrightarrow>
     (case w of WBusy p t \<Rightarrow> packer_good ss t p | WReturn p a \<Rightarrow> packer_fresh ss p \<and> a \<noteq> AStop | _ \<Rightarrow> True)"

definition worker_blobs :: "worker \<Rightarrow> (ID \<times> BlobType \<times> bytes) multiset" where
  "worker_blobs w = (case w of WBusy p _ \<Rightarrow> mset (packer_blobs p) | _ \<Rightarrow> {#})"

definition stored :: "saver \<Rightarrow> (ID \<times> BlobType \<times> bytes) multiset" where
  "stored s =
     mset (packer_blobs (ps_data s)) + mset (packer_blobs (ps_tree s)) +
     sum_list (map (\<lambda>(p, t). mset (packer_blobs p)) (ps_full s)) +
     sum_list (map worker_blobs (ps_workers s)) +
     sum_list (map (\<lambda>r. mset (result_blobs r)) (ps_indexed s))"

definition running :: "saver \<Rightarrow> bool" where
  "running s \<longleftrightarrow> ps_err s = None \<and> (\<forall>e. ps_phase s \<noteq> PDone (Err e))"

definition content_inv :: "crypto \<Rightarrow> SecureStorage \<Rightarrow> SaveBlob list \<Rightarrow> saver \<Rightarrow> bool" where
  "content_inv cr ss reqs s \<longleftrightarrow>
     packer_good ss Data (ps_data s) \<and> packer_good ss Tree (ps_tree s) \<and>
     (\<forall>p\<in>set (ps_empty s). packer_fresh ss p) \<and> (\<forall>(p, t)\<in>set (ps_full s). packer_good ss t p) \<and>
     (\<forall>w\<in>set (ps_workers s). worker_good ss w) \<and> (\<forall>r\<in>set (ps_rx s). req_ok r) \<and>
     stored s + wanted (ps_rx s) = wanted reqs \<and>
     (\<forall>r\<in>set (ps_indexed s). result_ok cr ss r) \<and> ps_uploaded s = ps_indexed s"

text \<open>What the end of the run relies on: a worker that stopped found the queue closed and empty, and the
  queue is closed only after both slots were flushed.\<close>

definition flush_inv :: "saver \<Rightarrow> bool" where
  "flush_inv s \<longleftrightarrow>
     (WStopped \<in> set (ps_workers s) \<longrightarrow> queue_closed s \<and> ps_full s = []) \<and>
     (queue_closed s \<longrightarrow> ps_rx s = [] \<and> pk_is_empty (ps_data s) \<and> pk_is_empty (ps_tree s)) \<and>
     (ps_phase s \<in> {PFlushData, PFlushTree} \<longrightarrow> ps_rx s = []) \<and>
     (ps_phase s = PFlushTree \<longrightarrow> pk_is_empty (ps_data s)) \<and>
     (\<forall>r. ps_phase s = PDone r \<longrightarrow> all_stopped s)"

lemma packer_fresh_good: "packer_fresh ss p \<Longrightarrow> t \<noteq> Padding \<Longrightarrow> packer_good ss t p"
  by (simp add: packer_fresh_def packer_good_def packer_ok_def)

lemma packer_fresh_blobs: "packer_fresh ss p \<Longrightarrow> packer_blobs p = []"
  by (simp add: packer_fresh_def pack_blobs_def)

lemma packer_good_empty_blobs: "packer_good ss t p \<Longrightarrow> pk_is_empty p \<Longrightarrow> packer_blobs p = []"
  by (simp add: packer_good_def pack_blobs_def)

lemma packer_good_add:
  assumes "packer_good ss t p" "add_blob p bid t enc raw = Ok p'" "id_ok bid" "enc \<noteq> []"
  shows "packer_good ss t p' \<and> packer_blobs p' = packer_blobs p @ [(bid, t, enc)]"
proof -
  have "packer_ok p'" "packer_blobs p' = packer_blobs p @ [(bid, t, enc)]"
    using assms packer_ok_add [of p bid t enc raw p'] packer_blobs_add [of p bid t enc raw p']
    by (auto simp: packer_good_def)
  then show ?thesis using assms by (auto simp: packer_good_def add_blob_eq pk_is_empty_def)
qed

lemma finalize_good:
  assumes "crypto_ok cr" "packer_good ss t p" "event_ok ev"
    "finalize_and_extract cr (ev_rng ev) (ev_nonce ev) p = (Ok (Some r), p')"
  shows "result_blobs r = packer_blobs p \<and> result_ok cr ss r \<and> packer_fresh ss p'"
proof -
  from assms(4) obtain pad enc where
    r: "pf_data r = pk_buffer p @ enc @ to_le_bytes 4 (word_of_nat (length enc) :: u32)"
      "pf_id r = cr_hash cr (pf_data r)" "pf_descriptors r = pk_descriptors p @ pad"
      "\<forall>d\<in>set pad. pd_type d = Padding \<and> (\<exists>i. pd_id d = fst (ev_rng ev i))" "p' = recycle_buffer p []"
    by (rule finalize_cases)
  have ok: "packer_ok p" "pk_storage p = ss" "\<forall>d\<in>set (pk_descriptors p). pd_type d = t" "t \<noteq> Padding"
    using assms(2) by (auto simp: packer_good_def)
  then have real: "real_descriptors r = pk_descriptors p"
    using r(3,4) by (auto simp: real_descriptors_def)
  have "parse_footer cr ss (pf_data r) = Ok (pk_descriptors p)" if "pf_meta_size r < 2 ^ 32"
    using finalized_parse [OF assms(1) _ _ ok(1) assms(4) that, of 0] assms(3) ok(2) by (simp add: event_ok_def)
  moreover have "pack_blobs (pf_data r) (pk_descriptors p) = packer_blobs p"
    using pack_blobs_append [of "pk_descriptors p" "pk_buffer p"] ok(1) by (simp add: r(1) packer_ok_def)
  ultimately show ?thesis
    using r(2,5) ok by (auto simp: result_blobs_def result_ok_def real packer_fresh_def recycle_buffer_def)
qed

lemma content_inv_new:
  "\<forall>r\<in>set reqs. req_ok r \<Longrightarrow> content_inv cr ss reqs (saver_new reqs ss m n st) \<and> flush_inv (saver_new reqs ss m n st)"
proof -
  have fresh: "packer_fresh ss (packer_new i ss)" for i by (simp add: packer_fresh_def packer_new_def)
  obtain i j where ij: "ps_data (saver_new reqs ss m n st) = packer_new i ss"
    "ps_tree (saver_new reqs ss m n st) = packer_new j ss" using saver_new_packers by metis
  have "\<forall>p\<in>set (ps_empty (saver_new reqs ss m n st)). packer_fresh ss p"
    using saver_new_packers(3) fresh by metis
  moreover have "sum_list (replicate n {#}) = {#}" by (induction n) auto
  moreover assume "\<forall>r\<in>set reqs. req_ok r"
  ultimately show ?thesis
    using ij fresh
    by (auto simp: content_inv_def flush_inv_def stored_def packer_fresh_good packer_fresh_blobs [OF fresh]
        worker_good_def worker_blobs_def sum_list_replicate queue_closed_def)
qed

lemma dispatch_content:
  assumes "content_inv cr ss reqs s" "flush_inv s" "dispatch_packer s t k = Some s'" "running s'"
    "t \<noteq> Padding" "\<not> queue_closed s" "\<forall>r. k \<noteq> PDone r"
  shows "content_inv cr ss reqs s' \<and> pk_is_empty (slot s' t) \<and>
     (t = Tree \<longrightarrow> ps_data s' = ps_data s) \<and> ps_phase s' = k \<and> ps_rx s' = ps_rx s \<and>
     ps_workers s' = ps_workers s"
proof (cases "pk_is_empty (slot s t)")
  case True
  with assms have "s' = s\<lparr>ps_phase := k\<rparr>" by (simp add: dispatch_packer_def)
  with assms(1,5) True show ?thesis
    by (cases t) (auto simp: content_inv_def stored_def slot_def)
next
  case False
  with assms obtain q pool where pool: "ps_empty s = q # pool"
    and s': "s' = (set_slot s t q)\<lparr>ps_empty := pool, ps_full := ps_full s @ [(slot s t, t)], ps_phase := k\<rparr>"
    by (auto simp: dispatch_packer_def running_def split: if_splits list.splits)
  have q: "packer_fresh ss q" using assms(1) pool by (simp add: content_inv_def)
  then have "packer_good ss Data q" "packer_good ss Tree q" "packer_blobs q = []" "pk_is_empty q"
    by (auto simp: packer_fresh_good packer_fresh_blobs) (simp add: packer_fresh_def pk_is_empty_def)
  with assms(1,5) pool s' show ?thesis
    by (cases t) (auto simp: content_inv_def stored_def slot_def set_slot_def add.assoc add.left_commute add.commute)
qed

lemma recv_content:
  assumes inv: "content_inv cr ss reqs s" and "ps_phase s = PRecv" "main_step s = Some s'" "running s'"
  shows "content_inv cr ss reqs s'"
proof (cases "ps_rx s")
  case Nil
  with assms show ?thesis by (auto simp: main_step_def content_inv_def stored_def)
next
  case (Cons r rest)
  let ?t = "rq_type r"
  show ?thesis
  proof (cases "?t = Padding")
    case True
    with assms Cons show ?thesis by (auto simp: main_step_def content_inv_def stored_def wanted_def)
  next
    case False
    with assms(2-) Cons obtain p where p: "add_blob (slot s ?t) (rq_id r) ?t (rq_data r) (rq_raw_length r) = Ok p"
      by (auto simp: main_step_def running_def Let_def split: sum.splits if_splits)
    have "packer_good ss ?t (slot s ?t)" using inv False by (cases ?t) (auto simp: content_inv_def slot_def)
    from packer_good_add [OF this p] inv Cons
    have p': "packer_good ss ?t p" "packer_blobs p = packer_blobs (slot s ?t) @ [req_blob r]"
      by (auto simp: content_inv_def req_ok_def req_blob_def)
    have "content_inv cr ss reqs ((set_slot s ?t p)\<lparr>ps_rx := rest, ps_phase := k\<rparr>)" for k
      using inv p' Cons False
      by (cases ?t) (auto simp: content_inv_def stored_def wanted_def set_slot_def slot_def)
    moreover have "s' = (set_slot s ?t p)\<lparr>ps_rx := rest, ps_phase := ps_phase s'\<rparr>"
      using assms(2,3) Cons p False by (cases ?t) (auto simp: main_step_def Let_def set_slot_def split: if_splits)
    ultimately show ?thesis by metis
  qed
qed

lemma main_content:
  assumes "content_inv cr ss reqs s" "flush_inv s" "main_step s = Some s'" "running s'"
  shows "content_inv cr ss reqs s' \<and> flush_inv s'"
proof (cases "ps_phase s")
  case PRecv
  have "flush_inv s'"
    using assms PRecv
    by (auto simp: main_step_def flush_inv_def queue_closed_def running_def set_slot_def all_stopped_def Let_def
        split: list.splits if_splits sum.splits BlobType.splits)
  with recv_content [OF assms(1) PRecv assms(3,4)] show ?thesis by simp
next
  case (PDispatch t)
  show ?thesis
  proof (cases "t = Padding")
    case True
    with assms PDispatch show ?thesis
      by (auto simp: main_step_def dispatch_packer_def content_inv_def flush_inv_def stored_def queue_closed_def)
  next
    case False
    then show ?thesis
      using dispatch_content [OF assms(1,2) _ assms(4), of t PRecv] assms(2,3) PDispatch
      by (auto simp: main_step_def flush_inv_def queue_closed_def)
  qed
next
  case PFlushData
  then show ?thesis
    using dispatch_content [OF assms(1,2) _ assms(4), of Data PFlushTree] assms(2,3)
    by (auto simp: main_step_def flush_inv_def queue_closed_def slot_def)
next
  case PFlushTree
  then show ?thesis
    using dispatch_content [OF assms(1,2) _ assms(4), of Tree PJoin] assms(2,3)
    by (auto simp: main_step_def flush_inv_def queue_closed_def slot_def)
next
  case PJoin
  with assms show ?thesis
    by (auto simp: main_step_def content_inv_def flush_inv_def stored_def queue_closed_def all_stopped_def split: if_splits)
qed (use assms in \<open>simp add: main_step_def\<close>)

lemma process_good:
  assumes "crypto_ok cr" "event_ok ev" "packer_good ss t p" "process_pack cr ev s p t = (w, s1)" "ps_err s1 = None"
  shows "ps_err s = None \<and> worker_good ss w \<and> w \<noteq> WStopped \<and>
     (s1 = s \<and> worker_blobs w = {#} \<and> packer_blobs p = [] \<or>
      (\<exists>r st. s1 = s\<lparr>ps_uploaded := ps_uploaded s @ [r], ps_indexed := ps_indexed s @ [r], ps_stats := st\<rparr> \<and>
         worker_blobs w = {#} \<and> result_blobs r = packer_blobs p \<and> result_ok cr ss r))"
proof -
  obtain res p' where fin: "finalize_and_extract cr (ev_rng ev) (ev_nonce ev) p = (res, p')" by fastforce
  show ?thesis
  proof (cases res)
    case (Inl e)
    with assms fin show ?thesis by (auto simp: process_pack_def)
  next
    case (Inr ro)
    show ?thesis
    proof (cases ro)
      case None
      with fin Inr have "p' = p \<and> pk_is_empty p"
        by (auto simp: finalize_and_extract_def Let_def pk_is_empty_def split: if_splits prod.splits sum.splits)
      with assms fin Inr None show ?thesis
        by (auto simp: process_pack_def worker_good_def worker_blobs_def packer_good_def packer_fresh_def
            pk_is_empty_def pack_blobs_def)
    next
      case (Some r)
      with finalize_good [OF assms(1,3,2)] fin Inr
      have r: "result_blobs r = packer_blobs p" "result_ok cr ss r" "packer_fresh ss p'" by auto
      with assms fin Inr Some show ?thesis
        by (auto simp: process_pack_def worker_good_def worker_blobs_def packer_fresh_def recycle_buffer_def
            event_ok_def split: outcome.splits)
    qed
  qed
qed

lemma worker_content:
  assumes cr: "crypto_ok cr" "event_ok ev" and inv: "content_inv cr ss reqs s" "flush_inv s"
    and step: "worker_step cr i ev s = Some s'" and run: "running s'"
  shows "content_inv cr ss reqs s' \<and> flush_inv s'"
proof -
  have i: "i < length (ps_workers s)" using step by (simp add: worker_step_def split: if_splits)
  note upd = sum_list_map_update [OF i, of worker_blobs]
  have good: "worker_good ss (ps_workers s ! i)" using inv(1) i by (simp add: content_inv_def)
  have notstop: "ps_workers s ! i \<noteq> WStopped" using step i by (auto simp: worker_step_def)
  have others: "\<forall>w'\<in>set ((ps_workers s)[i := w]). worker_good ss w'" if "worker_good ss w" for w
    using that inv(1) set_update_subset_insert [of "ps_workers s" i w] by (auto simp: content_inv_def)
  have stop: "w = WStopped \<or> WStopped \<in> set (ps_workers s)" if "WStopped \<in> set ((ps_workers s)[i := w])" for w
    using that set_update_subset_insert [of "ps_workers s" i w] by auto
  have notdone: "\<forall>r. ps_phase s \<noteq> PDone r"
    using notstop i inv(2) by (auto simp: flush_inv_def all_stopped_def)
  show ?thesis
  proof (cases "ps_workers s ! i")
    case WIdle
    show ?thesis
    proof (cases "ps_full s")
      case Nil
      with WIdle i step have s': "s' = s\<lparr>ps_workers := (ps_workers s)[i := WStopped]\<rparr>" "queue_closed s"
        by (auto simp: worker_step_def split: if_splits)
      have "stored s' = stored s" using upd [of WStopped] WIdle by (simp add: s' stored_def worker_blobs_def)
      with inv(1) others [of WStopped] have "content_inv cr ss reqs s'"
        by (simp add: s' content_inv_def worker_good_def)
      moreover have "flush_inv s'" using inv(2) Nil notdone s'(2) by (simp add: s'(1) flush_inv_def queue_closed_def)
      ultimately show ?thesis by simp
    next
      case (Cons x rest)
      obtain p t where x: "x = (p, t)" by fastforce
      with WIdle i step run Cons have s': "s' = s\<lparr>ps_full := rest, ps_workers := (ps_workers s)[i := WBusy p t]\<rparr>"
        by (auto simp: worker_step_def running_def split: if_splits)
      have "sum_list (map worker_blobs ((ps_workers s)[i := WBusy p t])) =
          mset (packer_blobs p) + sum_list (map worker_blobs (ps_workers s))"
        using upd [of "WBusy p t"] WIdle by (simp add: worker_blobs_def add.commute)
      then have "stored s' = stored s" by (simp add: s' stored_def Cons x)
      moreover have "packer_good ss t p" "\<forall>(p, t)\<in>set rest. packer_good ss t p"
        using inv(1) Cons x by (auto simp: content_inv_def)
      ultimately have "content_inv cr ss reqs s'"
        using inv(1) others [of "WBusy p t"] by (simp add: s' content_inv_def worker_good_def)
      moreover have "flush_inv s'"
        using inv(2) stop [of "WBusy p t"] Cons notdone by (auto simp: s' flush_inv_def queue_closed_def)
      ultimately show ?thesis by simp
    qed
  next
    case (WBusy p t)
    obtain w s1 where pp: "process_pack cr ev s p t = (w, s1)" by fastforce
    with WBusy i step have s': "s' = s1\<lparr>ps_workers := (ps_workers s)[i := w]\<rparr>" by (simp add: worker_step_def)
    have "packer_good ss t p" using good WBusy by (simp add: worker_good_def)
    from process_good [OF cr this pp] run s'
    have w: "worker_good ss w" "w \<noteq> WStopped" "worker_blobs w = {#}" and
      s1: "s1 = s \<and> packer_blobs p = [] \<or> (\<exists>r st. s1 = s\<lparr>ps_uploaded := ps_uploaded s @ [r],
        ps_indexed := ps_indexed s @ [r], ps_stats := st\<rparr> \<and> result_blobs r = packer_blobs p \<and> result_ok cr ss r)"
      by (auto simp: running_def)
    have ws: "sum_list (map worker_blobs (ps_workers s)) =
        sum_list (map worker_blobs ((ps_workers s)[i := w])) + mset (packer_blobs p)"
      using upd [of w] w(3) WBusy by (simp add: worker_blobs_def)
    have flush: "flush_inv s'"
      using s1 s' inv(2) w stop [of w] notdone by (auto simp: flush_inv_def queue_closed_def)
    have "stored s' = stored s" using s1 s' ws by (auto simp: stored_def)
    with s1 s' inv(1) others [OF w(1)] flush show ?thesis by (auto simp: content_inv_def)
  next
    case (WReturn p a)
    with good have fresh: "packer_fresh ss p" "a \<noteq> AStop" by (auto simp: worker_good_def)
    with WReturn i step notdone have s': "s' = s\<lparr>ps_empty := ps_empty s @ [p], ps_workers := (ps_workers s)[i := WIdle]\<rparr>"
      by (auto simp: worker_step_def main_returned_def split: phase.splits)
    have "stored s' = stored s" using upd [of WIdle] WReturn by (simp add: s' stored_def worker_blobs_def)
    with inv(1) others [of WIdle] fresh have "content_inv cr ss reqs s'"
      by (auto simp: s' content_inv_def worker_good_def)
    moreover have "flush_inv s'" using inv(2) stop [of WIdle] notdone by (auto simp: s' flush_inv_def queue_closed_def)
    ultimately show ?thesis by simp
  qed (use notstop in simp)
qed

lemma worker_step_frame:
  assumes "worker_step cr i ev s = Some s'"
  shows "ps_phase s' = ps_phase s \<and> (ps_err s' = None \<longrightarrow> ps_err s = None) \<and> \<not> all_stopped s"
proof -
  have "i < length (ps_workers s)" "ps_workers s ! i \<noteq> WStopped"
    using assms by (auto simp: worker_step_def split: if_splits)
  then have "\<not> all_stopped s" by (metis all_stopped_def nth_mem)
  then show ?thesis
    using assms
    by (auto simp: worker_step_def process_pack_def
        split: if_splits worker.splits list.splits prod.splits sum.splits option.splits outcome.splits)
qed

lemma dispatch_frame: "dispatch_packer s t k = Some s' \<Longrightarrow> ps_err s' = ps_err s \<and> ps_phase s' \<in> {k, PDone (Err Repo)}"
  by (cases t; cases "ps_empty s") (auto simp: dispatch_packer_def set_slot_def split: if_splits)

lemma main_step_frame:
  assumes "main_step s = Some s'"
  shows "ps_err s' = ps_err s \<and> \<not> main_returned s \<and> (\<forall>u. ps_phase s' = PDone (Ok u) \<longrightarrow> ps_err s = None \<and> all_stopped s')"
proof (cases "ps_phase s")
  case PRecv
  with assms show ?thesis
    by (auto simp: main_step_def main_returned_def set_slot_def Let_def
        split: list.splits if_splits sum.splits BlobType.splits)
next
  case PJoin
  with assms show ?thesis
    by (auto simp: main_step_def main_returned_def all_stopped_def split: if_splits option.splits)
qed (use assms dispatch_frame [of s] in \<open>fastforce simp: main_step_def main_returned_def\<close>)+

lemma saver_inv:
  assumes "crypto_ok cr" "\<forall>r\<in>set reqs. req_ok r" "saver_reach cr (saver_new reqs ss m n st) s"
  shows "(running s \<longrightarrow> content_inv cr ss reqs s \<and> flush_inv s) \<and>
         (\<forall>u. ps_phase s = PDone (Ok u) \<longrightarrow> ps_err s = None \<and> all_stopped s)"
  using assms(3)
proof (induction rule: rtranclp_induct)
  case base
  then show ?case using content_inv_new [OF assms(2)] by simp
next
  case (step s s')
  from step.hyps(2) show ?case
  proof cases
    case main
    have "running s' \<Longrightarrow> running s"
      using main_step_frame [OF main] by (auto simp: running_def main_returned_def)
    with main_content [OF _ _ main] step.IH main_step_frame [OF main] show ?thesis by auto
  next
    case (work ev i)
    have "running s' \<Longrightarrow> running s" using worker_step_frame [OF work(2)] by (auto simp: running_def)
    with worker_content [OF assms(1) work(1) _ _ work(2)] step.IH worker_step_frame [OF work(2)] show ?thesis by auto
  qed
qed

lemma stopped_blobs: "\<forall>w\<in>set ws. w = WStopped \<Longrightarrow> sum_list (map worker_blobs ws) = {#}"
  by (induction ws) (auto simp: worker_blobs_def)

section \<open>Properties\<close>

text \<open>C2: when the pack saver returns without an error, the packs it uploaded and indexed hold exactly the
  blobs it was asked to save, each as often as it was requested, whatever the interleaving of the
  workers was; every such pack is named by its content's hash, holds blobs of one type only and can be
  read back from its own footer.\<close>

theorem saver_saves_every_blob:
  assumes "crypto_ok cr" "\<forall>r\<in>set reqs. req_ok r" "saver_reach cr (saver_new reqs ss m n st) s"
    "ps_phase s = PDone (Ok ())"
  shows "mset (concat (map result_blobs (ps_indexed s))) = wanted reqs \<and>
         ps_uploaded s = ps_indexed s \<and> (\<forall>r\<in>set (ps_indexed s). result_ok cr ss r)"
proof -
  from saver_inv [OF assms(1-3)] assms(4)
  have inv: "content_inv cr ss reqs s" "flush_inv s" "all_stopped s" by (auto simp: running_def)
  have pool: "pool_inv n s" by (rule pool_inv_reach [OF assms(3)])
  have "ps_rx s = []" "pk_is_empty (ps_data s)" "pk_is_empty (ps_tree s)"
    using inv(2) assms(4) by (auto simp: flush_inv_def queue_closed_def)
  moreover have "ps_full s = []"
  proof (cases "ps_workers s")
    case Nil
    with pool show ?thesis by (auto simp: pool_inv_def in_flight_def)
  qed (use inv in \<open>auto simp: flush_inv_def all_stopped_def\<close>)
  moreover have "sum_list (map worker_blobs (ps_workers s)) = {#}"
    by (rule stopped_blobs) (use inv(3) in \<open>simp add: all_stopped_def\<close>)
  moreover have "packer_blobs (ps_data s) = []" "packer_blobs (ps_tree s) = []"
    using inv(1) calculation(2,3) packer_good_empty_blobs by (auto simp: content_inv_def)
  ultimately have "stored s = sum_list (map (\<lambda>r. mset (result_blobs r)) (ps_indexed s))"
    by (simp add: stored_def)
  moreover have "mset (concat (map result_blobs rs)) = sum_list (map (\<lambda>r. mset (result_blobs r)) rs)" for rs
    by (induction rs) auto
  ultimately show ?thesis
    using inv(1) \<open>ps_rx s = []\<close> by (simp add: content_inv_def wanted_def)
qed

text \<open>C12: the pack saver always comes to an end. No run is infinite, and a state with no next step is one
  where \<open>run\<close> has returned: main thread and workers never wait for each other.\<close>

theorem saver_terminates:
  "wfP (\<lambda>s' s. saver_step cr s s') \<and>
   (\<forall>s. saver_reach cr (saver_new reqs ss m n st) s \<and> (\<nexists>s'. saver_step cr s s') \<longrightarrow> (\<exists>r. ps_phase s = PDone r))"
proof
  show "wfP (\<lambda>s' s. saver_step cr s s')"
    by (rule wfp_if_convertible_to_nat [of _ saver_measure]) (rule saver_step_measure)
  show "\<forall>s. saver_reach cr (saver_new reqs ss m n st) s \<and> (\<nexists>s'. saver_step cr s s') \<longrightarrow> (\<exists>r. ps_phase s = PDone r)"
  proof (intro allI impI)
    fix s
    assume "saver_reach cr (saver_new reqs ss m n st) s \<and> (\<nexists>s'. saver_step cr s s')"
    then have "main_returned s" using saver_progress by blast
    then show "\<exists>r. ps_phase s = PDone r" by (simp add: main_returned_def split: phase.splits)
  qed
qed

text \<open>The channels never overflow: the work queue holds at most one packer per worker and the pool of
  empty packers no more than were created, so no send blocks or fails for lack of room.\<close>

theorem saver_channels_bounded:
  assumes "saver_reach cr (saver_new reqs ss m n st) s"
  shows "length (ps_full s) \<le> n \<and> length (ps_empty s) \<le> n + 2 \<and>
         (ps_empty s \<noteq> [] \<longrightarrow> length (ps_full s) < n)"
  using pool_inv_reach [OF assms] by (cases "ps_empty s") (auto simp: pool_inv_def in_flight_def)

section \<open>A concrete run\<close>

text \<open>One worker, one data blob: the blob is added, the slot flushed, the worker uploads the pack, the main
  thread joins.\<close>

definition demo_req :: SaveBlob where
  "demo_req = \<lparr>rq_id = ID (replicate 32 7), rq_type = Data, rq_data = [1, 2], rq_raw_length = 2\<rparr>"

definition demo_event :: event where
  "demo_event = \<lparr>ev_rng = demo_rng, ev_nonce = replicate 12 0, ev_repo_alive = True,
     ev_outcome = Saved \<lparr>sp_raw = 0, sp_encoded = 0\<rparr>\<rparr>"

definition demo_start :: saver where
  "demo_start = saver_new [demo_req] demo_ss 100 1
     \<lparr>rs_raw_bytes = 0, rs_encoded_bytes = 0, rs_data_blobs = 0, rs_meta_raw_bytes = 0,
      rs_meta_encoded_bytes = 0, rs_meta_blobs = 0, rs_index_raw_bytes = 0, rs_index_meta_bytes = 0\<rparr>"

lemma demo_event_ok: "event_ok demo_event"
  by (simp add: event_ok_def demo_event_def demo_rng_ok)

lemma demo_process:
  assumes "pk_storage p = demo_ss" "pk_buffer p \<noteq> []"
  shows "\<exists>r st. process_pack demo_crypto demo_event s p Data =
    (WReturn (recycle_buffer p []) ANext,
     s\<lparr>ps_uploaded := ps_uploaded s @ [r], ps_indexed := ps_indexed s @ [r], ps_stats := st\<rparr>)"
proof -
  obtain e where "ss_encode demo_crypto demo_ss (replicate 12 0) f = Ok (e f)" for f
    by (simp add: ss_encode_def transform_into_def ss_compress_def demo_crypto_def)
  then show ?thesis
    using assms
    by (auto simp: process_pack_def demo_event_def finalize_and_extract_def Let_def recycle_buffer_def split: prod.splits)
qed

lemma reach_main: "main_step s = Some s' \<Longrightarrow> saver_reach cr s' t \<Longrightarrow> saver_reach cr s t"
  by (meson saver_step.main converse_rtranclp_into_rtranclp)

lemma reach_work:
  "event_ok ev \<Longrightarrow> worker_step cr i ev s = Some s' \<Longrightarrow> saver_reach cr s' t \<Longrightarrow> saver_reach cr s t"
  by (meson saver_step.work converse_rtranclp_into_rtranclp)

lemma demo_run: "\<exists>s. saver_reach demo_crypto demo_start s \<and> ps_phase s = PDone (Ok ()) \<and> ps_indexed s \<noteq> []"
proof -
  note defs = main_step_def worker_step_def dispatch_packer_def slot_def set_slot_def pk_is_empty_def
    all_stopped_def queue_closed_def main_returned_def pk_size_def
  obtain d t q where start: "ps_data demo_start = packer_new d demo_ss" "ps_tree demo_start = packer_new t demo_ss"
    "ps_empty demo_start = [q]" "ps_max demo_start = 100"
    by (simp add: demo_start_def saver_new_def Let_def)
  note st = start demo_start_def [THEN arg_cong, of ps_rx] demo_start_def [THEN arg_cong, of ps_full]
    demo_start_def [THEN arg_cong, of ps_workers] demo_start_def [THEN arg_cong, of ps_phase]
    demo_start_def [THEN arg_cong, of ps_err]
  obtain p where p: "add_blob (packer_new d demo_ss) (ID (replicate 32 7)) Data [1, 2] 2 = Ok p"
    "pk_buffer p = [1, 2]" "pk_storage p = demo_ss"
    by (simp add: add_blob_def u32_try_from_def packer_new_def)
  define s1 where "s1 = demo_start\<lparr>ps_data := p, ps_rx := []\<rparr>"
  have 1: "main_step demo_start = Some s1"
    using p by (simp add: defs st s1_def demo_req_def)
  define s2 where "s2 = s1\<lparr>ps_phase := PFlushData\<rparr>"
  have 2: "main_step s1 = Some s2" by (simp add: defs st s1_def s2_def)
  define s3 where "s3 = s1\<lparr>ps_data := q, ps_empty := [], ps_full := [(p, Data)], ps_phase := PFlushTree\<rparr>"
  have 3: "main_step s2 = Some s3" using p by (simp add: defs st s1_def s2_def s3_def)
  define s4 where "s4 = s3\<lparr>ps_phase := PJoin\<rparr>"
  have 4: "main_step s3 = Some s4" by (simp add: defs st s1_def s3_def s4_def packer_new_def)
  define s5 where "s5 = s4\<lparr>ps_full := [], ps_workers := [WBusy p Data]\<rparr>"
  have 5: "worker_step demo_crypto 0 demo_event s4 = Some s5" by (simp add: defs st s1_def s3_def s4_def s5_def)
  obtain r sx where proc: "process_pack demo_crypto demo_event s5 p Data = (WReturn (recycle_buffer p []) ANext,
     s5\<lparr>ps_uploaded := ps_uploaded s5 @ [r], ps_indexed := ps_indexed s5 @ [r], ps_stats := sx\<rparr>)"
    using demo_process [of p s5] p by auto
  define s6 where "s6 = s5\<lparr>ps_uploaded := ps_uploaded s5 @ [r], ps_indexed := ps_indexed s5 @ [r], ps_stats := sx,
     ps_workers := [WReturn (recycle_buffer p []) ANext]\<rparr>"
  have 6: "worker_step demo_crypto 0 demo_event s5 = Some s6"
    using proc by (simp add: worker_step_def s6_def) (simp add: s5_def)
  define s7 where "s7 = s6\<lparr>ps_empty := [recycle_buffer p []], ps_workers := [WIdle]\<rparr>"
  have 7: "worker_step demo_crypto 0 demo_event s6 = Some s7"
    by (simp add: defs s7_def s6_def s5_def s4_def s3_def)
  define s8 where "s8 = s7\<lparr>ps_workers := [WStopped]\<rparr>"
  have 8: "worker_step demo_crypto 0 demo_event s7 = Some s8"
    by (simp add: defs s8_def s7_def s6_def s5_def s4_def s3_def)
  have 9: "main_step s8 = Some (s8\<lparr>ps_phase := PDone (Ok ())\<rparr>)"
    by (simp add: defs st s8_def s7_def s6_def s5_def s4_def s3_def s1_def)
  have "saver_reach demo_crypto demo_start (s8\<lparr>ps_phase := PDone (Ok ())\<rparr>)"
    by (rule reach_main [OF 1 reach_main [OF 2 reach_main [OF 3 reach_main [OF 4 reach_work [OF demo_event_ok 5
        reach_work [OF demo_event_ok 6 reach_work [OF demo_event_ok 7 reach_work [OF demo_event_ok 8
        reach_main [OF 9]]]]]]]]]) simp
  then show ?thesis by (intro exI conjI) (assumption, simp_all add: s8_def s7_def s6_def)
qed

theorem saver_saves_every_blob_witness:
  "\<exists>s :: saver. ps_phase s = PDone (Ok ()) \<and> ps_indexed s \<noteq> [] \<and>
       mset (concat (map result_blobs (ps_indexed s))) = {#(ID (replicate 32 7), Data, [1, 2])#}"
proof -
  obtain s where s: "saver_reach demo_crypto demo_start s" "ps_phase s = PDone (Ok ())" "ps_indexed s \<noteq> []"
    using demo_run by blast
  have "\<forall>r\<in>set [demo_req]. req_ok r" by (simp add: req_ok_def demo_req_def id_ok_def ID_LENGTH_def)
  from saver_saves_every_blob [OF demo_crypto_ok this s(1) [unfolded demo_start_def] s(2)] s(2,3) show ?thesis
    by (intro exI [of _ s]) (simp add: wanted_def req_blob_def demo_req_def)
qed

theorem saver_channels_bounded_witness: "\<exists>s :: saver. ps_phase s = PDone (Ok ()) \<and> length (ps_full s) \<le> 1"
proof -
  obtain s where s: "saver_reach demo_crypto demo_start s" "ps_phase s = PDone (Ok ())" using demo_run by blast
  from saver_channels_bounded [OF s(1) [unfolded demo_start_def]] s(2) show ?thesis by blast
qed

theorem saver_terminates_witness:
  "\<exists>s. saver_reach demo_crypto demo_start s \<and> (\<nexists>s'. saver_step demo_crypto s s') \<and> (\<exists>r. ps_phase s = PDone r)"
proof -
  have wf: "wfP (\<lambda>s' s. saver_step demo_crypto s s')" using saver_terminates by blast
  have "\<exists>s. saver_reach demo_crypto demo_start s \<and> (\<nexists>s'. saver_step demo_crypto s s')"
  proof -
    obtain s where "saver_reach demo_crypto demo_start s"
      "\<And>s'. saver_step demo_crypto s s' \<Longrightarrow> \<not> saver_reach demo_crypto demo_start s'"
      using wfp_eq_minimal [THEN iffD1, OF wf, rule_format, of demo_start "{s. saver_reach demo_crypto demo_start s}"] by auto
    then show ?thesis by (meson rtranclp.rtrancl_into_rtrancl)
  qed
  then show ?thesis using saver_terminates unfolding demo_start_def by metis
qed

end
