(* ===== verification/BlobIndex.thy ===== *)
theory BlobIndex
  imports Collections Packer Stats
begin

text \<open>
  One index of \<open>repository/index.rs\<close>: \<open>BlobMap\<close> (a hash map while it is built, a sorted vector with a
  Bloom filter once it is loaded), \<open>Index\<close> with its operations, and the on-disk \<open>IndexFile\<close>.

  An index refines a finite map from blob type and id to a \<open>BlobLocator\<close> (\<open>index_loc\<close>): the pack list,
  the 32-bit pack numbers and the two representations are invisible. \<open>persist\<close> followed by
  \<open>from_index_file\<close> gives an index with the same lookups.

  \<open>sort_unstable_by_key\<close> is modelled by the stable sort. The orders differ only between entries with
  equal keys, and no property below depends on that order. JSON encoding and the repository's
  \<open>save_file\<close> are arguments of \<open>index_persist\<close>.
\<close>

section \<open>BlobMap\<close>

record BlobLocationInternal =
  bl_pack_array_index :: u32
  bl_offset :: u32
  bl_length :: u32
  bl_raw_length :: u32

datatype BlobMap =
    Mutable "(ID \<times> BlobLocationInternal) list"
  | Immutable "(ID \<times> BlobLocationInternal) list" BloomFilter

definition new_mutable :: BlobMap where "new_mutable = Mutable []"

fun bm_contains :: "BlobMap \<Rightarrow> ID \<Rightarrow> bool" where
  "bm_contains (Mutable m) i = (hm_get m i \<noteq> None)"
| "bm_contains (Immutable v bf) i =
     (bloom_contains bf i \<and> (case binary_search (map fst v) i of Inr _ \<Rightarrow> True | Inl _ \<Rightarrow> False))"

fun bm_get :: "BlobMap \<Rightarrow> ID \<Rightarrow> BlobLocationInternal option" where
  "bm_get (Mutable m) i = hm_get m i"
| "bm_get (Immutable v bf) i =
     (if \<not> bloom_contains bf i then None
      else case binary_search (map fst v) i of Inl _ \<Rightarrow> None | Inr idx \<Rightarrow> Some (snd (v ! idx)))"

text \<open>An insert into an immutable map is logged and dropped.\<close>

fun bm_insert :: "BlobMap \<Rightarrow> ID \<Rightarrow> BlobLocationInternal \<Rightarrow> BlobMap" where
  "bm_insert (Mutable m) i loc = Mutable (hm_insert i loc m)"
| "bm_insert (Immutable v bf) i loc = Immutable v bf"

fun bm_len :: "BlobMap \<Rightarrow> nat" where
  "bm_len (Mutable m) = length m"
| "bm_len (Immutable v bf) = length v"

text \<open>The filter of a sorted vector: \<open>BloomFilter::new(len, 0.01)\<close>, then every id inserted.\<close>

definition bloom_of :: "bloom_sizing \<Rightarrow> (ID \<times> 'v) list \<Rightarrow> BloomFilter" where
  "bloom_of sz v = fold (\<lambda>i bf. bloom_insert bf i) (map fst v) (bloom_new sz (length v))"

fun bm_freeze :: "bloom_sizing \<Rightarrow> BlobMap \<Rightarrow> BlobMap" where
  "bm_freeze sz (Mutable m) = (let v = sort_key fst m in Immutable v (bloom_of sz v))"
| "bm_freeze sz (Immutable v bf) = Immutable v bf"

fun bm_iter :: "BlobMap \<Rightarrow> (ID \<times> BlobLocationInternal) list" where
  "bm_iter (Mutable m) = m"
| "bm_iter (Immutable v bf) = v"

text \<open>The sizing formula stays below \<open>2\<^sup>6\<^sup>3\<close> bits for the counts that occur.\<close>

definition sizing_ok :: "bloom_sizing \<Rightarrow> bool" where
  "sizing_ok sz \<longleftrightarrow> (\<forall>n. fst sz n \<le> 2 ^ 63)"

fun bm_ok :: "BlobMap \<Rightarrow> bool" where
  "bm_ok (Mutable m) = hm_ok m"
| "bm_ok (Immutable v bf) = (sorted (map fst v) \<and> bloom_ok bf \<and> (\<forall>i\<in>fst ` set v. bloom_contains bf i))"

text \<open>What the index relies on: a lookup finds an entry with that id exactly when there is one.\<close>

locale blob_lookup =
  fixes get :: "'m \<Rightarrow> 'k \<Rightarrow> 'v option"
    and has :: "'m \<Rightarrow> 'k \<Rightarrow> bool"
    and entries :: "'m \<Rightarrow> ('k \<times> 'v) list"
    and ok :: "'m \<Rightarrow> bool"
  assumes get_sound: "ok m \<Longrightarrow> get m i = Some v \<Longrightarrow> (i, v) \<in> set (entries m)"
    and get_complete: "ok m \<Longrightarrow> get m i = None \<Longrightarrow> i \<notin> fst ` set (entries m)"
    and has_get: "ok m \<Longrightarrow> has m i \<longleftrightarrow> get m i \<noteq> None"
begin

lemma has_iff: "ok m \<Longrightarrow> has m i \<longleftrightarrow> i \<in> fst ` set (entries m)"
  using get_sound get_complete has_get by (metis fst_conv image_eqI option.exhaust)

lemma get_unique:
  assumes "ok m" "distinct (map fst (entries m))"
  shows "get m i = map_of (entries m) i"
proof (cases "get m i")
  case None
  with get_complete [OF assms(1)] show ?thesis by (simp add: map_of_eq_None_iff [THEN iffD2])
next
  case (Some v)
  with get_sound [OF assms(1)] assms(2) show ?thesis by simp
qed

lemma get_same_entries:
  assumes "ok m" "ok m'" "set (entries m) = set (entries m')" "distinct (map fst (entries m))"
  shows "get m i = get m' i"
proof (cases "get m i")
  case None
  with get_complete [OF assms(1)] assms(3) get_sound [OF assms(2)] show ?thesis
    by (metis fst_conv image_eqI option.exhaust)
next
  case (Some v)
  then have v: "(i, v) \<in> set (entries m)" by (rule get_sound [OF assms(1)])
  then obtain v' where v': "get m' i = Some v'"
    using get_complete [OF assms(2), of i] assms(3) by (metis fst_conv image_eqI option.exhaust)
  then have "(i, v') \<in> set (entries m)" using get_sound [OF assms(2)] assms(3) by blast
  with v assms(4) have "v' = v" by (metis Some_eq_map_of_iff option.inject)
  with Some v' show ?thesis by simp
qed

end

interpretation blob_map: blob_lookup bm_get bm_contains bm_iter bm_ok
proof (unfold_locales, goal_cases)
  case (1 m i v)
  then show ?case
    by (cases m) (auto dest: map_of_SomeD bsearch.search_hit split: if_splits sum.splits)
next
  case (2 m i)
  show ?case
  proof (cases m)
    case (Immutable v bf)
    with 2 show ?thesis
      using bsearch.search_miss [of "map fst v" i] by (auto split: if_splits sum.splits)
  qed (use 2 in \<open>simp add: map_of_eq_None_iff [THEN iffD1]\<close>)
next
  case (3 m i)
  then show ?case by (cases m) (auto split: sum.splits)
qed

lemma bloom_of_ok: "sizing_ok sz \<Longrightarrow> bloom_ok (bloom_of sz v)"
  unfolding bloom_of_def by (rule bloom.add_run_ok) (simp add: bloom_ok_new sizing_ok_def)

lemma bloom_of_contains: "sizing_ok sz \<Longrightarrow> i \<in> fst ` set v \<Longrightarrow> bloom_contains (bloom_of sz v) i"
  unfolding bloom_of_def by (rule bloom.add_run_maybe) (auto simp: bloom_ok_new sizing_ok_def)

lemma bm_ok_insert [simp]: "bm_ok m \<Longrightarrow> bm_ok (bm_insert m i loc)"
  by (cases m) auto

lemma bm_ok_freeze: "sizing_ok sz \<Longrightarrow> bm_ok m \<Longrightarrow> bm_ok (bm_freeze sz m)"
  by (cases m) (auto simp: Let_def bloom_of_ok intro!: bloom_of_contains)

lemma bm_freeze_get: "sizing_ok sz \<Longrightarrow> bm_ok m \<Longrightarrow> bm_get (bm_freeze sz m) i = bm_get m i"
proof (cases m)
  case (Mutable e)
  assume ok: "sizing_ok sz" "bm_ok m"
  have "bm_get m i = bm_get (bm_freeze sz m) i"
    using bm_ok_freeze [OF ok] ok(2) Mutable
    by (intro blob_map.get_same_entries) (auto simp: Let_def hm_ok_def)
  then show ?thesis by simp
qed simp

section \<open>Index\<close>

record BlobLocator =
  lo_pack_id :: ID
  lo_offset :: u32
  lo_length :: u32
  lo_raw_length :: u32
  lo_type :: BlobType

datatype IndexStatus = Pending | Finalized | Persisted ID

text \<open>\<open>create_time\<close> is a point on the monotonic clock, in seconds.\<close>

record Index =
  ix_instance_id :: u64
  ix_data_ids :: BlobMap
  ix_tree_ids :: BlobMap
  ix_pack_ids :: "ID IndexSet"
  ix_status :: IndexStatus
  ix_create_time :: nat

text \<open>\<open>Index::new\<close> draws the next instance id from a global counter, which the caller passes in.\<close>

definition index_new :: "u64 \<Rightarrow> nat \<Rightarrow> Index" where
  "index_new instance_id now =
     \<lparr>ix_instance_id = instance_id, ix_data_ids = new_mutable, ix_tree_ids = new_mutable,
      ix_pack_ids = is_new, ix_status = Pending, ix_create_time = now\<rparr>"

definition is_pending :: "Index \<Rightarrow> bool" where
  "is_pending ix \<longleftrightarrow> (case ix_status ix of Pending \<Rightarrow> True | _ \<Rightarrow> False)"

definition is_finalized :: "Index \<Rightarrow> bool" where
  "is_finalized ix \<longleftrightarrow> (case ix_status ix of Finalized \<Rightarrow> True | _ \<Rightarrow> False)"

definition is_persisted :: "Index \<Rightarrow> bool" where
  "is_persisted ix \<longleftrightarrow> (case ix_status ix of Persisted _ \<Rightarrow> True | _ \<Rightarrow> False)"

definition set_status :: "Index \<Rightarrow> IndexStatus \<Rightarrow> Index" where
  "set_status ix st = ix\<lparr>ix_status := st\<rparr>"

definition index_finalize :: "Index \<Rightarrow> Index" where
  "index_finalize ix = set_status ix Finalized"

definition index_id :: "Index \<Rightarrow> ID option" where
  "index_id ix = (case ix_status ix of Persisted i \<Rightarrow> Some i | _ \<Rightarrow> None)"

definition index_num_blobs :: "Index \<Rightarrow> nat" where
  "index_num_blobs ix = bm_len (ix_data_ids ix) + bm_len (ix_tree_ids ix)"

definition index_num_packs :: "Index \<Rightarrow> nat" where
  "index_num_packs ix = is_len (ix_pack_ids ix)"

definition index_is_empty :: "Index \<Rightarrow> bool" where
  "index_is_empty ix \<longleftrightarrow> index_num_blobs ix = 0"

text \<open>\<open>is_full\<close> compares with the configured \<open>blobs_per_index_file\<close>.\<close>

definition index_is_full :: "nat \<Rightarrow> Index \<Rightarrow> bool" where
  "index_is_full blobs_per_index_file ix \<longleftrightarrow> index_num_blobs ix \<ge> blobs_per_index_file"

definition index_contains :: "Index \<Rightarrow> ID \<Rightarrow> bool" where
  "index_contains ix i \<longleftrightarrow> bm_contains (ix_data_ids ix) i \<or> bm_contains (ix_tree_ids ix) i"

definition resolve_location :: "Index \<Rightarrow> BlobLocationInternal \<Rightarrow> BlobType \<Rightarrow> BlobLocator option" where
  "resolve_location ix loc t =
     (case is_get_value (ix_pack_ids ix) (unat (bl_pack_array_index loc)) of
        None \<Rightarrow> None
      | Some pack_id \<Rightarrow>
          Some \<lparr>lo_pack_id = pack_id, lo_offset = bl_offset loc, lo_length = bl_length loc,
                lo_raw_length = bl_raw_length loc, lo_type = t\<rparr>)"

definition get_data_location :: "Index \<Rightarrow> ID \<Rightarrow> BlobLocationInternal option" where
  "get_data_location ix i = bm_get (ix_data_ids ix) i"

definition get_tree_location :: "Index \<Rightarrow> ID \<Rightarrow> BlobLocationInternal option" where
  "get_tree_location ix i = bm_get (ix_tree_ids ix) i"

definition index_get :: "Index \<Rightarrow> ID \<Rightarrow> BlobLocator option" where
  "index_get ix i =
     (case Option.bind (bm_get (ix_data_ids ix) i) (\<lambda>l. resolve_location ix l Data) of
        Some l \<Rightarrow> Some l
      | None \<Rightarrow> Option.bind (bm_get (ix_tree_ids ix) i) (\<lambda>l. resolve_location ix l Tree))"

text \<open>\<open>add_pack\<close>: the loop body, then the loop. The pack's number is its \<open>usize\<close> index cast to \<open>u32\<close>.\<close>

definition desc_location :: "u32 \<Rightarrow> PackedBlobDescriptor \<Rightarrow> BlobLocationInternal" where
  "desc_location pack_index d =
     \<lparr>bl_pack_array_index = pack_index, bl_offset = pd_offset d, bl_length = pd_length d,
      bl_raw_length = pd_raw_length d\<rparr>"

definition index_add_blob :: "u32 \<Rightarrow> PackedBlobDescriptor \<Rightarrow> Index \<Rightarrow> Index" where
  "index_add_blob pack_index d ix =
     (case pd_type d of
        Padding \<Rightarrow> ix
      | Data \<Rightarrow> ix\<lparr>ix_data_ids := bm_insert (ix_data_ids ix) (pd_id d) (desc_location pack_index d)\<rparr>
      | Tree \<Rightarrow> ix\<lparr>ix_tree_ids := bm_insert (ix_tree_ids ix) (pd_id d) (desc_location pack_index d)\<rparr>)"

definition index_add_pack :: "Index \<Rightarrow> ID \<Rightarrow> PackedBlobDescriptor list \<Rightarrow> Index" where
  "index_add_pack ix pack_id descriptors =
     (case is_insert (ix_pack_ids ix) pack_id of
        (packs, n) \<Rightarrow> fold (index_add_blob (word_of_nat n)) descriptors (ix\<lparr>ix_pack_ids := packs\<rparr>))"

definition iter_ids :: "Index \<Rightarrow> (ID \<times> BlobLocator) list" where
  "iter_ids ix =
     List.map_filter (\<lambda>(i, loc). map_option (Pair i) (resolve_location ix loc Data)) (bm_iter (ix_data_ids ix)) @
     List.map_filter (\<lambda>(i, loc). map_option (Pair i) (resolve_location ix loc Tree)) (bm_iter (ix_tree_ids ix))"

section \<open>The on-disk form\<close>

record IndexFileBlob =
  fb_id :: ID
  fb_type :: BlobType
  fb_offset :: u32
  fb_length :: u32
  fb_raw_length :: u32

record IndexFilePack =
  fp_id :: ID
  fp_blobs :: "IndexFileBlob list"

record IndexFile =
  if_packs :: "IndexFilePack list"

definition file_location :: "u32 \<Rightarrow> IndexFileBlob \<Rightarrow> ID \<times> BlobLocationInternal" where
  "file_location pack_index b =
     (fb_id b, \<lparr>bl_pack_array_index = pack_index, bl_offset = fb_offset b, bl_length = fb_length b,
                bl_raw_length = fb_raw_length b\<rparr>)"

text \<open>The nested loops of \<open>from_index_file\<close>: state is the pack list and the two entry vectors.\<close>

definition load_blob :: "u32 \<Rightarrow> IndexFileBlob \<Rightarrow> (ID \<times> BlobLocationInternal) list \<times> (ID \<times> BlobLocationInternal) list \<Rightarrow>
    (ID \<times> BlobLocationInternal) list \<times> (ID \<times> BlobLocationInternal) list" where
  "load_blob pack_index b acc =
     (case acc of (data_entries, tree_entries) \<Rightarrow>
        (case fb_type b of
           Padding \<Rightarrow> acc
         | Data \<Rightarrow> (data_entries @ [file_location pack_index b], tree_entries)
         | Tree \<Rightarrow> (data_entries, tree_entries @ [file_location pack_index b])))"

definition load_pack :: "IndexFilePack \<Rightarrow>
    ID IndexSet \<times> (ID \<times> BlobLocationInternal) list \<times> (ID \<times> BlobLocationInternal) list \<Rightarrow>
    ID IndexSet \<times> (ID \<times> BlobLocationInternal) list \<times> (ID \<times> BlobLocationInternal) list" where
  "load_pack p acc =
     (case acc of (packs, entries) \<Rightarrow>
        (case is_insert packs (fp_id p) of
           (packs', n) \<Rightarrow> (packs', fold (load_blob (word_of_nat n)) (fp_blobs p) entries)))"

definition from_index_file :: "bloom_sizing \<Rightarrow> u64 \<Rightarrow> nat \<Rightarrow> IndexFile \<Rightarrow> ID \<Rightarrow> Index" where
  "from_index_file sz instance_id now file i =
     (case fold load_pack (if_packs file) (is_new, [], []) of
        (packs, data_entries, tree_entries) \<Rightarrow>
          let data_entries = sort_key fst data_entries;
              tree_entries = sort_key fst tree_entries
          in (index_new instance_id now)\<lparr>ix_status := Persisted i, ix_pack_ids := packs,
               ix_data_ids := Immutable data_entries (bloom_of sz data_entries),
               ix_tree_ids := Immutable tree_entries (bloom_of sz tree_entries)\<rparr>)"

text \<open>\<open>add_to_entries\<close> of \<open>persist\<close>: \<open>pack_entries[i]\<close> panics out of range, which \<open>index_ok\<close> excludes.\<close>

definition file_blob :: "BlobType \<Rightarrow> ID \<Rightarrow> BlobLocationInternal \<Rightarrow> IndexFileBlob" where
  "file_blob t i loc =
     \<lparr>fb_id = i, fb_type = t, fb_offset = bl_offset loc, fb_length = bl_length loc, fb_raw_length = bl_raw_length loc\<rparr>"

definition add_to_entries :: "BlobMap \<Rightarrow> BlobType \<Rightarrow> IndexFilePack list \<Rightarrow> IndexFilePack list" where
  "add_to_entries m t pack_entries =
     fold (\<lambda>(i, loc) es. let k = unat (bl_pack_array_index loc)
                         in es[k := (es ! k)\<lparr>fp_blobs := fp_blobs (es ! k) @ [file_blob t i loc]\<rparr>])
       (bm_iter m) pack_entries"

definition index_file_of :: "Index \<Rightarrow> IndexFile" where
  "index_file_of ix =
     (let pack_entries = map (\<lambda>p. \<lparr>fp_id = p, fp_blobs = []\<rparr>) (is_iter (ix_pack_ids ix));
          pack_entries = add_to_entries (ix_data_ids ix) Data pack_entries;
          pack_entries = add_to_entries (ix_tree_ids ix) Tree pack_entries;
          pack_entries = map (\<lambda>p. p\<lparr>fp_blobs := sort_key fb_id (fp_blobs p)\<rparr>) pack_entries;
          pack_entries = filter (\<lambda>p. fp_blobs p \<noteq> []) pack_entries;
          pack_entries = sort_key fp_id pack_entries
      in \<lparr>if_packs = pack_entries\<rparr>)"

text \<open>\<open>persist\<close>: \<open>to_json\<close> is \<open>serde_json::to_vec\<close>, \<open>save\<close> the repository's \<open>save_file\<close> on its state \<open>'r\<close>.\<close>

definition index_persist :: "bloom_sizing \<Rightarrow> (IndexFile \<Rightarrow> bytes option) \<Rightarrow>
    (bytes \<Rightarrow> 'r \<Rightarrow> (ID \<times> SizePair) result \<times> 'r) \<Rightarrow> Index \<Rightarrow> 'r \<Rightarrow> SizePair result \<times> Index \<times> 'r" where
  "index_persist sz to_json save ix r =
     (let ix1 = index_finalize ix
      in if index_is_empty ix1 then (Ok sp_zero, ix1, r)
         else case to_json (index_file_of ix1) of
             None \<Rightarrow> (Err Serialization, ix1, r)
           | Some serialized \<Rightarrow>
               (case save serialized r of
                  (Inl e, r') \<Rightarrow> (Err e, ix1, r')
                | (Inr (i, sizes), r') \<Rightarrow>
                    (Ok sizes,
                     (set_status ix1 (Persisted i))\<lparr>ix_data_ids := bm_freeze sz (ix_data_ids ix1),
                                                    ix_tree_ids := bm_freeze sz (ix_tree_ids ix1)\<rparr>, r')))"

text \<open>\<open>get_pack_descriptors\<close>, \<open>entry().or_insert_with(Vec::new).push\<close> per blob.\<close>

definition group_push :: "ID \<Rightarrow> 'd \<Rightarrow> (ID \<times> 'd list) list \<Rightarrow> (ID \<times> 'd list) list" where
  "group_push p d m = hm_insert p ((case hm_get m p of None \<Rightarrow> [] | Some ds \<Rightarrow> ds) @ [d]) m"

definition location_descriptor :: "BlobType \<Rightarrow> ID \<Rightarrow> BlobLocationInternal \<Rightarrow> PackedBlobDescriptor" where
  "location_descriptor t i loc =
     \<lparr>pd_id = i, pd_type = t, pd_offset = bl_offset loc, pd_length = bl_length loc, pd_raw_length = bl_raw_length loc\<rparr>"

definition process_map :: "Index \<Rightarrow> ID set option \<Rightarrow> BlobMap \<Rightarrow> BlobType \<Rightarrow>
    (ID \<times> PackedBlobDescriptor list) list \<Rightarrow> (ID \<times> PackedBlobDescriptor list) list" where
  "process_map ix obsolete_packs m t acc =
     fold (\<lambda>(i, loc) acc.
         case is_get_value (ix_pack_ids ix) (unat (bl_pack_array_index loc)) of
           None \<Rightarrow> acc
         | Some pack_id \<Rightarrow>
             if (case obsolete_packs of Some obsolete \<Rightarrow> pack_id \<in> obsolete | None \<Rightarrow> False) then acc
             else group_push pack_id (location_descriptor t i loc) acc)
       (bm_iter m) acc"

definition get_pack_descriptors :: "Index \<Rightarrow> ID set option \<Rightarrow> (ID \<times> PackedBlobDescriptor list) list" where
  "get_pack_descriptors ix obsolete_packs =
     process_map ix obsolete_packs (ix_tree_ids ix) Tree
       (process_map ix obsolete_packs (ix_data_ids ix) Data [])"

section \<open>Invariant and abstraction\<close>

definition ix_map :: "Index \<Rightarrow> BlobType \<Rightarrow> BlobMap" where
  "ix_map ix t = (case t of Data \<Rightarrow> ix_data_ids ix | Tree \<Rightarrow> ix_tree_ids ix | Padding \<Rightarrow> Mutable [])"

definition mutable_map :: "BlobMap \<Rightarrow> bool" where
  "mutable_map m \<longleftrightarrow> (case m of Mutable _ \<Rightarrow> True | _ \<Rightarrow> False)"

definition locs_below :: "nat \<Rightarrow> BlobMap \<Rightarrow> bool" where
  "locs_below n m \<longleftrightarrow> (\<forall>(i, loc)\<in>set (bm_iter m). unat (bl_pack_array_index loc) < n)"

text \<open>Pack numbers are in range and fit 32 bits; a pending index is still mutable.\<close>

definition index_ok :: "Index \<Rightarrow> bool" where
  "index_ok ix \<longleftrightarrow>
     is_ok (ix_pack_ids ix) \<and> is_len (ix_pack_ids ix) \<le> 2 ^ 32 \<and>
     (\<forall>t. bm_ok (ix_map ix t) \<and> locs_below (is_len (ix_pack_ids ix)) (ix_map ix t)) \<and>
     (is_pending ix \<longrightarrow> mutable_map (ix_data_ids ix) \<and> mutable_map (ix_tree_ids ix))"

text \<open>An index as the map it stands for.\<close>

definition index_abs :: "Index \<Rightarrow> BlobType \<times> ID \<Rightarrow> BlobLocator option" where
  "index_abs ix = (\<lambda>(t, i). Option.bind (bm_get (ix_map ix t) i) (\<lambda>l. resolve_location ix l t))"

definition desc_locator :: "ID \<Rightarrow> PackedBlobDescriptor \<Rightarrow> BlobLocator" where
  "desc_locator pack_id d =
     \<lparr>lo_pack_id = pack_id, lo_offset = pd_offset d, lo_length = pd_length d,
      lo_raw_length = pd_raw_length d, lo_type = pd_type d\<rparr>"

definition spec_add :: "ID \<Rightarrow> PackedBlobDescriptor \<Rightarrow> (BlobType \<times> ID \<Rightarrow> BlobLocator option) \<Rightarrow>
    BlobType \<times> ID \<Rightarrow> BlobLocator option" where
  "spec_add pack_id d m = (if pd_type d = Padding then m else m((pd_type d, pd_id d) \<mapsto> desc_locator pack_id d))"

lemma ix_map_simps [simp]:
  "ix_map ix Data = ix_data_ids ix" "ix_map ix Tree = ix_tree_ids ix" "ix_map ix Padding = Mutable []"
  by (simp_all add: ix_map_def)

lemma all_types: "(\<forall>t. P t) \<longleftrightarrow> P Data \<and> P Tree \<and> P Padding"
  by (metis BlobType.exhaust)

lemma index_ok_new [simp]: "index_ok (index_new i now)"
  by (simp add: index_ok_def index_new_def new_mutable_def all_types mutable_map_def locs_below_def is_len_def)
    (simp add: is_new_def)

lemma index_get_abs:
  "index_get ix i = (case index_abs ix (Data, i) of Some l \<Rightarrow> Some l | None \<Rightarrow> index_abs ix (Tree, i))"
  unfolding index_get_def index_abs_def prod.case ix_map_simps ..

lemma resolve_Some:
  assumes "index_ok ix" "(i, loc) \<in> set (bm_iter (ix_map ix t))"
  shows "\<exists>l. resolve_location ix loc t' = Some l"
  using assms by (fastforce simp: index_ok_def locs_below_def resolve_location_def is_get_value_def is_len_def)

lemma index_abs_dom:
  assumes "index_ok ix"
  shows "index_abs ix (t, i) \<noteq> None \<longleftrightarrow> bm_contains (ix_map ix t) i"
proof -
  have ok: "bm_ok (ix_map ix t)" using assms by (simp add: index_ok_def)
  have "\<exists>l. resolve_location ix v t = Some l" if "bm_get (ix_map ix t) i = Some v" for v
    using resolve_Some [OF assms blob_map.get_sound [OF ok that]] .
  then show ?thesis
    using blob_map.has_get [OF ok, of i] by (cases "bm_get (ix_map ix t) i") (auto simp: index_abs_def)
qed

lemma index_contains_abs:
  "index_ok ix \<Longrightarrow> index_contains ix i \<longleftrightarrow> index_abs ix (Data, i) \<noteq> None \<or> index_abs ix (Tree, i) \<noteq> None"
  using index_abs_dom [of ix Data i] index_abs_dom [of ix Tree i] by (simp add: index_contains_def)

lemma index_get_contains: "index_ok ix \<Longrightarrow> index_get ix i \<noteq> None \<longleftrightarrow> index_contains ix i"
  by (auto simp: index_get_abs index_contains_abs split: option.splits)

section \<open>add\_pack\<close>

definition packs_grow :: "Index \<Rightarrow> Index \<Rightarrow> bool" where
  "packs_grow ix ix' \<longleftrightarrow> (\<forall>k v. is_get_value (ix_pack_ids ix) k = Some v \<longrightarrow> is_get_value (ix_pack_ids ix') k = Some v)"

lemma index_add_blob_frame [simp]:
  "ix_pack_ids (index_add_blob n d ix) = ix_pack_ids ix" "ix_status (index_add_blob n d ix) = ix_status ix"
  "ix_instance_id (index_add_blob n d ix) = ix_instance_id ix" "ix_create_time (index_add_blob n d ix) = ix_create_time ix"
  by (simp_all add: index_add_blob_def split: BlobType.splits)

lemma fold_add_blob_frame [simp]:
  "ix_pack_ids (fold (index_add_blob n) ds ix) = ix_pack_ids ix" "ix_status (fold (index_add_blob n) ds ix) = ix_status ix"
  "ix_instance_id (fold (index_add_blob n) ds ix) = ix_instance_id ix"
  "ix_create_time (fold (index_add_blob n) ds ix) = ix_create_time ix"
  by (induction ds arbitrary: ix) simp_all

lemma bm_insert_mutable: "mutable_map m \<Longrightarrow> mutable_map (bm_insert m i loc)"
  by (cases m) (auto simp: mutable_map_def)

lemma bm_get_insert: "mutable_map m \<Longrightarrow> bm_get (bm_insert m j loc) i = (if i = j then Some loc else bm_get m i)"
  by (cases m) (auto simp: mutable_map_def hm_simps)

lemma bm_iter_insert: "set (bm_iter (bm_insert m j loc)) \<subseteq> insert (j, loc) (set (bm_iter m))"
proof (cases m)
  case (Mutable e)
  have "set (hm_insert j loc e) \<subseteq> insert (j, loc) (set e)" by (induction e) auto
  with Mutable show ?thesis by simp
qed auto

lemma locs_below_insert:
  "unat n < k \<Longrightarrow> locs_below k m \<Longrightarrow> locs_below k (bm_insert m j (desc_location n d))"
  using bm_iter_insert [of m j "desc_location n d"] by (fastforce simp: desc_location_def locs_below_def)

lemma locs_below_mono: "locs_below n m \<Longrightarrow> n \<le> k \<Longrightarrow> locs_below k m"
  by (fastforce simp: locs_below_def)

lemma index_add_blob_ok:
  assumes "index_ok ix" "unat n < is_len (ix_pack_ids ix)"
  shows "index_ok (index_add_blob n d ix)"
  using assms locs_below_insert [of n "is_len (ix_pack_ids ix)"] bm_insert_mutable
  by (auto simp: index_ok_def all_types is_pending_def index_add_blob_def split: BlobType.splits)

lemma fold_add_blob_ok:
  "index_ok ix \<Longrightarrow> unat n < is_len (ix_pack_ids ix) \<Longrightarrow> index_ok (fold (index_add_blob n) ds ix)"
  by (induction ds arbitrary: ix) (simp_all add: index_add_blob_ok)

lemma index_add_blob_mutable:
  "mutable_map (ix_data_ids ix) \<and> mutable_map (ix_tree_ids ix) \<Longrightarrow>
   mutable_map (ix_data_ids (index_add_blob n d ix)) \<and> mutable_map (ix_tree_ids (index_add_blob n d ix))"
  by (auto simp: index_add_blob_def bm_insert_mutable split: BlobType.splits)

lemma resolve_frame [simp]:
  "resolve_location (ix\<lparr>ix_data_ids := m\<rparr>) = resolve_location ix"
  "resolve_location (ix\<lparr>ix_tree_ids := m\<rparr>) = resolve_location ix"
  "resolve_location (ix\<lparr>ix_status := st\<rparr>) = resolve_location ix"
  by (rule ext, rule ext, simp add: resolve_location_def)+

lemma index_add_blob_abs:
  assumes "mutable_map (ix_data_ids ix) \<and> mutable_map (ix_tree_ids ix)"
    "is_get_value (ix_pack_ids ix) (unat n) = Some pack_id"
  shows "index_abs (index_add_blob n d ix) = spec_add pack_id d (index_abs ix)"
proof (rule ext, clarify)
  fix t i
  have "resolve_location ix (desc_location n d) (pd_type d) = Some (desc_locator pack_id d)"
    using assms(2) by (simp add: resolve_location_def desc_location_def desc_locator_def)
  then show "index_abs (index_add_blob n d ix) (t, i) = spec_add pack_id d (index_abs ix) (t, i)"
    using assms(1)
    by (cases "pd_type d"; cases t)
      (auto simp: index_abs_def spec_add_def index_add_blob_def bm_get_insert)
qed

lemma fold_add_blob_abs:
  assumes "mutable_map (ix_data_ids ix) \<and> mutable_map (ix_tree_ids ix)"
    "is_get_value (ix_pack_ids ix) (unat n) = Some pack_id"
  shows "index_abs (fold (index_add_blob n) ds ix) = fold (spec_add pack_id) ds (index_abs ix)"
  using assms
proof (induction ds arbitrary: ix)
  case (Cons d ds)
  then show ?case
    using index_add_blob_abs [of ix n pack_id d] index_add_blob_mutable [of ix n d] by simp
qed simp

lemma is_insert_len:
  "is_ok s \<Longrightarrow> is_insert s x = (s', n) \<Longrightarrow> is_len s \<le> is_len s' \<and> is_len s' \<le> is_len s + 1 \<and> n < is_len s'"
  by (auto simp: is_insert_def is_len_def Let_def split: option.splits dest: is_okD)

text \<open>Adding a pack to the list changes no lookup.\<close>

lemma index_abs_packs:
  assumes "index_ok ix" "is_insert (ix_pack_ids ix) p = (packs, n)"
  shows "index_abs (ix\<lparr>ix_pack_ids := packs\<rparr>) = index_abs ix"
proof (rule ext, clarify)
  fix t i
  have ok: "bm_ok (ix_map ix t)" using assms(1) by (simp add: index_ok_def)
  have m: "ix_map (ix\<lparr>ix_pack_ids := packs\<rparr>) t = ix_map ix t" by (cases t) auto
  show "index_abs (ix\<lparr>ix_pack_ids := packs\<rparr>) (t, i) = index_abs ix (t, i)"
  proof (cases "bm_get (ix_map ix t) i")
    case (Some loc)
    from resolve_Some [OF assms(1) blob_map.get_sound [OF ok Some]] obtain l where "resolve_location ix loc t = Some l" ..
    with index_set.val_stable [of "ix_pack_ids ix" _ _ p] assms(2)
    have "resolve_location (ix\<lparr>ix_pack_ids := packs\<rparr>) loc t = resolve_location ix loc t"
      by (auto simp: resolve_location_def split: option.splits)
    with Some m show ?thesis by (simp add: index_abs_def)
  qed (simp add: index_abs_def m)
qed

lemma index_ok_packs:
  assumes "index_ok ix" "is_insert (ix_pack_ids ix) p = (packs, n)" "is_len packs \<le> 2 ^ 32"
  shows "index_ok (ix\<lparr>ix_pack_ids := packs\<rparr>)"
proof -
  have "is_ok packs" using index_set.ok_ins [of "ix_pack_ids ix" p] assms by (simp add: index_ok_def)
  moreover have "is_len (ix_pack_ids ix) \<le> is_len packs"
    using is_insert_len [OF _ assms(2)] assms(1) by (simp add: index_ok_def)
  ultimately show ?thesis
    using assms(1,3) locs_below_mono by (auto simp: index_ok_def all_types is_pending_def)
qed

lemma index_add_pack_props:
  assumes "index_ok ix" "is_pending ix" "is_len (ix_pack_ids ix) < 2 ^ 32"
  shows "index_ok (index_add_pack ix p ds) \<and> index_abs (index_add_pack ix p ds) = fold (spec_add p) ds (index_abs ix)"
proof -
  obtain packs n where ins: "is_insert (ix_pack_ids ix) p = (packs, n)" by fastforce
  have oks: "is_ok (ix_pack_ids ix)" using assms(1) by (simp add: index_ok_def)
  from is_insert_len [OF oks ins] assms(3) have n: "n < is_len packs" "is_len packs \<le> 2 ^ 32" by auto
  then have un: "unat (word_of_nat n :: u32) = n" by (intro unat_of_nat_u32) simp
  let ?ix = "ix\<lparr>ix_pack_ids := packs\<rparr>"
  have ok: "index_ok ?ix" by (rule index_ok_packs [OF assms(1) ins n(2)])
  have "is_get_value packs n = Some p" using index_set.val_ins [OF oks, of p] ins by simp
  moreover have "mutable_map (ix_data_ids ?ix) \<and> mutable_map (ix_tree_ids ?ix)"
    using assms(1,2) by (simp add: index_ok_def)
  ultimately have "index_abs (fold (index_add_blob (word_of_nat n)) ds ?ix) = fold (spec_add p) ds (index_abs ?ix)"
    by (intro fold_add_blob_abs) (simp_all add: un)
  moreover have "index_ok (fold (index_add_blob (word_of_nat n)) ds ?ix)"
    by (rule fold_add_blob_ok [OF ok]) (simp add: un n)
  ultimately show ?thesis by (simp add: index_add_pack_def ins index_abs_packs [OF assms(1) ins])
qed

section \<open>Entries as a relation\<close>

text \<open>All entries of one type with their pack numbers resolved. A loaded index may hold an id twice.\<close>

definition resolved :: "Index \<Rightarrow> BlobType \<Rightarrow> (ID \<times> BlobLocator) set" where
  "resolved ix t = {(i, l). \<exists>loc. (i, loc) \<in> set (bm_iter (ix_map ix t)) \<and> resolve_location ix loc t = Some l}"

lemma index_abs_sound: "index_ok ix \<Longrightarrow> index_abs ix (t, i) = Some l \<Longrightarrow> (i, l) \<in> resolved ix t"
  by (auto simp: index_abs_def resolved_def index_ok_def bind_eq_Some_conv dest: blob_map.get_sound)

lemma index_abs_complete: "index_ok ix \<Longrightarrow> (i, l) \<in> resolved ix t \<Longrightarrow> \<exists>l'. index_abs ix (t, i) = Some l'"
proof -
  assume ok: "index_ok ix" and "(i, l) \<in> resolved ix t"
  then have "bm_contains (ix_map ix t) i"
    using blob_map.has_iff [of "ix_map ix t" i] by (force simp: resolved_def index_ok_def)
  with index_abs_dom [OF ok] show ?thesis by blast
qed

lemma index_abs_unique:
  assumes "index_ok ix" "index_ok ix'" "\<And>t. resolved ix' t = resolved ix t" "\<And>t. single_valued (resolved ix t)"
  shows "index_abs ix' = index_abs ix"
proof (rule ext, clarify)
  fix t i
  show "index_abs ix' (t, i) = index_abs ix (t, i)"
  proof (cases "index_abs ix (t, i)")
    case None
    have "index_abs ix' (t, i) = Some l \<Longrightarrow> False" for l
      using index_abs_sound [OF assms(2), of t i l] index_abs_complete [OF assms(1), of i l t] None
      by (simp add: assms(3))
    with None show ?thesis by (cases "index_abs ix' (t, i)") auto
  next
    case (Some l)
    then have l: "(i, l) \<in> resolved ix t" by (rule index_abs_sound [OF assms(1)])
    then obtain l' where l': "index_abs ix' (t, i) = Some l'"
      using index_abs_complete [OF assms(2), of i l t] by (auto simp: assms(3))
    have "(i, l') \<in> resolved ix t" using index_abs_sound [OF assms(2) l'] by (simp add: assms(3))
    then have "l' = l" using single_valuedD [OF assms(4) [of t] l] by simp
    with Some l' show ?thesis by simp
  qed
qed

lemma mutable_single_valued:
  assumes "index_ok ix" "mutable_map (ix_data_ids ix)" "mutable_map (ix_tree_ids ix)"
  shows "single_valued (resolved ix t)"
proof -
  have mut: "mutable_map (ix_map ix t)" using assms by (cases t) (auto simp: mutable_map_def)
  have "bm_ok (ix_map ix t)" using assms(1) by (simp add: index_ok_def)
  with mut have "distinct (map fst (bm_iter (ix_map ix t)))"
    by (cases "ix_map ix t") (auto simp: mutable_map_def hm_ok_def)
  then have "loc = loc'" if "(i, loc) \<in> set (bm_iter (ix_map ix t))" "(i, loc') \<in> set (bm_iter (ix_map ix t))" for i loc loc'
    using that by (rule eq_key_imp_eq_value)
  then show ?thesis unfolding single_valued_def resolved_def by fastforce
qed

lemma set_map_filter_Pair:
  "set (List.map_filter (\<lambda>(i, loc). map_option (Pair i) (f loc)) xs) = {(i, l). \<exists>loc. (i, loc) \<in> set xs \<and> f loc = Some l}"
  by (force simp: map_filter_def)

lemma set_iter_ids: "set (iter_ids ix) = resolved ix Data \<union> resolved ix Tree"
  unfolding iter_ids_def set_append set_map_filter_Pair resolved_def ix_map_simps ..

lemma iter_ids_contains:
  assumes "index_ok ix"
  shows "i \<in> fst ` set (iter_ids ix) \<longleftrightarrow> index_contains ix i"
proof -
  have "i \<in> fst ` resolved ix t \<longleftrightarrow> index_abs ix (t, i) \<noteq> None" for t
    using index_abs_sound [OF assms, of t i] index_abs_complete [OF assms, of i _ t] by force
  then show ?thesis by (simp only: set_iter_ids image_Un Un_iff index_contains_abs [OF assms])
qed

section \<open>The file holds what the index holds\<close>

definition file_locator :: "ID \<Rightarrow> IndexFileBlob \<Rightarrow> BlobLocator" where
  "file_locator p b =
     \<lparr>lo_pack_id = p, lo_offset = fb_offset b, lo_length = fb_length b, lo_raw_length = fb_raw_length b, lo_type = fb_type b\<rparr>"

definition file_locs :: "IndexFilePack list \<Rightarrow> BlobType \<Rightarrow> (ID \<times> BlobLocator) set" where
  "file_locs ps t =
     (\<Union>p\<in>set ps. (\<lambda>b. (fb_id b, file_locator (fp_id p) b)) ` {b \<in> set (fp_blobs p). fb_type b = t})"

text \<open>The blobs of a vector of pack entries, each with the position of its pack.\<close>

definition placed :: "IndexFilePack list \<Rightarrow> (nat \<times> IndexFileBlob) set" where
  "placed es = {(k, b). k < length es \<and> b \<in> set (fp_blobs (es ! k))}"

lemma placed_push:
  assumes "k < length es"
  shows "placed (es[k := (es ! k)\<lparr>fp_blobs := fp_blobs (es ! k) @ [b]\<rparr>]) = insert (k, b) (placed es)"
  using assms by (auto simp: placed_def nth_list_update split: if_splits)

lemma map_id_push: "map fp_id (es[k := (es ! k)\<lparr>fp_blobs := bs\<rparr>]) = map fp_id es"
  by (cases "k < length es") (auto simp: nth_list_update intro!: nth_equalityI)

lemma add_to_entries_props:
  assumes "locs_below (length es) m"
  shows "map fp_id (add_to_entries m t es) = map fp_id es \<and>
     placed (add_to_entries m t es) =
       placed es \<union> {(unat (bl_pack_array_index loc), file_blob t i loc) | i loc. (i, loc) \<in> set (bm_iter m)}"
proof -
  have "map fp_id (fold (\<lambda>(i, loc) es. let k = unat (bl_pack_array_index loc)
           in es[k := (es ! k)\<lparr>fp_blobs := fp_blobs (es ! k) @ [file_blob t i loc]\<rparr>]) xs es) = map fp_id es \<and>
     placed (fold (\<lambda>(i, loc) es. let k = unat (bl_pack_array_index loc)
           in es[k := (es ! k)\<lparr>fp_blobs := fp_blobs (es ! k) @ [file_blob t i loc]\<rparr>]) xs es) =
       placed es \<union> {(unat (bl_pack_array_index loc), file_blob t i loc) | i loc. (i, loc) \<in> set xs}"
    if "\<forall>(i, loc)\<in>set xs. unat (bl_pack_array_index loc) < length es" for xs
    using that
  proof (induction xs arbitrary: es)
    case (Cons x xs)
    obtain i loc where x: "x = (i, loc)" by fastforce
    let ?k = "unat (bl_pack_array_index loc)"
    let ?es = "es[?k := (es ! ?k)\<lparr>fp_blobs := fp_blobs (es ! ?k) @ [file_blob t i loc]\<rparr>]"
    have "placed ?es = insert (?k, file_blob t i loc) (placed es)" using Cons.prems x by (intro placed_push) simp
    moreover have "map fp_id ?es = map fp_id es" by (rule map_id_push)
    ultimately show ?case using Cons.IH [of ?es] Cons.prems x by (auto simp: Let_def)
  qed simp
  then show ?thesis using assms unfolding add_to_entries_def locs_below_def by blast
qed

lemma file_locs_post [simp]:
  "file_locs (map (\<lambda>p. p\<lparr>fp_blobs := sort_key fb_id (fp_blobs p)\<rparr>) ps) t = file_locs ps t"
  "file_locs (filter (\<lambda>p. fp_blobs p \<noteq> []) ps) t = file_locs ps t"
  "file_locs (sort_key fp_id ps) t = file_locs ps t"
  by (auto simp: file_locs_def)

lemma file_locs_placed:
  "file_locs es t = (\<lambda>(k, b). (fb_id b, file_locator (map fp_id es ! k) b)) ` {(k, b). (k, b) \<in> placed es \<and> fb_type b = t}"
proof (rule set_eqI, rule iffI)
  fix x
  assume "x \<in> file_locs es t"
  then obtain p b where pb: "p \<in> set es" "b \<in> set (fp_blobs p)" "fb_type b = t" "x = (fb_id b, file_locator (fp_id p) b)"
    by (auto simp: file_locs_def)
  obtain k where "k < length es" "es ! k = p" using pb(1) by (auto simp: in_set_conv_nth)
  with pb show "x \<in> (\<lambda>(k, b). (fb_id b, file_locator (map fp_id es ! k) b)) ` {(k, b). (k, b) \<in> placed es \<and> fb_type b = t}"
    by (intro image_eqI [of _ _ "(k, b)"]) (auto simp: placed_def)
qed (force simp: file_locs_def placed_def)

lemma index_file_locs:
  assumes "index_ok ix" "t \<noteq> Padding"
  shows "file_locs (if_packs (index_file_of ix)) t = resolved ix t"
proof -
  let ?packs = "is_iter (ix_pack_ids ix)"
  let ?e0 = "map (\<lambda>p. \<lparr>fp_id = p, fp_blobs = []\<rparr>) ?packs"
  define e1 where "e1 = add_to_entries (ix_data_ids ix) Data ?e0"
  define e2 where "e2 = add_to_entries (ix_tree_ids ix) Tree e1"
  have len: "length ?e0 = is_len (ix_pack_ids ix)" by (simp add: is_iter_def is_len_def)
  have below: "locs_below (is_len (ix_pack_ids ix)) (ix_data_ids ix)" "locs_below (is_len (ix_pack_ids ix)) (ix_tree_ids ix)"
    using assms(1) by (auto simp: index_ok_def all_types)
  have 1: "map fp_id e1 = map fp_id ?e0"
    "placed e1 = placed ?e0 \<union> {(unat (bl_pack_array_index loc), file_blob Data i loc) | i loc. (i, loc) \<in> set (bm_iter (ix_data_ids ix))}"
    unfolding e1_def using add_to_entries_props [of ?e0 "ix_data_ids ix" Data] below(1) len by auto
  have "length e1 = length ?e0" using 1(1) by (metis length_map)
  then have 2: "map fp_id e2 = map fp_id ?e0"
    "placed e2 = placed e1 \<union> {(unat (bl_pack_array_index loc), file_blob Tree i loc) | i loc. (i, loc) \<in> set (bm_iter (ix_tree_ids ix))}"
    unfolding e2_def using add_to_entries_props [of e1 "ix_tree_ids ix" Tree] below(2) len 1(1) by auto
  have ids: "map fp_id ?e0 = ?packs" by (simp add: comp_def)
  have "placed ?e0 = {}" by (auto simp: placed_def)
  then have pl: "(k, b) \<in> placed e2 \<and> fb_type b = t \<longleftrightarrow>
      (\<exists>i loc. (i, loc) \<in> set (bm_iter (ix_map ix t)) \<and> k = unat (bl_pack_array_index loc) \<and> b = file_blob t i loc)" for k b
    using assms(2) 1(2) 2(2) by (cases t) (auto simp: file_blob_def)
  have res: "resolve_location ix loc t = Some (file_locator (?packs ! unat (bl_pack_array_index loc)) (file_blob t i loc))"
    if "(i, loc) \<in> set (bm_iter (ix_map ix t))" for i loc
    using that assms(1)
    by (fastforce simp: index_ok_def locs_below_def resolve_location_def is_get_value_def is_len_def is_iter_def
        file_locator_def file_blob_def)
  have "file_locs (if_packs (index_file_of ix)) t = file_locs e2 t"
    by (simp add: index_file_of_def Let_def e1_def e2_def)
  also have "\<dots> = {(i, file_locator (?packs ! unat (bl_pack_array_index loc)) (file_blob t i loc)) | i loc.
      (i, loc) \<in> set (bm_iter (ix_map ix t))}"
    unfolding file_locs_placed 2(1) ids pl
    by (force simp: image_def file_blob_def)
  also have "\<dots> = resolved ix t" using res by (fastforce simp: resolved_def)
  finally show ?thesis .
qed

lemma length_add_to_entries [simp]: "length (add_to_entries m t es) = length es"
proof -
  have "length (fold (\<lambda>(i, loc) es. let k = unat (bl_pack_array_index loc)
      in es[k := (es ! k)\<lparr>fp_blobs := fp_blobs (es ! k) @ [file_blob t i loc]\<rparr>]) xs es) = length es" for xs
    by (induction xs arbitrary: es) (auto simp: Let_def)
  then show ?thesis by (simp add: add_to_entries_def)
qed

lemma index_file_length: "length (if_packs (index_file_of ix)) \<le> is_len (ix_pack_ids ix)"
  by (simp add: index_file_of_def Let_def is_iter_def is_len_def)
    (rule order.trans [OF length_filter_le], simp)

section \<open>Loading a file\<close>

text \<open>The entries of one vector, resolved with the packs read so far.\<close>

definition loc_of :: "ID IndexSet \<Rightarrow> BlobType \<Rightarrow> BlobLocationInternal \<Rightarrow> BlobLocator option" where
  "loc_of packs t loc =
     map_option (\<lambda>p. \<lparr>lo_pack_id = p, lo_offset = bl_offset loc, lo_length = bl_length loc,
        lo_raw_length = bl_raw_length loc, lo_type = t\<rparr>) (is_get_value packs (unat (bl_pack_array_index loc)))"

definition loaded :: "ID IndexSet \<Rightarrow> BlobType \<Rightarrow> (ID \<times> BlobLocationInternal) list \<Rightarrow> (ID \<times> BlobLocator) set" where
  "loaded packs t es = {(i, l). \<exists>loc. (i, loc) \<in> set es \<and> loc_of packs t loc = Some l}"

definition in_range :: "ID IndexSet \<Rightarrow> (ID \<times> BlobLocationInternal) list \<Rightarrow> bool" where
  "in_range packs es \<longleftrightarrow> (\<forall>(i, loc)\<in>set es. unat (bl_pack_array_index loc) < is_len packs)"

lemma fold_load_blob:
  "fold (load_blob n) bs (de, te) =
     (de @ map (file_location n) (filter (\<lambda>b. fb_type b = Data) bs), te @ map (file_location n) (filter (\<lambda>b. fb_type b = Tree) bs))"
  by (induction bs arbitrary: de te) (auto simp: load_blob_def split: BlobType.splits)

lemma loaded_append: "loaded packs t (xs @ ys) = loaded packs t xs \<union> loaded packs t ys"
  by (auto simp: loaded_def)

lemma in_range_append: "in_range packs (xs @ ys) \<longleftrightarrow> in_range packs xs \<and> in_range packs ys"
  by (auto simp: in_range_def)

lemma loaded_grow:
  assumes "is_ok packs" "is_insert packs p = (packs', n)" "in_range packs es"
  shows "loaded packs' t es = loaded packs t es \<and> in_range packs' es"
proof -
  have "is_get_value packs' k = is_get_value packs k" if "k < is_len packs" for k
    using that index_set.val_stable [of packs k _ p] assms(2) by (auto simp: is_get_value_def is_len_def)
  then have "loc_of packs' t loc = loc_of packs t loc" if "(i, loc) \<in> set es" for i loc
    using that assms(3) by (fastforce simp: loc_of_def in_range_def)
  moreover have "is_len packs \<le> is_len packs'" using is_insert_len [OF assms(1,2)] by simp
  ultimately show ?thesis using assms(3) by (fastforce simp: loaded_def in_range_def)
qed

lemma loaded_new:
  assumes "is_ok packs" "is_insert packs p = (packs', n)" "is_len packs < 2 ^ 32"
  shows "loaded packs' t (map (file_location (word_of_nat n)) (filter (\<lambda>b. fb_type b = t) bs)) =
      {(fb_id b, file_locator p b) | b. b \<in> set bs \<and> fb_type b = t} \<and>
    in_range packs' (map (file_location (word_of_nat n)) (filter (\<lambda>b. fb_type b = t) bs))"
proof -
  have n: "n < is_len packs'" "is_len packs' \<le> 2 ^ 32" using is_insert_len [OF assms(1,2)] assms(3) by auto
  then have un: "unat (word_of_nat n :: u32) = n" by (intro unat_of_nat_u32) simp
  have "is_get_value packs' n = Some p" using index_set.val_ins [OF assms(1), of p] assms(2) by simp
  with un n show ?thesis
    by (fastforce simp: loaded_def in_range_def loc_of_def file_location_def file_locator_def)
qed

lemma fold_load_pack:
  assumes "is_ok packs" "in_range packs de" "in_range packs te" "is_len packs + length ps \<le> 2 ^ 32"
    "fold load_pack ps (packs, de, te) = (packs', de', te')"
  shows "is_ok packs' \<and> in_range packs' de' \<and> in_range packs' te' \<and> is_len packs' \<le> 2 ^ 32 \<and>
    loaded packs' Data de' = loaded packs Data de \<union> file_locs ps Data \<and>
    loaded packs' Tree te' = loaded packs Tree te \<union> file_locs ps Tree"
  using assms
proof (induction ps arbitrary: packs de te)
  case Nil
  then show ?case by (auto simp: file_locs_def)
next
  case (Cons p ps)
  obtain packs1 n where ins: "is_insert packs (fp_id p) = (packs1, n)" by fastforce
  let ?new = "\<lambda>t. map (file_location (word_of_nat n)) (filter (\<lambda>b. fb_type b = t) (fp_blobs p))"
  have lp: "load_pack p (packs, de, te) = (packs1, de @ ?new Data, te @ ?new Tree)"
    by (simp add: load_pack_def ins fold_load_blob)
  have len: "is_len packs < 2 ^ 32" using Cons.prems by simp
  note new = loaded_new [OF Cons.prems(1) ins len, of _ "fp_blobs p"]
  note old = loaded_grow [OF Cons.prems(1) ins]
  have ok1: "is_ok packs1" using index_set.ok_ins [OF Cons.prems(1), of "fp_id p"] ins by simp
  have rng: "in_range packs1 (de @ ?new Data)" "in_range packs1 (te @ ?new Tree)"
    using new [of Data] new [of Tree] old [OF Cons.prems(2)] old [OF Cons.prems(3)] by (simp_all add: in_range_append)
  have "is_len packs1 + length ps \<le> 2 ^ 32" using is_insert_len [OF Cons.prems(1) ins] Cons.prems(4) by simp
  moreover have "fold load_pack ps (packs1, de @ ?new Data, te @ ?new Tree) = (packs', de', te')"
    using Cons.prems(5) by (simp add: lp)
  ultimately have IH: "is_ok packs' \<and> in_range packs' de' \<and> in_range packs' te' \<and> is_len packs' \<le> 2 ^ 32 \<and>
    loaded packs' Data de' = loaded packs1 Data (de @ ?new Data) \<union> file_locs ps Data \<and>
    loaded packs' Tree te' = loaded packs1 Tree (te @ ?new Tree) \<union> file_locs ps Tree"
    by (rule Cons.IH [OF ok1 rng])
  have cons: "file_locs (p # ps) t = {(fb_id b, file_locator (fp_id p) b) | b. b \<in> set (fp_blobs p) \<and> fb_type b = t} \<union> file_locs ps t" for t
    by (auto simp: file_locs_def)
  show ?case
    using IH new [of Data] new [of Tree] old [OF Cons.prems(2), of Data] old [OF Cons.prems(3), of Tree]
    by (simp add: loaded_append cons Un_assoc)
qed

lemma from_index_file_props:
  assumes "sizing_ok sz" "length (if_packs f) \<le> 2 ^ 32"
  shows "index_ok (from_index_file sz iid now f j) \<and>
     resolved (from_index_file sz iid now f j) Data = file_locs (if_packs f) Data \<and>
     resolved (from_index_file sz iid now f j) Tree = file_locs (if_packs f) Tree"
proof -
  obtain packs de te where fold: "fold load_pack (if_packs f) (is_new, [], []) = (packs, de, te)" by (metis prod_cases3)
  have new: "is_ok (is_new :: ID IndexSet)" "in_range is_new []" "is_len (is_new :: ID IndexSet) + length (if_packs f) \<le> 2 ^ 32"
    using assms(2) by (simp_all add: in_range_def is_new_def is_len_def) (simp add: is_new_def [symmetric])
  have p: "is_ok packs" "in_range packs de" "in_range packs te" "is_len packs \<le> 2 ^ 32"
    "loaded packs Data de = file_locs (if_packs f) Data" "loaded packs Tree te = file_locs (if_packs f) Tree"
    using fold_load_pack [OF new(1) new(2,2,3) fold] by (auto simp: loaded_def)
  let ?ix = "from_index_file sz iid now f j"
  have ix: "ix_pack_ids ?ix = packs" "ix_status ?ix = Persisted j"
    "ix_data_ids ?ix = Immutable (sort_key fst de) (bloom_of sz (sort_key fst de))"
    "ix_tree_ids ?ix = Immutable (sort_key fst te) (bloom_of sz (sort_key fst te))"
    by (simp_all add: from_index_file_def fold Let_def)
  have imm: "bm_ok (Immutable (sort_key fst es) (bloom_of sz (sort_key fst es)))" for es :: "(ID \<times> BlobLocationInternal) list"
    using bloom_of_contains [OF assms(1), of _ "sort_key fst es"] by (simp add: bloom_of_ok [OF assms(1)])
  have "index_ok ?ix"
    using p(1-4) imm by (simp add: index_ok_def all_types ix is_pending_def locs_below_def in_range_def)
  moreover have "resolve_location ?ix loc t = loc_of packs t loc" for loc t
    by (simp add: resolve_location_def loc_of_def ix split: option.splits)
  ultimately show ?thesis using p(5,6) by (simp add: resolved_def loaded_def ix)
qed

section \<open>Properties\<close>

text \<open>C21: adding a pack to a pending index is a sequence of map updates: every blob of the pack that is not
  padding is found at its place in that pack, a later descriptor of the same blob replaces an earlier
  one, every other lookup is unchanged, and the index stays well formed.\<close>

theorem index_add_pack_refines:
  assumes "index_ok ix" "is_pending ix" "is_len (ix_pack_ids ix) < 2 ^ 32"
  shows "index_ok (index_add_pack ix p ds) \<and> is_pending (index_add_pack ix p ds) \<and>
         index_abs (index_add_pack ix p ds) = fold (spec_add p) ds (index_abs ix)"
  using index_add_pack_props [OF assms] assms(2)
  by (simp add: is_pending_def index_add_pack_def split: prod.splits)

definition demo_desc :: PackedBlobDescriptor where
  "demo_desc = \<lparr>pd_id = ID (replicate 32 1), pd_type = Data, pd_offset = 0, pd_length = 10, pd_raw_length = 20\<rparr>"

theorem index_add_pack_refines_witness:
  "index_abs (index_add_pack (index_new 1 0) (ID (replicate 32 9)) [demo_desc]) (Data, ID (replicate 32 1)) =
     Some (desc_locator (ID (replicate 32 9)) demo_desc)"
  using index_add_pack_refines [of "index_new 1 0" "ID (replicate 32 9)" "[demo_desc]"]
  by (simp add: index_new_def is_pending_def is_len_def is_new_def index_ok_new [unfolded index_new_def is_new_def]
      spec_add_def demo_desc_def)

lemma persist_roundtrip:
  assumes "sizing_ok sz" "index_ok ix" "mutable_map (ix_data_ids ix)" "mutable_map (ix_tree_ids ix)"
  shows "index_ok (from_index_file sz iid now (index_file_of ix) j) \<and>
         index_abs (from_index_file sz iid now (index_file_of ix) j) = index_abs ix"
proof -
  let ?ix = "from_index_file sz iid now (index_file_of ix) j"
  have "length (if_packs (index_file_of ix)) \<le> 2 ^ 32"
    using assms(2) index_file_length [of ix] by (simp add: index_ok_def)
  from from_index_file_props [OF assms(1) this]
  have props: "index_ok ?ix" "resolved ?ix Data = resolved ix Data" "resolved ?ix Tree = resolved ix Tree"
    using index_file_locs [OF assms(2)] by auto
  have "resolved ?ix t = resolved ix t" for t
    using props(2,3) by (cases t) (auto simp: resolved_def)
  with index_abs_unique [OF assms(2) props(1) _ mutable_single_valued [OF assms(2-4)]] props(1) show ?thesis by blast
qed

lemma status_frame [simp]:
  "index_abs (set_status ix st) = index_abs ix" "index_abs (index_finalize ix) = index_abs ix"
  "index_file_of (index_finalize ix) = index_file_of ix"
  "index_is_empty (set_status ix st) = index_is_empty ix" "index_is_empty (index_finalize ix) = index_is_empty ix"
  by (auto simp: fun_eq_iff index_abs_def ix_map_def index_finalize_def set_status_def index_file_of_def
      index_is_empty_def index_num_blobs_def split: BlobType.splits)

lemma set_status_ok: "index_ok ix \<Longrightarrow> st \<noteq> Pending \<Longrightarrow> index_ok (set_status ix st)"
  by (simp add: index_ok_def set_status_def is_pending_def all_types split: IndexStatus.splits)

text \<open>The index that \<open>persist\<close> leaves in memory.\<close>

definition frozen :: "bloom_sizing \<Rightarrow> Index \<Rightarrow> ID \<Rightarrow> Index" where
  "frozen sz ix i = (set_status (index_finalize ix) (Persisted i))\<lparr>
     ix_data_ids := bm_freeze sz (ix_data_ids ix), ix_tree_ids := bm_freeze sz (ix_tree_ids ix)\<rparr>"

lemma index_persist_Ok:
  assumes "\<not> index_is_empty ix" "to_json (index_file_of ix) = Some s" "save s r = (Ok (i, sizes), r')"
  shows "index_persist sz to_json save ix r = (Ok sizes, frozen sz ix i, r')"
  using assms by (simp add: index_persist_def frozen_def Let_def) (simp add: index_finalize_def set_status_def)

lemma frozen_abs:
  assumes "sizing_ok sz" "index_ok ix"
  shows "index_abs (frozen sz ix i) = index_abs ix"
proof (rule ext, clarify)
  fix t b
  have ok: "bm_ok (ix_data_ids ix)" "bm_ok (ix_tree_ids ix)"
    using assms(2) by (simp_all add: index_ok_def all_types)
  have res: "resolve_location (frozen sz ix i) = resolve_location ix"
    by (simp add: frozen_def set_status_def index_finalize_def)
  have "bm_get (ix_map (frozen sz ix i) t) b = bm_get (ix_map ix t) b"
    using bm_freeze_get [OF assms(1) ok(1)] bm_freeze_get [OF assms(1) ok(2)]
    by (cases t) (simp_all add: frozen_def)
  then show "index_abs (frozen sz ix i) (t, b) = index_abs ix (t, b)"
    by (simp add: index_abs_def res)
qed

text \<open>C22: persisting an index loses nothing. When serialization and the save succeed, the index in memory
  (frozen into sorted vectors) and the index a later run rebuilds from the saved file both answer
  every lookup as the index did before, and the rebuilt index is well formed.\<close>

theorem index_persist_roundtrip:
  assumes "sizing_ok sz" "index_ok ix" "is_pending ix" "\<not> index_is_empty ix"
    "to_json (index_file_of ix) = Some s" "save s r = (Ok (i, sizes), r')"
  shows "\<exists>ix'. index_persist sz to_json save ix r = (Ok sizes, ix', r') \<and>
      index_id ix' = Some i \<and> index_abs ix' = index_abs ix \<and>
      index_ok (from_index_file sz iid now (index_file_of ix) i) \<and>
      index_abs (from_index_file sz iid now (index_file_of ix) i) = index_abs ix"
proof -
  have "mutable_map (ix_data_ids ix)" "mutable_map (ix_tree_ids ix)"
    using assms(2,3) by (simp_all add: index_ok_def)
  from persist_roundtrip [OF assms(1,2) this, of iid now i] frozen_abs [OF assms(1,2), of i]
  show ?thesis
    by (simp add: index_persist_Ok [where to_json = to_json and save = save, OF assms(4-6)]) (simp add: index_id_def frozen_def set_status_def)
qed

definition demo_sizing :: bloom_sizing where
  "demo_sizing = (\<lambda>n. 64, \<lambda>m n. 3)"

definition demo_index :: Index where
  "demo_index = index_add_pack (index_new 1 0) (ID (replicate 32 9)) [demo_desc]"

lemma demo_index_ok: "index_ok demo_index" "is_pending demo_index" "\<not> index_is_empty demo_index"
  using index_add_pack_props [of "index_new 1 0" "ID (replicate 32 9)" "[demo_desc]"]
  by (simp_all add: demo_index_def index_new_def is_pending_def is_len_def is_new_def
      index_ok_new [unfolded index_new_def is_new_def])
    (simp_all add: index_add_pack_def is_insert_def index_add_blob_def demo_desc_def
      index_is_empty_def index_num_blobs_def new_mutable_def split: prod.splits)

theorem index_persist_roundtrip_witness:
  "\<exists>ix'. index_persist demo_sizing (\<lambda>f. Some [7]) (\<lambda>s n. (Ok (ID s, sp_new 1 2), n + 1)) demo_index (0::nat) =
      (Ok (sp_new 1 2), ix', 1) \<and> index_abs ix' = index_abs demo_index"
  using index_persist_roundtrip [of demo_sizing demo_index "\<lambda>f. Some [7]" "[7]"
      "\<lambda>s n. (Ok (ID s, sp_new 1 2), n + 1)" "0::nat" "ID [7]" "sp_new 1 2" 1] demo_index_ok
  by (auto simp: sizing_ok_def demo_sizing_def)

end
