(* ===== verification/MasterIndex.thy ===== *)
theory MasterIndex
  imports BlobIndex Bytes "HOL-Library.Multiset"
begin

text \<open>
  \<open>MasterIndex\<close> of \<open>repository/index.rs\<close>: the list of indices, the optional Bloom filter in front of them
  and the set of blobs waiting to be packed.

  Each section that holds the lock is one step: \<open>add_pack\<close> is \<open>mi_insert_pack\<close> (under the lock), the
  index's \<open>persist\<close> (lock released), and \<open>mi_update_status\<close> (under the lock again); \<open>persist\<close> likewise.
  The global counter \<open>NEXT_INSTANCE_ID\<close> is the field \<open>mi_next\<close>; the monotonic clock, the two limits of
  \<open>common::defaults\<close>, JSON encoding and \<open>Repository::save_file\<close> are arguments.

  A master index stands for a set of entries (blob id, locator) and a set of pending ids. The lemmas
  show that lookups are exact for that set, that no operation but \<open>clear\<close> and \<open>cleanup\<close> loses an id, and
  that \<open>cleanup\<close> drops exactly the ids whose packs are all obsolete.
\<close>

section \<open>Operations\<close>

record MasterIndex =
  mi_indices :: "Index list"
  mi_bloom :: "BloomFilter option"
  mi_pending :: ShardedIdSet
  mi_auto_save :: bool
  mi_next :: u64

definition mi_new :: "u64 \<Rightarrow> MasterIndex" where
  "mi_new next_id = \<lparr>mi_indices = [], mi_bloom = None, mi_pending = sh_new, mi_auto_save = True, mi_next = next_id\<rparr>"

definition mi_clear :: "MasterIndex \<Rightarrow> MasterIndex" where
  "mi_clear mi = mi\<lparr>mi_indices := [], mi_bloom := None, mi_pending := sh_clear (mi_pending mi)\<rparr>"

definition mi_num_blobs :: "MasterIndex \<Rightarrow> nat" where
  "mi_num_blobs mi = sum_list (map index_num_blobs (mi_indices mi))"

definition mi_contains :: "MasterIndex \<Rightarrow> ID \<Rightarrow> bool" where
  "mi_contains mi i \<longleftrightarrow>
     (if sh_contains (mi_pending mi) i then True
      else if (case mi_bloom mi of Some bf \<Rightarrow> \<not> bloom_contains bf i | None \<Rightarrow> False) then False
      else list_ex (\<lambda>ix. index_contains ix i) (rev (mi_indices mi)))"

text \<open>\<open>Iterator::find_map\<close>.\<close>

fun find_map :: "('a \<Rightarrow> 'b option) \<Rightarrow> 'a list \<Rightarrow> 'b option" where
  "find_map f [] = None"
| "find_map f (x # xs) = (case f x of Some y \<Rightarrow> Some y | None \<Rightarrow> find_map f xs)"

definition mi_get_data :: "MasterIndex \<Rightarrow> ID \<Rightarrow> BlobLocator option" where
  "mi_get_data mi i =
     find_map (\<lambda>ix. Option.bind (get_data_location ix i) (\<lambda>l. resolve_location ix l Data)) (rev (mi_indices mi))"

definition mi_get_tree :: "MasterIndex \<Rightarrow> ID \<Rightarrow> BlobLocator option" where
  "mi_get_tree mi i =
     find_map (\<lambda>ix. Option.bind (get_tree_location ix i) (\<lambda>l. resolve_location ix l Tree)) (rev (mi_indices mi))"

definition mi_get :: "MasterIndex \<Rightarrow> ID \<Rightarrow> BlobLocator option" where
  "mi_get mi i = find_map (\<lambda>ix. index_get ix i) (rev (mi_indices mi))"

definition mi_add_index :: "MasterIndex \<Rightarrow> Index \<Rightarrow> MasterIndex" where
  "mi_add_index mi ix =
     mi\<lparr>mi_bloom := map_option (fold (\<lambda>(i, _) bf. bloom_insert bf i) (iter_ids ix)) (mi_bloom mi),
        mi_indices := mi_indices mi @ [ix]\<rparr>"

definition mi_initialize_bloom_filter :: "bloom_sizing \<Rightarrow> MasterIndex \<Rightarrow> nat \<Rightarrow> MasterIndex" where
  "mi_initialize_bloom_filter sz mi total_blobs =
     mi\<lparr>mi_bloom := Some (fold (\<lambda>ix bf. fold (\<lambda>(i, _) bf. bloom_insert bf i) (iter_ids ix) bf)
                            (mi_indices mi) (bloom_new sz total_blobs))\<rparr>"

definition mi_add_pending_blob :: "MasterIndex \<Rightarrow> ID \<Rightarrow> MasterIndex \<times> bool" where
  "mi_add_pending_blob mi i =
     (if sh_contains (mi_pending mi) i then (mi, False)
      else if list_ex (\<lambda>ix. index_contains ix i) (rev (mi_indices mi)) then (mi, False)
      else case sh_insert (mi_pending mi) i of (s, new) \<Rightarrow> (mi\<lparr>mi_pending := s\<rparr>, new))"

text \<open>\<open>iter_mut().find(p)\<close> followed by an assignment through the reference.\<close>

fun update_first :: "('a \<Rightarrow> bool) \<Rightarrow> ('a \<Rightarrow> 'a) \<Rightarrow> 'a list \<Rightarrow> 'a list" where
  "update_first p f [] = []"
| "update_first p f (x # xs) = (if p x then f x # xs else x # update_first p f xs)"

text \<open>The two limits read from \<open>common::defaults::runtime()\<close>.\<close>

record IndexLimits =
  il_blobs_per_index_file :: nat
  il_index_flush_timeout :: nat

text \<open>The first locked section of \<open>add_pack\<close>; the result is the index to persist.\<close>

definition mi_insert_pack :: "IndexLimits \<Rightarrow> nat \<Rightarrow> ID \<Rightarrow> PackedBlobDescriptor list \<Rightarrow> MasterIndex \<Rightarrow>
    Index option result \<times> MasterIndex" where
  "mi_insert_pack lim now pack_id descriptors mi =
     (let mi = mi\<lparr>mi_pending := fold (\<lambda>b s. fst (sh_remove s (pd_id b))) descriptors (mi_pending mi),
                  mi_bloom := map_option (fold (\<lambda>b bf. bloom_insert bf (pd_id b)) descriptors) (mi_bloom mi)\<rparr>;
          mi = (if \<not> list_ex is_pending (mi_indices mi)
                then mi\<lparr>mi_indices := mi_indices mi @ [index_new (mi_next mi) now], mi_next := mi_next mi + 1\<rparr>
                else mi)
      in case find is_pending (mi_indices mi) of
           None \<Rightarrow> (Err Repo, mi)
         | Some ix \<Rightarrow>
             let ix = index_add_pack ix pack_id descriptors;
                 is_full = index_is_full (il_blobs_per_index_file lim) ix;
                 is_timed_out = now - ix_create_time ix \<ge> il_index_flush_timeout lim
             in if mi_auto_save mi \<and> (is_full \<or> is_timed_out)
                then (Ok (Some (index_finalize ix)),
                      mi\<lparr>mi_indices := update_first is_pending (\<lambda>_. index_finalize ix) (mi_indices mi)\<rparr>)
                else if is_full
                then (Ok None, mi\<lparr>mi_indices := update_first is_pending (\<lambda>_. index_finalize ix) (mi_indices mi)\<rparr>)
                else (Ok None, mi\<lparr>mi_indices := update_first is_pending (\<lambda>_. ix) (mi_indices mi)\<rparr>))"

text \<open>The last locked section of \<open>add_pack\<close> and the loop body's in \<open>persist\<close>.\<close>

definition mi_update_status :: "u64 \<Rightarrow> IndexStatus \<Rightarrow> MasterIndex \<Rightarrow> MasterIndex" where
  "mi_update_status target st mi =
     mi\<lparr>mi_indices := update_first (\<lambda>ix. ix_instance_id ix = target) (\<lambda>ix. set_status ix st) (mi_indices mi)\<rparr>"

definition mi_persist_one :: "bloom_sizing \<Rightarrow> (IndexFile \<Rightarrow> bytes option) \<Rightarrow>
    (bytes \<Rightarrow> 'r \<Rightarrow> (ID \<times> SizePair) result \<times> 'r) \<Rightarrow> Index \<Rightarrow> MasterIndex \<Rightarrow> 'r \<Rightarrow>
    SizePair result \<times> MasterIndex \<times> 'r" where
  "mi_persist_one sz to_json save ix mi r =
     (case index_persist sz to_json save ix r of
        (Inl e, _, r') \<Rightarrow> (Err e, mi, r')
      | (Inr sizes, ix', r') \<Rightarrow> (Ok sizes, mi_update_status (ix_instance_id ix) (ix_status ix') mi, r'))"

definition mi_add_pack :: "IndexLimits \<Rightarrow> bloom_sizing \<Rightarrow> (IndexFile \<Rightarrow> bytes option) \<Rightarrow>
    (bytes \<Rightarrow> 'r \<Rightarrow> (ID \<times> SizePair) result \<times> 'r) \<Rightarrow> nat \<Rightarrow> ID \<Rightarrow> PackedBlobDescriptor list \<Rightarrow>
    MasterIndex \<Rightarrow> 'r \<Rightarrow> SizePair result \<times> MasterIndex \<times> 'r" where
  "mi_add_pack lim sz to_json save now pack_id descriptors mi r =
     (case mi_insert_pack lim now pack_id descriptors mi of
        (Inl e, mi') \<Rightarrow> (Err e, mi', r)
      | (Inr None, mi') \<Rightarrow> (Ok sp_zero, mi', r)
      | (Inr (Some ix), mi') \<Rightarrow> mi_persist_one sz to_json save ix mi' r)"

text \<open>\<open>persist\<close>: every index that is not persisted and not empty is finalized and cloned, then written
  one by one; the first error stops the loop.\<close>

definition needs_persist :: "Index \<Rightarrow> bool" where
  "needs_persist ix \<longleftrightarrow> \<not> is_persisted ix \<and> \<not> index_is_empty ix"

definition mi_mark :: "MasterIndex \<Rightarrow> Index list \<times> MasterIndex" where
  "mi_mark mi =
     (map index_finalize (filter needs_persist (mi_indices mi)),
      mi\<lparr>mi_indices := map (\<lambda>ix. if needs_persist ix then index_finalize ix else ix) (mi_indices mi)\<rparr>)"

fun mi_persist_loop :: "bloom_sizing \<Rightarrow> (IndexFile \<Rightarrow> bytes option) \<Rightarrow>
    (bytes \<Rightarrow> 'r \<Rightarrow> (ID \<times> SizePair) result \<times> 'r) \<Rightarrow> Index list \<Rightarrow> SizePair \<Rightarrow> MasterIndex \<Rightarrow> 'r \<Rightarrow>
    SizePair result \<times> MasterIndex \<times> 'r" where
  "mi_persist_loop sz to_json save [] total_size mi r = (Ok total_size, mi, r)"
| "mi_persist_loop sz to_json save (ix # todo) total_size mi r =
     (case mi_persist_one sz to_json save ix mi r of
        (Inl e, mi', r') \<Rightarrow> (Err e, mi', r')
      | (Inr sizes, mi', r') \<Rightarrow> mi_persist_loop sz to_json save todo (sp_add total_size sizes) mi' r')"

definition mi_persist :: "bloom_sizing \<Rightarrow> (IndexFile \<Rightarrow> bytes option) \<Rightarrow>
    (bytes \<Rightarrow> 'r \<Rightarrow> (ID \<times> SizePair) result \<times> 'r) \<Rightarrow> MasterIndex \<Rightarrow> 'r \<Rightarrow>
    SizePair result \<times> MasterIndex \<times> 'r" where
  "mi_persist sz to_json save mi r =
     (case mi_mark mi of (todo, mi') \<Rightarrow> mi_persist_loop sz to_json save todo sp_zero mi' r)"

text \<open>\<open>for_each_id\<close> and \<open>for_each_pack_id\<close>: the sequence of calls of the callback.\<close>

definition mi_each_id :: "MasterIndex \<Rightarrow> (ID \<times> BlobLocator) list" where
  "mi_each_id mi = concat (map iter_ids (mi_indices mi))"

definition mi_each_pack_id :: "MasterIndex \<Rightarrow> ID list" where
  "mi_each_pack_id mi =
     snd (fold (\<lambda>p (seen, out). if p \<in> seen then (seen, out) else (insert p seen, out @ [p]))
            (concat (map (\<lambda>ix. is_iter (ix_pack_ids ix)) (mi_indices mi))) ({}, []))"

definition mi_ids :: "MasterIndex \<Rightarrow> ID set" where
  "mi_ids mi = set (List.map_filter (\<lambda>ix. if \<not> is_pending ix then index_id ix else None) (mi_indices mi))"

text \<open>\<open>merge_index\<close>: gather the descriptors of every pack (inner map keyed by blob id), then rebuild.\<close>

type_synonym pack_descs = "(ID \<times> (ID \<times> PackedBlobDescriptor) list) list"

definition merge_pack :: "ID \<times> PackedBlobDescriptor list \<Rightarrow> pack_descs \<Rightarrow> pack_descs" where
  "merge_pack pd acc =
     (case pd of (pack_id, descriptors) \<Rightarrow>
        let entry = (case hm_get acc pack_id of None \<Rightarrow> [] | Some e \<Rightarrow> e)
        in hm_insert pack_id (fold (\<lambda>d e. hm_insert (pd_id d) d e) descriptors entry) acc)"

definition all_pack_descriptors :: "ID set option \<Rightarrow> Index list \<Rightarrow> pack_descs" where
  "all_pack_descriptors obsolete_packs old =
     fold (\<lambda>ix acc. fold merge_pack (get_pack_descriptors ix obsolete_packs) acc) old []"

text \<open>State of the rebuilding loop: finished indices, current index, next instance id.\<close>

definition rebuild_step :: "nat \<Rightarrow> nat \<Rightarrow> ID \<times> (ID \<times> PackedBlobDescriptor) list \<Rightarrow>
    Index list \<times> Index \<times> u64 \<Rightarrow> Index list \<times> Index \<times> u64" where
  "rebuild_step blobs_per_index_file now pd st =
     (case pd of (pack_id, descriptors_map) \<Rightarrow> case st of (new_indices, current, next_id) \<Rightarrow>
        let descriptors = sort_key pd_offset (map snd descriptors_map);
            current = index_add_pack current pack_id descriptors
        in if index_is_full blobs_per_index_file current
           then (new_indices @ [set_status current Finalized], index_new next_id now, next_id + 1)
           else (new_indices, current, next_id))"

definition mi_merge_index :: "nat \<Rightarrow> nat \<Rightarrow> ID set option \<Rightarrow> MasterIndex \<Rightarrow> MasterIndex" where
  "mi_merge_index blobs_per_index_file now obsolete_packs mi =
     (let old = sort_key ix_instance_id (mi_indices mi);
          sorted_packs = sort_key fst (all_pack_descriptors obsolete_packs old)
      in case fold (rebuild_step blobs_per_index_file now) sorted_packs
             ([], index_new (mi_next mi) now, mi_next mi + 1) of
           (new_indices, current, next_id) \<Rightarrow>
             mi\<lparr>mi_indices := (if \<not> index_is_empty current then new_indices @ [set_status current Pending] else new_indices),
                mi_next := next_id\<rparr>)"

definition mi_cleanup :: "nat \<Rightarrow> nat \<Rightarrow> ID set option \<Rightarrow> MasterIndex \<Rightarrow> MasterIndex" where
  "mi_cleanup blobs_per_index_file now obsolete_packs mi = mi_merge_index blobs_per_index_file now obsolete_packs mi"

definition mi_search_prefix :: "MasterIndex \<Rightarrow> codepoint list \<Rightarrow> ID option result" where
  "mi_search_prefix mi pfx =
     (let matched = filter (\<lambda>i. take (length pfx) (to_hex i) = pfx) (map fst (mi_each_id mi))
      in if length matched > 1 then Err Format
         else Ok (case matched of [] \<Rightarrow> None | i # _ \<Rightarrow> Some i))"

definition mi_set_autosave :: "bool \<Rightarrow> MasterIndex \<Rightarrow> MasterIndex" where
  "mi_set_autosave b mi = mi\<lparr>mi_auto_save := b\<rparr>"

section \<open>Invariant\<close>

definition mi_entries :: "MasterIndex \<Rightarrow> (ID \<times> BlobLocator) set" where
  "mi_entries mi = set (mi_each_id mi)"

definition mi_indexed :: "MasterIndex \<Rightarrow> ID set" where
  "mi_indexed mi = fst ` mi_entries mi"

definition bloom_covers :: "BloomFilter option \<Rightarrow> ID set \<Rightarrow> bool" where
  "bloom_covers b ids \<longleftrightarrow> (case b of None \<Rightarrow> True | Some bf \<Rightarrow> bloom_ok bf \<and> (\<forall>i\<in>ids. bloom_contains bf i))"

definition mi_ok :: "MasterIndex \<Rightarrow> bool" where
  "mi_ok mi \<longleftrightarrow> list_all index_ok (mi_indices mi) \<and> sh_ok (mi_pending mi) \<and> bloom_covers (mi_bloom mi) (mi_indexed mi)"

lemma mi_okD:
  assumes "mi_ok mi"
  shows "ix \<in> set (mi_indices mi) \<Longrightarrow> index_ok ix" "sh_ok (mi_pending mi)" "bloom_covers (mi_bloom mi) (mi_indexed mi)"
  using assms by (auto simp: mi_ok_def list_all_iff)

lemma mi_entries_def2: "mi_entries mi = (\<Union>ix\<in>set (mi_indices mi). set (iter_ids ix))"
  by (simp add: mi_entries_def mi_each_id_def)

lemma mi_indexed_iff:
  assumes "\<And>ix. ix \<in> set (mi_indices mi) \<Longrightarrow> index_ok ix"
  shows "i \<in> mi_indexed mi \<longleftrightarrow> (\<exists>ix\<in>set (mi_indices mi). index_contains ix i)"
  using iter_ids_contains [OF assms] by (auto simp: mi_indexed_def mi_entries_def2 image_UN)

lemma bloom_covers_mono: "bloom_covers b S \<Longrightarrow> T \<subseteq> S \<Longrightarrow> bloom_covers b T"
  by (auto simp: bloom_covers_def split: option.splits)

lemma bloom_covers_insert:
  assumes "bloom_covers b S"
  shows "bloom_covers (map_option (fold (\<lambda>x bf. bloom_insert bf (f x)) xs) b) (S \<union> f ` set xs)"
proof (cases b)
  case (Some bf)
  have eq: "fold (\<lambda>x bf. bloom_insert bf (f x)) xs bf = fold (\<lambda>x bf. bloom_insert bf x) (map f xs) bf" for bf
    by (simp add: fold_map comp_def)
  from Some assms show ?thesis
    by (auto simp: bloom_covers_def eq bloom.add_run_ok intro: bloom.add_run_keeps bloom.add_run_maybe)
qed (simp add: bloom_covers_def)

lemma bloom_covers_ids:
  assumes "bloom_covers b S"
  shows "bloom_covers (map_option (fold (\<lambda>(i, _) bf. bloom_insert bf i) es) b) (S \<union> fst ` set es)"
  using bloom_covers_insert [OF assms, of fst es] by (simp add: case_prod_unfold)

lemma find_map_Some: "find_map f xs = Some y \<Longrightarrow> \<exists>x\<in>set xs. f x = Some y"
  by (induction xs) (auto split: option.splits)

lemma find_map_None: "find_map f xs = None \<longleftrightarrow> (\<forall>x\<in>set xs. f x = None)"
  by (induction xs) (auto split: option.splits)

lemma mi_ok_new [simp]: "mi_ok (mi_new n)"
  by (simp add: mi_ok_def mi_new_def bloom_covers_def)

lemma mi_entries_new [simp]: "mi_entries (mi_new n) = {}" "sh_abs (mi_pending (mi_new n)) = {}"
  by (simp_all add: mi_entries_def2 mi_new_def)

section \<open>Lookups\<close>

lemma index_get_entry:
  assumes "index_ok ix" "index_get ix i = Some l"
  shows "(i, l) \<in> set (iter_ids ix)"
  using assms index_abs_sound [OF assms(1)] by (auto simp: index_get_abs set_iter_ids split: option.splits)

lemma mi_get_props:
  assumes "mi_ok mi"
  shows "mi_get mi i = None \<longleftrightarrow> i \<notin> mi_indexed mi"
    and "mi_get mi i = Some l \<Longrightarrow> (i, l) \<in> mi_entries mi"
proof -
  note ok = mi_okD(1) [OF assms]
  show "mi_get mi i = None \<longleftrightarrow> i \<notin> mi_indexed mi"
    using index_get_contains [OF ok, of _ i] mi_indexed_iff [OF ok, of mi i]
    unfolding mi_get_def find_map_None set_rev by blast
  show "(i, l) \<in> mi_entries mi" if "mi_get mi i = Some l"
    using find_map_Some [OF that [unfolded mi_get_def]] index_get_entry [OF ok] unfolding mi_entries_def2 by auto
qed

lemma get_typed:
  "Option.bind (get_data_location ix i) (\<lambda>l. resolve_location ix l Data) = index_abs ix (Data, i)"
  "Option.bind (get_tree_location ix i) (\<lambda>l. resolve_location ix l Tree) = index_abs ix (Tree, i)"
  by (simp_all add: get_data_location_def get_tree_location_def index_abs_def)

lemma resolved_type: "(i, l) \<in> resolved ix t \<Longrightarrow> lo_type l = t"
  by (auto simp: resolved_def resolve_location_def split: option.splits)

lemma iter_ids_typed:
  assumes "t \<noteq> Padding"
  shows "(i, l) \<in> set (iter_ids ix) \<and> lo_type l = t \<longleftrightarrow> (i, l) \<in> resolved ix t"
proof
  assume a: "(i, l) \<in> set (iter_ids ix) \<and> lo_type l = t"
  then consider "(i, l) \<in> resolved ix Data" | "(i, l) \<in> resolved ix Tree" by (auto simp: set_iter_ids)
  then show "(i, l) \<in> resolved ix t" using a by cases (use resolved_type in fastforce)+
next
  assume a: "(i, l) \<in> resolved ix t"
  with assms have "(i, l) \<in> resolved ix Data \<union> resolved ix Tree" by (cases t) auto
  with resolved_type [OF a] show "(i, l) \<in> set (iter_ids ix) \<and> lo_type l = t" by (simp add: set_iter_ids)
qed

lemma typed_lookup:
  assumes "mi_ok mi" "t \<noteq> Padding"
  shows "find_map (\<lambda>ix. index_abs ix (t, i)) (rev (mi_indices mi)) = None \<longleftrightarrow>
           (\<nexists>l. (i, l) \<in> mi_entries mi \<and> lo_type l = t)"
    and "find_map (\<lambda>ix. index_abs ix (t, i)) (rev (mi_indices mi)) = Some l \<Longrightarrow>
           (i, l) \<in> mi_entries mi \<and> lo_type l = t"
proof -
  note ok = mi_okD(1) [OF assms(1)]
  have entry: "(i, l) \<in> set (iter_ids ix) \<and> lo_type l = t \<longleftrightarrow> (i, l) \<in> resolved ix t" for l ix
    by (rule iter_ids_typed [OF assms(2)])
  have dom: "index_abs ix (t, i) = None \<longleftrightarrow> (\<nexists>l. (i, l) \<in> resolved ix t)" if "ix \<in> set (mi_indices mi)" for ix
    using index_abs_sound [OF ok [OF that], of t i] index_abs_complete [OF ok [OF that], of i _ t]
    by (cases "index_abs ix (t, i)") auto
  have all: "(i, l) \<in> mi_entries mi \<and> lo_type l = t \<longleftrightarrow> (\<exists>ix\<in>set (mi_indices mi). (i, l) \<in> resolved ix t)" for l
    unfolding mi_entries_def2 entry [symmetric] by blast
  show "find_map (\<lambda>ix. index_abs ix (t, i)) (rev (mi_indices mi)) = None \<longleftrightarrow>
           (\<nexists>l. (i, l) \<in> mi_entries mi \<and> lo_type l = t)"
    unfolding find_map_None set_rev all using dom by blast
  show "(i, l) \<in> mi_entries mi \<and> lo_type l = t"
    if "find_map (\<lambda>ix. index_abs ix (t, i)) (rev (mi_indices mi)) = Some l"
    unfolding all using find_map_Some [OF that] index_abs_sound [OF ok, of _ t i l] by auto
qed

lemma mi_contains_iff:
  assumes "mi_ok mi"
  shows "mi_contains mi i \<longleftrightarrow> i \<in> sh_abs (mi_pending mi) \<or> i \<in> mi_indexed mi"
proof -
  have "i \<in> mi_indexed mi \<Longrightarrow> mi_bloom mi = Some bf \<Longrightarrow> bloom_contains bf i" for bf
    using mi_okD(3) [OF assms] by (simp add: bloom_covers_def)
  then show ?thesis
    by (auto simp: mi_contains_def list_ex_iff mi_indexed_iff [OF mi_okD(1) [OF assms]] split: option.splits)
qed

text \<open>C23: lookups of the master index are exact. A blob is reported as known exactly when it is pending or some
  index has an entry for it (the Bloom filter never hides one), \<open>get\<close> finds an entry exactly when there
  is one, and the typed lookups find an entry of their type exactly when there is one.\<close>

theorem mi_lookup_exact:
  assumes "mi_ok mi"
  shows "(mi_contains mi i \<longleftrightarrow> i \<in> sh_abs (mi_pending mi) \<or> i \<in> mi_indexed mi) \<and>
    (case mi_get mi i of None \<Rightarrow> i \<notin> mi_indexed mi | Some l \<Rightarrow> (i, l) \<in> mi_entries mi) \<and>
    (case mi_get_data mi i of None \<Rightarrow> \<nexists>l. (i, l) \<in> mi_entries mi \<and> lo_type l = Data
         | Some l \<Rightarrow> (i, l) \<in> mi_entries mi \<and> lo_type l = Data) \<and>
    (case mi_get_tree mi i of None \<Rightarrow> \<nexists>l. (i, l) \<in> mi_entries mi \<and> lo_type l = Tree
         | Some l \<Rightarrow> (i, l) \<in> mi_entries mi \<and> lo_type l = Tree)" (is "?known \<and> ?get \<and> ?data \<and> ?tree")
proof (intro conjI)
  show ?known by (rule mi_contains_iff [OF assms])
  show ?get using mi_get_props [OF assms, of i] by (auto split: option.splits)
  show ?data unfolding mi_get_data_def get_typed using typed_lookup [OF assms, of Data i] by (auto split: option.splits)
  show ?tree unfolding mi_get_tree_def get_typed using typed_lookup [OF assms, of Tree i] by (auto split: option.splits)
qed

theorem mi_lookup_exact_witness:
  "\<not> mi_contains (mi_new 1) (ID (replicate 32 3)) \<and> mi_get (mi_new 1) (ID (replicate 32 3)) = None"
  using mi_lookup_exact [of "mi_new 1" "ID (replicate 32 3)"]
  by (simp add: mi_indexed_def split: option.splits)

section \<open>Updates\<close>

lemma mi_ok_frame:
  assumes "mi_ok mi" "mi_pending mi' = mi_pending mi" "mi_bloom mi' = mi_bloom mi"
    "list_all index_ok (mi_indices mi')" "mi_indexed mi' \<subseteq> mi_indexed mi"
  shows "mi_ok mi'"
  using assms bloom_covers_mono [OF mi_okD(3) [OF assms(1)]] by (simp add: mi_ok_def)

lemma mi_add_index_props:
  assumes "mi_ok mi" "index_ok ix"
  shows "mi_ok (mi_add_index mi ix)" "mi_entries (mi_add_index mi ix) = mi_entries mi \<union> set (iter_ids ix)"
    "mi_pending (mi_add_index mi ix) = mi_pending mi"
proof -
  show e: "mi_entries (mi_add_index mi ix) = mi_entries mi \<union> set (iter_ids ix)"
    by (auto simp: mi_entries_def2 mi_add_index_def)
  then have "mi_indexed (mi_add_index mi ix) = mi_indexed mi \<union> fst ` set (iter_ids ix)"
    by (simp add: mi_indexed_def image_Un)
  with assms bloom_covers_ids [OF mi_okD(3) [OF assms(1)], of "iter_ids ix"]
  show "mi_ok (mi_add_index mi ix)" by (simp add: mi_ok_def mi_add_index_def)
  show "mi_pending (mi_add_index mi ix) = mi_pending mi" by (simp add: mi_add_index_def)
qed

lemma fold_bloom_covers:
  "bloom_covers (Some bf) S \<Longrightarrow>
   bloom_covers (Some (fold (\<lambda>ix bf. fold (\<lambda>(i, _) bf. bloom_insert bf i) (iter_ids ix) bf) ixs bf))
     (S \<union> (\<Union>ix\<in>set ixs. fst ` set (iter_ids ix)))"
proof (induction ixs arbitrary: bf S)
  case (Cons ix ixs)
  from Cons.IH [OF bloom_covers_ids [OF Cons.prems, of "iter_ids ix", simplified]] show ?case
    by (simp add: Un_assoc)
qed simp

lemma mi_bloom_init_ok:
  assumes "mi_ok mi" "sizing_ok sz"
  shows "mi_ok (mi_initialize_bloom_filter sz mi n)"
proof -
  have "bloom_covers (Some (bloom_new sz n)) {}"
    using assms(2) by (simp add: bloom_covers_def bloom_ok_new sizing_ok_def)
  from fold_bloom_covers [OF this, of "mi_indices mi"] assms(1) show ?thesis
    by (simp add: mi_ok_def mi_initialize_bloom_filter_def mi_indexed_def mi_entries_def2 image_UN)
qed

text \<open>\<open>add_pending_blob\<close> is an insert-if-absent into the set of known blobs.\<close>

lemma mi_add_pending_props:
  assumes "mi_ok mi" "mi_add_pending_blob mi i = (mi', new)"
  shows "mi_ok mi'" "mi_entries mi' = mi_entries mi"
    "new \<longleftrightarrow> i \<notin> sh_abs (mi_pending mi) \<and> i \<notin> mi_indexed mi"
    "sh_abs (mi_pending mi') = (if new then insert i (sh_abs (mi_pending mi)) else sh_abs (mi_pending mi))"
proof -
  note ok = mi_okD [OF assms(1)]
  obtain s n where ins: "sh_insert (mi_pending mi) i = (s, n)" by fastforce
  have s: "sh_ok s" "sh_abs s = insert i (sh_abs (mi_pending mi))" "n \<longleftrightarrow> i \<notin> sh_abs (mi_pending mi)"
    using sh_insert_ok [OF ok(2), of i] sh_insert_abs [OF ok(2), of i] sh_results(1) [of "mi_pending mi" i] ins by auto
  have ex: "list_ex (\<lambda>ix. index_contains ix i) (mi_indices mi) \<longleftrightarrow> i \<in> mi_indexed mi"
    by (simp add: list_ex_iff mi_indexed_iff [OF ok(1)])
  have "mi' = (if new then mi\<lparr>mi_pending := s\<rparr> else mi) \<and> (new \<longleftrightarrow> i \<notin> sh_abs (mi_pending mi) \<and> i \<notin> mi_indexed mi)"
    using assms(2) s(3) by (auto simp: mi_add_pending_blob_def ex ins split: if_splits)
  then have m: "mi' = (if new then mi\<lparr>mi_pending := s\<rparr> else mi)"
    and "new \<longleftrightarrow> i \<notin> sh_abs (mi_pending mi) \<and> i \<notin> mi_indexed mi" by auto
  show "new \<longleftrightarrow> i \<notin> sh_abs (mi_pending mi) \<and> i \<notin> mi_indexed mi" by fact
  show "mi_entries mi' = mi_entries mi" by (simp add: m mi_entries_def2)
  then show "mi_ok mi'" using assms(1) s(1) by (auto simp: mi_ok_def m mi_indexed_def)
  show "sh_abs (mi_pending mi') = (if new then insert i (sh_abs (mi_pending mi)) else sh_abs (mi_pending mi))"
    using s(2) by (simp add: m)
qed

section \<open>add\_pack\<close>

definition packed_ids :: "PackedBlobDescriptor list \<Rightarrow> ID set" where
  "packed_ids ds = pd_id ` {d \<in> set ds. pd_type d \<noteq> Padding}"

definition packed_locs :: "ID \<Rightarrow> PackedBlobDescriptor list \<Rightarrow> (ID \<times> BlobLocator) set" where
  "packed_locs p ds = (\<lambda>d. (pd_id d, desc_locator p d)) ` {d \<in> set ds. pd_type d \<noteq> Padding}"

lemma packed_ids_Cons [simp]:
  "packed_ids [] = {}" "packed_ids (d # ds) = (if pd_type d = Padding then packed_ids ds else insert (pd_id d) (packed_ids ds))"
  by (auto simp: packed_ids_def)

lemma fold_spec_add_dom:
  "(fold (spec_add p) ds m (Data, i) \<noteq> None \<or> fold (spec_add p) ds m (Tree, i) \<noteq> None) \<longleftrightarrow>
   (m (Data, i) \<noteq> None \<or> m (Tree, i) \<noteq> None) \<or> i \<in> packed_ids ds"
proof (induction ds arbitrary: m)
  case (Cons d ds)
  have "(spec_add p d m (Data, i) \<noteq> None \<or> spec_add p d m (Tree, i) \<noteq> None) \<longleftrightarrow>
      (m (Data, i) \<noteq> None \<or> m (Tree, i) \<noteq> None) \<or> i \<in> packed_ids [d]"
    by (cases "pd_type d") (auto simp: spec_add_def)
  with Cons.IH [of "spec_add p d m"] show ?case by (simp only: fold_Cons comp_apply) auto
qed simp

lemma index_add_pack_contains:
  assumes "index_ok ix" "is_pending ix" "is_len (ix_pack_ids ix) < 2 ^ 32"
  shows "index_contains (index_add_pack ix p ds) i \<longleftrightarrow> index_contains ix i \<or> i \<in> packed_ids ds"
  using index_add_pack_props [OF assms, of p ds] fold_spec_add_dom [of p ds "index_abs ix" i]
  by (simp only: index_contains_abs [OF assms(1)] index_contains_abs)

lemma fold_spec_add_range:
  "fold (spec_add p) ds m (t, i) = Some l \<Longrightarrow>
   m (t, i) = Some l \<or> (\<exists>d\<in>set ds. pd_type d \<noteq> Padding \<and> pd_id d = i \<and> l = desc_locator p d)"
proof (induction ds arbitrary: m)
  case (Cons d ds)
  from Cons.IH [of "spec_add p d m"] Cons.prems show ?case
    by (auto simp: spec_add_def split: if_splits)
qed simp

lemma pending_iter:
  assumes "index_ok ix" "is_pending ix"
  shows "(i, l) \<in> set (iter_ids ix) \<longleftrightarrow> index_abs ix (Data, i) = Some l \<or> index_abs ix (Tree, i) = Some l"
proof -
  have "single_valued (resolved ix t)" for t
    using assms by (intro mutable_single_valued) (auto simp: index_ok_def)
  then have "(i, l) \<in> resolved ix t \<longleftrightarrow> index_abs ix (t, i) = Some l" for t
    using index_abs_sound [OF assms(1), of t i] index_abs_complete [OF assms(1), of i l t]
    by (metis single_valuedD)
  then show ?thesis by (simp add: set_iter_ids)
qed

lemma index_add_pack_iter:
  assumes "index_ok ix" "is_pending ix" "is_len (ix_pack_ids ix) < 2 ^ 32"
  shows "set (iter_ids (index_add_pack ix p ds)) \<subseteq> set (iter_ids ix) \<union> packed_locs p ds"
proof -
  note p = index_add_pack_props [OF assms, of p ds]
  have pend: "is_pending (index_add_pack ix p ds)"
    using assms(2) by (simp add: is_pending_def index_add_pack_def split: prod.splits)
  show ?thesis
  proof (clarify)
    fix i l assume "(i, l) \<in> set (iter_ids (index_add_pack ix p ds))" and no: "(i, l) \<notin> packed_locs p ds"
    then obtain t where "t = Data \<or> t = Tree" "fold (spec_add p) ds (index_abs ix) (t, i) = Some l"
      using pending_iter [OF conjunct1 [OF p] pend] p by auto
    with fold_spec_add_range [of p ds "index_abs ix" t i l] no have "index_abs ix (t, i) = Some l"
      by (auto simp: packed_locs_def)
    with \<open>t = Data \<or> t = Tree\<close> show "(i, l) \<in> set (iter_ids ix)" using pending_iter [OF assms(1,2)] by auto
  qed
qed

lemma update_first_split:
  assumes "find p xs = Some x"
  obtains pre post where "xs = pre @ x # post" "update_first p f xs = pre @ f x # post" "p x"
  using assms
proof (induction xs arbitrary: thesis)
  case (Cons y ys)
  show ?case
  proof (cases "p y")
    case True
    with Cons.prems show ?thesis by (intro Cons.prems(1) [of "[]" ys]) auto
  next
    case False
    with Cons.prems(2) obtain pre post where "ys = pre @ x # post" "update_first p f ys = pre @ f x # post" "p x"
      using Cons.IH by auto
    with False show ?thesis by (intro Cons.prems(1) [of "y # pre" post]) auto
  qed
qed simp

lemma update_first_id: "find p xs = None \<Longrightarrow> update_first p f xs = xs"
  by (induction xs) (auto split: if_splits)

lemma status_contains [simp]:
  "index_contains (set_status ix st) i = index_contains ix i" "iter_ids (set_status ix st) = iter_ids ix"
  "index_contains (index_finalize ix) i = index_contains ix i" "iter_ids (index_finalize ix) = iter_ids ix"
  by (simp_all add: index_contains_def set_status_def index_finalize_def iter_ids_def)

lemma finalize_ok [simp]: "index_ok ix \<Longrightarrow> index_ok (index_finalize ix)"
  by (simp add: index_finalize_def set_status_ok)

text \<open>Replacing one index by one with more ids.\<close>

lemma mi_replace:
  assumes "mi_ok mi" "mi_indices mi = pre @ ix # post" "index_ok ix'"
    "\<And>i. index_contains ix' i \<longleftrightarrow> index_contains ix i \<or> i \<in> new" "bloom_covers (mi_bloom mi) (mi_indexed mi \<union> new)"
  shows "mi_ok (mi\<lparr>mi_indices := pre @ ix' # post\<rparr>) \<and> mi_indexed (mi\<lparr>mi_indices := pre @ ix' # post\<rparr>) = mi_indexed mi \<union> new"
proof -
  let ?mi = "mi\<lparr>mi_indices := pre @ ix' # post\<rparr>"
  have ok: "index_ok x" if "x \<in> set (mi_indices ?mi)" for x
    using that assms(2,3) mi_okD(1) [OF assms(1)] by auto
  have "i \<in> mi_indexed ?mi \<longleftrightarrow> i \<in> mi_indexed mi \<union> new" for i
    using mi_indexed_iff [of ?mi i, OF ok] mi_indexed_iff [of mi i, OF mi_okD(1) [OF assms(1)]] assms(2,4) by auto
  then have idx: "mi_indexed ?mi = mi_indexed mi \<union> new" by blast
  moreover have "list_all index_ok (mi_indices ?mi)" using ok unfolding list_all_iff by blast
  ultimately show ?thesis using assms(1,5) by (simp add: mi_ok_def)
qed

text \<open>The state before a pending index is chosen: ids taken off the pending set, added to the filter.\<close>

definition taken_off :: "PackedBlobDescriptor list \<Rightarrow> MasterIndex \<Rightarrow> MasterIndex" where
  "taken_off ds mi =
     mi\<lparr>mi_pending := fold (\<lambda>b s. fst (sh_remove s (pd_id b))) ds (mi_pending mi),
        mi_bloom := map_option (fold (\<lambda>b bf. bloom_insert bf (pd_id b)) ds) (mi_bloom mi)\<rparr>"

definition with_pending :: "nat \<Rightarrow> MasterIndex \<Rightarrow> MasterIndex" where
  "with_pending now mi =
     (if \<not> list_ex is_pending (mi_indices mi)
      then mi\<lparr>mi_indices := mi_indices mi @ [index_new (mi_next mi) now], mi_next := mi_next mi + 1\<rparr> else mi)"

lemma taken_off_props:
  assumes "mi_ok mi"
  shows "mi_ok (taken_off ds mi)" "mi_indexed (taken_off ds mi) = mi_indexed mi" "mi_indices (taken_off ds mi) = mi_indices mi"
    "sh_abs (mi_pending (taken_off ds mi)) = sh_abs (mi_pending mi) - pd_id ` set ds"
    "bloom_covers (mi_bloom (taken_off ds mi)) (mi_indexed mi \<union> packed_ids ds)"
proof -
  note ok = mi_okD [OF assms]
  let ?s = "fold (\<lambda>b s. fst (sh_remove s (pd_id b))) ds (mi_pending mi)"
  have fm: "?s = fold (\<lambda>x s. fst (sh_remove s x)) (map pd_id ds) (mi_pending mi)"
    by (simp add: fold_map comp_def)
  show cov: "bloom_covers (mi_bloom (taken_off ds mi)) (mi_indexed mi \<union> packed_ids ds)"
    using bloom_covers_mono [OF bloom_covers_insert [OF ok(3), of pd_id ds], of "mi_indexed mi \<union> packed_ids ds"]
    by (auto simp: taken_off_def packed_ids_def)
  show idx: "mi_indices (taken_off ds mi) = mi_indices mi" by (simp add: taken_off_def)
  then show ind: "mi_indexed (taken_off ds mi) = mi_indexed mi" by (simp add: mi_indexed_def mi_entries_def2)
  have "sh_ok ?s" unfolding fm by (rule sharded.rem_run_ok [OF ok(2)])
  then show "mi_ok (taken_off ds mi)"
    using assms bloom_covers_mono [OF cov] ind by (simp add: mi_ok_def idx) (simp add: taken_off_def)
  show "sh_abs (mi_pending (taken_off ds mi)) = sh_abs (mi_pending mi) - pd_id ` set ds"
    using sharded.rem_run_mem [OF ok(2), of "map pd_id ds"] by (auto simp: taken_off_def fm)
qed

lemma with_pending_props:
  assumes "mi_ok mi"
  shows "mi_ok (with_pending now mi)" "mi_indexed (with_pending now mi) = mi_indexed mi"
    "mi_bloom (with_pending now mi) = mi_bloom mi" "mi_pending (with_pending now mi) = mi_pending mi"
    "mi_auto_save (with_pending now mi) = mi_auto_save mi"
    "\<exists>ix. find is_pending (mi_indices (with_pending now mi)) = Some ix \<and> (ix \<in> set (mi_indices mi) \<or> is_len (ix_pack_ids ix) = 0)"
    "mi_entries (with_pending now mi) = mi_entries mi"
proof -
  have new: "iter_ids (index_new n now) = []" "is_pending (index_new n now)" "is_len (ix_pack_ids (index_new n now)) = 0" for n
    by (simp_all add: iter_ids_def index_new_def new_mutable_def map_filter_def is_pending_def is_new_def is_len_def)
  show "mi_entries (with_pending now mi) = mi_entries mi" by (simp add: with_pending_def mi_entries_def2 new)
  then show ind: "mi_indexed (with_pending now mi) = mi_indexed mi" by (simp add: mi_indexed_def)
  show "mi_ok (with_pending now mi)" using assms ind by (auto simp: mi_ok_def with_pending_def)
  show "\<exists>ix. find is_pending (mi_indices (with_pending now mi)) = Some ix \<and> (ix \<in> set (mi_indices mi) \<or> is_len (ix_pack_ids ix) = 0)"
  proof (cases "find is_pending (mi_indices mi)")
    case None
    then have no: "\<not> list_ex is_pending (mi_indices mi)" by (simp add: find_None_iff list_ex_iff)
    have "find q (xs @ [y]) = Some y" if "find q xs = None" "q y" for q and xs :: "Index list" and y
      using that by (induction xs) (auto split: if_splits)
    with None no have "find is_pending (mi_indices (with_pending now mi)) = Some (index_new (mi_next mi) now)"
      by (simp add: with_pending_def new)
    with new show ?thesis by blast
  next
    case (Some ix)
    then have "ix \<in> set (mi_indices mi)" "list_ex is_pending (mi_indices mi)"
      by (auto simp: find_Some_iff list_ex_iff)
    with Some show ?thesis by (simp add: with_pending_def)
  qed
qed (simp_all add: with_pending_def)

lemma mi_replace_entries:
  assumes "mi_indices mi = pre @ ix # post" "set (iter_ids ix') \<subseteq> set (iter_ids ix) \<union> E"
  shows "mi_entries (mi\<lparr>mi_indices := pre @ ix' # post\<rparr>) \<subseteq> mi_entries mi \<union> E"
  using assms by (auto simp: mi_entries_def2)

lemma mi_insert_pack_eq:
  assumes "find is_pending (mi_indices (with_pending now (taken_off ds mi))) = Some ix"
  shows "\<exists>todo ix'. ix' \<in> {index_add_pack ix p ds, index_finalize (index_add_pack ix p ds)} \<and>
    (\<forall>x. todo = Some x \<longrightarrow> x = ix' \<and> ix' = index_finalize (index_add_pack ix p ds)) \<and>
    mi_insert_pack lim now p ds mi = (Ok todo, (with_pending now (taken_off ds mi))\<lparr>mi_indices :=
       update_first is_pending (\<lambda>_. ix') (mi_indices (with_pending now (taken_off ds mi)))\<rparr>)"
  using assms unfolding mi_insert_pack_def Let_def taken_off_def [symmetric] with_pending_def [symmetric]
  by auto

definition mi_room :: "MasterIndex \<Rightarrow> bool" where
  "mi_room mi \<longleftrightarrow> list_all (\<lambda>ix. is_len (ix_pack_ids ix) < 2 ^ 32) (mi_indices mi)"

lemma mi_insert_pack_props:
  assumes "mi_ok mi" "mi_room mi"
  shows "\<exists>todo mi'. mi_insert_pack lim now p ds mi = (Ok todo, mi') \<and> mi_ok mi' \<and>
    mi_indexed mi' = mi_indexed mi \<union> packed_ids ds \<and> sh_abs (mi_pending mi') = sh_abs (mi_pending mi) - pd_id ` set ds \<and>
    mi_entries mi' \<subseteq> mi_entries mi \<union> packed_locs p ds"
proof -
  let ?mi = "with_pending now (taken_off ds mi)"
  note off = taken_off_props [OF assms(1), of ds] and wp = with_pending_props [OF taken_off_props(1) [OF assms(1)], of now ds]
  obtain ix where ix: "find is_pending (mi_indices ?mi) = Some ix" "is_len (ix_pack_ids ix) < 2 ^ 32"
    using wp(6) assms(2) off(3) by (auto simp: mi_room_def list_all_iff)
  from mi_insert_pack_eq [OF ix(1), where p = p and lim = lim] obtain todo ix' where
    r: "ix' \<in> {index_add_pack ix p ds, index_finalize (index_add_pack ix p ds)}"
       "mi_insert_pack lim now p ds mi = (Ok todo, ?mi\<lparr>mi_indices := update_first is_pending (\<lambda>_. ix') (mi_indices ?mi)\<rparr>)"
    by auto
  obtain pre post where sp: "mi_indices ?mi = pre @ ix # post"
    "update_first is_pending (\<lambda>_. ix') (mi_indices ?mi) = pre @ ix' # post" "is_pending ix"
    by (rule update_first_split [OF ix(1)])
  have ok: "index_ok ix" using mi_okD(1) [OF wp(1)] sp(1) by simp
  have "index_ok ix'" "index_contains ix' i \<longleftrightarrow> index_contains ix i \<or> i \<in> packed_ids ds" for i
    using r(1) index_add_pack_props [OF ok sp(3) ix(2)] index_add_pack_contains [OF ok sp(3) ix(2)] by auto
  note rep = mi_replace [OF wp(1) sp(1) this]
  have "set (iter_ids ix') \<subseteq> set (iter_ids ix) \<union> packed_locs p ds"
    using r(1) index_add_pack_iter [OF ok sp(3) ix(2), of p ds] by auto
  from mi_replace_entries [OF sp(1) this] have ent: "mi_entries (?mi\<lparr>mi_indices := pre @ ix' # post\<rparr>) \<subseteq> mi_entries mi \<union> packed_locs p ds"
    using wp(7) off(3) by (simp add: mi_entries_def2)
  from rep off wp ent show ?thesis by (auto simp: r(2) sp(2))
qed

lemma mi_update_status_props:
  assumes "mi_ok mi" "st \<noteq> Pending"
  shows "mi_ok (mi_update_status k st mi)" "mi_entries (mi_update_status k st mi) = mi_entries mi"
    "mi_pending (mi_update_status k st mi) = mi_pending mi"
proof -
  have "set (update_first q f xs) \<subseteq> set xs \<union> f ` set xs" for q f and xs :: "Index list"
    by (induction xs) auto
  from this [of "\<lambda>ix. ix_instance_id ix = k" "\<lambda>ix. set_status ix st" "mi_indices mi"]
  have ok: "list_all index_ok (mi_indices (mi_update_status k st mi))"
    using mi_okD(1) [OF assms(1)] set_status_ok [OF _ assms(2)]
    unfolding mi_update_status_def list_all_iff by fastforce
  have "map iter_ids (update_first q (\<lambda>ix. set_status ix st) xs) = map iter_ids xs" for q xs
    by (induction xs) auto
  then show ent: "mi_entries (mi_update_status k st mi) = mi_entries mi"
    by (simp add: mi_entries_def mi_each_id_def mi_update_status_def)
  show pend: "mi_pending (mi_update_status k st mi) = mi_pending mi" by (simp add: mi_update_status_def)
  show "mi_ok (mi_update_status k st mi)"
    by (rule mi_ok_frame [OF assms(1) pend _ ok]) (simp_all add: mi_indexed_def ent, simp add: mi_update_status_def)
qed

lemma index_persist_status:
  assumes "index_persist sz to_json save ix r = (Ok sizes, ix', r')"
  shows "ix_status ix' \<noteq> Pending"
    and "\<not> index_is_empty ix \<Longrightarrow> is_persisted ix'"
  using assms
  by (auto simp: index_persist_def Let_def index_finalize_def set_status_def is_persisted_def
      index_is_empty_def index_num_blobs_def split: if_splits option.splits sum.splits prod.splits)

lemma mi_persist_one_props:
  assumes "mi_ok mi" "mi_persist_one sz to_json save ix mi r = (res, mi', r')"
  shows "mi_ok mi'" "mi_entries mi' = mi_entries mi" "mi_pending mi' = mi_pending mi"
proof -
  obtain x ix1 r1 where p: "index_persist sz to_json save ix r = (x, ix1, r1)" by (metis prod_cases3)
  have "mi' = mi \<or> (\<exists>st. st \<noteq> Pending \<and> mi' = mi_update_status (ix_instance_id ix) st mi)"
    using assms(2) index_persist_status(1) [of sz to_json save ix r _ ix1 r1] p
    by (cases x) (auto simp: mi_persist_one_def)
  then show "mi_ok mi'" "mi_entries mi' = mi_entries mi" "mi_pending mi' = mi_pending mi"
    using mi_update_status_props [OF assms(1)] assms(1) by auto
qed

lemma mi_add_pack_props:
  assumes "mi_ok mi" "mi_room mi" "mi_add_pack lim sz to_json save now p ds mi r = (res, mi', r')"
  shows "mi_ok mi' \<and> mi_indexed mi' = mi_indexed mi \<union> packed_ids ds \<and>
    sh_abs (mi_pending mi') = sh_abs (mi_pending mi) - pd_id ` set ds \<and>
    mi_entries mi' \<subseteq> mi_entries mi \<union> packed_locs p ds"
proof -
  obtain todo mi1 where ins: "mi_insert_pack lim now p ds mi = (Ok todo, mi1)" and
    p1: "mi_ok mi1" "mi_indexed mi1 = mi_indexed mi \<union> packed_ids ds" "sh_abs (mi_pending mi1) = sh_abs (mi_pending mi) - pd_id ` set ds"
    "mi_entries mi1 \<subseteq> mi_entries mi \<union> packed_locs p ds"
    using mi_insert_pack_props [OF assms(1,2), of lim now p ds] by blast
  show ?thesis
  proof (cases todo)
    case None
    with assms(3) p1 ins show ?thesis by (simp add: mi_add_pack_def)
  next
    case (Some ix)
    with assms(3) ins have "mi_persist_one sz to_json save ix mi1 r = (res, mi', r')" by (simp add: mi_add_pack_def)
    from mi_persist_one_props [OF p1(1) this] p1 show ?thesis by (simp add: mi_indexed_def)
  qed
qed

text \<open>C24: a pack that is handed to the master index is recorded whatever the outcome of saving the index file:
  every blob in it that is not padding becomes known through an index, leaves the pending set, nothing
  that was known is forgotten, and the invariant holds again.\<close>

theorem mi_add_pack_records:
  assumes "mi_ok mi" "mi_room mi" "mi_add_pack lim sz to_json save now p ds mi r = (res, mi', r')"
  shows "mi_ok mi' \<and> mi_indexed mi' = mi_indexed mi \<union> packed_ids ds \<and>
    sh_abs (mi_pending mi') = sh_abs (mi_pending mi) - pd_id ` set ds"
  using mi_add_pack_props [OF assms] by blast

definition demo_limits :: IndexLimits where
  "demo_limits = \<lparr>il_blobs_per_index_file = 1, il_index_flush_timeout = 300\<rparr>"

definition demo_save :: "bytes \<Rightarrow> nat \<Rightarrow> (ID \<times> SizePair) result \<times> nat" where
  "demo_save s n = (Ok (ID s, sp_new 1 2), n + 1)"

lemma mi_new_simps [simp]: "mi_room (mi_new n)" "mi_indexed (mi_new n) = {}"
  by (simp_all add: mi_room_def mi_new_def mi_indexed_def mi_entries_def2)

theorem mi_add_pack_records_witness:
  "case mi_add_pack demo_limits demo_sizing (\<lambda>f. Some [7]) demo_save 0 (ID (replicate 32 9)) [demo_desc] (mi_new 1) 0 of
     (res, mi', r') \<Rightarrow> mi_indexed mi' = {ID (replicate 32 1)}"
  using mi_add_pack_records [OF mi_ok_new mi_new_simps(1), of demo_limits demo_sizing "\<lambda>f. Some [7]" demo_save 0
      "ID (replicate 32 9)" "[demo_desc]" 1 0]
  by (auto simp: demo_desc_def)

section \<open>persist\<close>

lemma mi_mark_props:
  assumes "mi_ok mi" "mi_mark mi = (todo, mi')"
  shows "mi_ok mi'" "mi_entries mi' = mi_entries mi" "mi_pending mi' = mi_pending mi"
    "map ix_instance_id (mi_indices mi') = map ix_instance_id (mi_indices mi)"
    "ix \<in> set todo \<Longrightarrow> \<not> index_is_empty ix"
    "ix \<in> set (mi_indices mi') \<Longrightarrow> is_persisted ix \<or> index_is_empty ix \<or> ix_instance_id ix \<in> ix_instance_id ` set todo"
proof -
  have m: "todo = map index_finalize (filter needs_persist (mi_indices mi))"
    "mi' = mi\<lparr>mi_indices := map (\<lambda>ix. if needs_persist ix then index_finalize ix else ix) (mi_indices mi)\<rparr>"
    using assms(2) by (auto simp: mi_mark_def)
  show pend: "mi_pending mi' = mi_pending mi" by (simp add: m)
  show ent: "mi_entries mi' = mi_entries mi" by (auto simp: m mi_entries_def2)
  show "mi_ok mi'"
    by (rule mi_ok_frame [OF assms(1) pend])
      (use mi_okD(1) [OF assms(1)] in \<open>simp_all add: mi_indexed_def ent\<close>, auto simp: m list_all_iff)
  show "map ix_instance_id (mi_indices mi') = map ix_instance_id (mi_indices mi)"
    by (simp add: m index_finalize_def set_status_def)
  show "ix \<in> set todo \<Longrightarrow> \<not> index_is_empty ix" by (auto simp: m needs_persist_def)
  show "ix \<in> set (mi_indices mi') \<Longrightarrow> is_persisted ix \<or> index_is_empty ix \<or> ix_instance_id ix \<in> ix_instance_id ` set todo"
    by (force simp: m needs_persist_def)
qed

lemma mi_persist_loop_frame:
  assumes "mi_ok mi" "mi_persist_loop sz to_json save todo acc mi r = (res, mi', r')"
  shows "mi_ok mi' \<and> mi_entries mi' = mi_entries mi \<and> mi_pending mi' = mi_pending mi"
  using assms
proof (induction todo arbitrary: acc mi r)
  case (Cons ix todo)
  obtain x mi1 r1 where one: "mi_persist_one sz to_json save ix mi r = (x, mi1, r1)" by (metis prod_cases3)
  note p = mi_persist_one_props [OF Cons.prems(1) one]
  show ?case
  proof (cases x)
    case (Inl e)
    with Cons.prems(2) one p show ?thesis by simp
  next
    case (Inr sizes)
    with Cons.prems(2) one have "mi_persist_loop sz to_json save todo (sp_add acc sizes) mi1 r1 = (res, mi', r')" by simp
    from Cons.IH [OF p(1) this] p show ?thesis by simp
  qed
qed simp

text \<open>Setting the status of the only index with an instance id.\<close>

lemma update_status_set:
  assumes "distinct (map ix_instance_id ixs)"
    "ix \<in> set (update_first (\<lambda>ix. ix_instance_id ix = k) (\<lambda>ix. set_status ix st) ixs)"
  shows "if ix_instance_id ix = k then ix_status ix = st else ix \<in> set ixs"
  using assms
proof (induction ixs)
  case (Cons x xs)
  show ?case
  proof (cases "ix_instance_id x = k")
    case True
    with Cons.prems have "ix = set_status x st \<or> ix \<in> set xs \<and> ix_instance_id ix \<noteq> k" by (auto simp: image_iff)
    then show ?thesis using True by (auto simp: set_status_def)
  next
    case False
    with Cons show ?thesis by auto
  qed
qed simp

lemma mi_persist_loop_done:
  assumes "distinct (map ix_instance_id (mi_indices mi))" "\<forall>ix\<in>set todo. \<not> index_is_empty ix"
    "\<forall>ix\<in>set (mi_indices mi). is_persisted ix \<or> index_is_empty ix \<or> ix_instance_id ix \<in> ix_instance_id ` set todo"
    "mi_persist_loop sz to_json save todo acc mi r = (Ok sizes, mi', r')"
  shows "\<forall>ix\<in>set (mi_indices mi'). is_persisted ix \<or> index_is_empty ix"
  using assms
proof (induction todo arbitrary: acc mi r)
  case (Cons ix todo)
  obtain x ix1 r1 where p: "index_persist sz to_json save ix r = (x, ix1, r1)" by (metis prod_cases3)
  with Cons.prems(4) obtain s where x: "x = Ok s" by (cases x) (auto simp: mi_persist_one_def)
  let ?mi = "mi_update_status (ix_instance_id ix) (ix_status ix1) mi"
  have "is_persisted ix1" using index_persist_status(2) [OF p [unfolded x]] Cons.prems(2) by simp
  then have st: "is_persisted y" if "ix_status y = ix_status ix1" for y
    using that by (simp add: is_persisted_def)
  have "map ix_instance_id (update_first q (\<lambda>ix. set_status ix st) xs) = map ix_instance_id xs" for q st xs
    by (induction xs) (auto simp: set_status_def)
  then have dist: "distinct (map ix_instance_id (mi_indices ?mi))"
    using Cons.prems(1) by (simp add: mi_update_status_def)
  have "is_persisted y \<or> index_is_empty y \<or> ix_instance_id y \<in> ix_instance_id ` set todo" if "y \<in> set (mi_indices ?mi)" for y
    using update_status_set [OF Cons.prems(1), of y "ix_instance_id ix" "ix_status ix1"] that Cons.prems(3) st
    by (auto simp: mi_update_status_def split: if_splits)
  moreover have "mi_persist_loop sz to_json save todo (sp_add acc s) ?mi r1 = (Ok sizes, mi', r')"
    using Cons.prems(4) by (simp add: mi_persist_one_def p x)
  ultimately show ?case using Cons.IH [OF dist] Cons.prems(2) by simp
qed simp


lemma demo_mi:
  "mi_ok (mi_add_index (mi_new 2) demo_index)" "distinct (map ix_instance_id (mi_indices (mi_add_index (mi_new 2) demo_index)))"
  using mi_add_index_props(1) [OF mi_ok_new demo_index_ok(1)] by (simp_all add: mi_add_index_def mi_new_def)


section \<open>merge\_index\<close>

definition not_obsolete :: "ID set option \<Rightarrow> ID \<Rightarrow> bool" where
  "not_obsolete obs p \<longleftrightarrow> (case obs of Some s \<Rightarrow> p \<notin> s | None \<Rightarrow> True)"

definition grouped :: "(ID \<times> 'd list) list \<Rightarrow> (ID \<times> 'd) set" where
  "grouped m = {(p, d). \<exists>ds. hm_get m p = Some ds \<and> d \<in> set ds}"

lemma grouped_push: "grouped (group_push p d m) = insert (p, d) (grouped m)"
  by (auto simp: grouped_def group_push_def update_conv split: option.splits if_splits)

lemma hm_ok_push [simp]: "hm_ok m \<Longrightarrow> hm_ok (group_push p d m)"
  by (simp add: group_push_def)

text \<open>What the entries of one blob map contribute.\<close>

definition live_descs :: "Index \<Rightarrow> ID set option \<Rightarrow> BlobType \<Rightarrow> (ID \<times> BlobLocationInternal) list \<Rightarrow> (ID \<times> PackedBlobDescriptor) set" where
  "live_descs ix obs t es =
     {(p, location_descriptor t i loc) | p i loc.
        (i, loc) \<in> set es \<and> is_get_value (ix_pack_ids ix) (unat (bl_pack_array_index loc)) = Some p \<and> not_obsolete obs p}"

lemma process_map_props:
  assumes "hm_ok acc"
  shows "hm_ok (process_map ix obs m t acc) \<and>
         grouped (process_map ix obs m t acc) = grouped acc \<union> live_descs ix obs t (bm_iter m)"
proof -
  have "hm_ok (fold (\<lambda>(i, loc) acc. case is_get_value (ix_pack_ids ix) (unat (bl_pack_array_index loc)) of
           None \<Rightarrow> acc
         | Some pack_id \<Rightarrow>
             if (case obs of Some obsolete \<Rightarrow> pack_id \<in> obsolete | None \<Rightarrow> False) then acc
             else group_push pack_id (location_descriptor t i loc) acc) es acc) \<and>
    grouped (fold (\<lambda>(i, loc) acc. case is_get_value (ix_pack_ids ix) (unat (bl_pack_array_index loc)) of
           None \<Rightarrow> acc
         | Some pack_id \<Rightarrow>
             if (case obs of Some obsolete \<Rightarrow> pack_id \<in> obsolete | None \<Rightarrow> False) then acc
             else group_push pack_id (location_descriptor t i loc) acc) es acc) = grouped acc \<union> live_descs ix obs t es" for es
    using assms
  proof (induction es arbitrary: acc)
    case (Cons e es)
    obtain i loc where e: "e = (i, loc)" by fastforce
    show ?case
    proof (cases "is_get_value (ix_pack_ids ix) (unat (bl_pack_array_index loc))")
      case None
      then have "live_descs ix obs t (e # es) = live_descs ix obs t es" by (auto simp: live_descs_def e)
      with Cons None show ?thesis by (simp add: e)
    next
      case (Some p)
      then have live: "live_descs ix obs t (e # es) =
          (if not_obsolete obs p then insert (p, location_descriptor t i loc) (live_descs ix obs t es) else live_descs ix obs t es)"
        by (auto simp: live_descs_def e)
      have obs: "(case obs of Some obsolete \<Rightarrow> p \<in> obsolete | None \<Rightarrow> False) \<longleftrightarrow> \<not> not_obsolete obs p"
        by (simp add: not_obsolete_def split: option.splits)
      show ?thesis
        using Cons.IH [OF Cons.prems] Cons.IH [OF hm_ok_push [OF Cons.prems]] Some
        by (simp add: e live [unfolded e] obs grouped_push)
    qed
  qed (simp add: live_descs_def)
  then show ?thesis by (simp add: process_map_def)
qed

text \<open>The descriptors of an index that are not in an obsolete pack, as pairs of pack and descriptor.\<close>

definition live :: "ID set option \<Rightarrow> Index \<Rightarrow> (ID \<times> PackedBlobDescriptor) set" where
  "live obs ix = live_descs ix obs Data (bm_iter (ix_data_ids ix)) \<union> live_descs ix obs Tree (bm_iter (ix_tree_ids ix))"

lemma get_pack_descriptors_props:
  "hm_ok (get_pack_descriptors ix obs)" "grouped (get_pack_descriptors ix obs) = live obs ix"
  using process_map_props [of "[]" ix obs "ix_data_ids ix" Data]
    process_map_props [of "process_map ix obs (ix_data_ids ix) Data []" ix obs "ix_tree_ids ix" Tree]
  by (simp_all add: get_pack_descriptors_def live_def grouped_def)

lemma live_locators:
  "(\<lambda>(p, d). (pd_id d, desc_locator p d)) ` live obs ix = {(i, l) \<in> set (iter_ids ix). not_obsolete obs (lo_pack_id l)}"
proof -
  have "(\<lambda>(p, d). (pd_id d, desc_locator p d)) ` live_descs ix obs t (bm_iter (ix_map ix t)) =
      {(i, l) \<in> resolved ix t. not_obsolete obs (lo_pack_id l)}" for t
    by (force simp: live_descs_def resolved_def resolve_location_def location_descriptor_def desc_locator_def
        image_iff split: option.splits)
  from this [of Data] this [of Tree] show ?thesis by (auto simp: live_def image_Un set_iter_ids)
qed

lemma live_not_padding: "(p, d) \<in> live obs ix \<Longrightarrow> pd_type d \<noteq> Padding"
  by (auto simp: live_def live_descs_def location_descriptor_def)

text \<open>The gathered map: which descriptors it holds, and under which pack and blob id.\<close>

definition gathered :: "pack_descs \<Rightarrow> (ID \<times> PackedBlobDescriptor) set" where
  "gathered acc = {(p, d). \<exists>dm. (p, dm) \<in> set acc \<and> d \<in> snd ` set dm}"

definition gathered_ids :: "pack_descs \<Rightarrow> (ID \<times> ID) set" where
  "gathered_ids acc = {(p, i). \<exists>dm. (p, dm) \<in> set acc \<and> i \<in> fst ` set dm}"

definition gather_ok :: "pack_descs \<Rightarrow> bool" where
  "gather_ok acc \<longleftrightarrow> hm_ok acc \<and> (\<forall>(p, dm)\<in>set acc. \<forall>(k, d)\<in>set dm. k = pd_id d)"

lemma gather_inner:
  fixes e :: "(ID \<times> PackedBlobDescriptor) list"
  shows "set (fold (\<lambda>d e. hm_insert (pd_id d) d e) ds e) \<subseteq> set e \<union> (\<lambda>d. (pd_id d, d)) ` set ds"
  "fst ` set (fold (\<lambda>d e. hm_insert (pd_id d) d e) ds e) = fst ` set e \<union> pd_id ` set ds"
proof -
  have upd: "set (AList.update k v m) \<subseteq> insert (k, v) (set m)" for k v and m :: "(ID \<times> PackedBlobDescriptor) list"
    by (induction m) auto
  show "set (fold (\<lambda>d e. hm_insert (pd_id d) d e) ds e) \<subseteq> set e \<union> (\<lambda>d. (pd_id d, d)) ` set ds"
  proof (induction ds arbitrary: e)
    case (Cons d ds)
    from Cons.IH [of "hm_insert (pd_id d) d e"] upd [of "pd_id d" d e] show ?case by auto
  qed simp
  show "fst ` set (fold (\<lambda>d e. hm_insert (pd_id d) d e) ds e) = fst ` set e \<union> pd_id ` set ds"
    by (induction ds arbitrary: e) (auto simp: hm_keys_insert)
qed

lemma set_hm_insert: "hm_ok m \<Longrightarrow> set (hm_insert k v m) = insert (k, v) {x \<in> set m. fst x \<noteq> k}"
  by (induction m) (auto simp: hm_ok_def image_iff)

lemma merge_pack_props:
  assumes "gather_ok acc"
  shows "gather_ok (merge_pack (p, ds) acc)"
    "gathered (merge_pack (p, ds) acc) \<subseteq> gathered acc \<union> {p} \<times> set ds"
    "gathered_ids (merge_pack (p, ds) acc) = gathered_ids acc \<union> {p} \<times> pd_id ` set ds"
proof -
  have hm: "hm_ok acc" using assms by (simp add: gather_ok_def)
  define e where "e = (case hm_get acc p of None \<Rightarrow> [] | Some e \<Rightarrow> e)"
  define e' where "e' = fold (\<lambda>d e. hm_insert (pd_id d) d e) ds e"
  have m: "set (merge_pack (p, ds) acc) = insert (p, e') {x \<in> set acc. fst x \<noteq> p}"
    using set_hm_insert [OF hm] by (simp add: merge_pack_def e_def e'_def Let_def)
  have e: "(p, dm) \<in> set acc \<Longrightarrow> dm = e" "e \<noteq> [] \<Longrightarrow> (p, e) \<in> set acc" for dm
    using hm_get_set [OF hm, of p, THEN sym] by (auto simp: e_def split: option.splits)
  note inner = gather_inner [of ds e, folded e'_def]
  have key: "(k, d) \<in> set e \<Longrightarrow> k = pd_id d" for k d
    using assms e(2) by (cases "e = []") (auto simp: gather_ok_def)
  have "\<forall>(k, d)\<in>set e'. k = pd_id d" using inner(1) key by auto
  then show "gather_ok (merge_pack (p, ds) acc)"
    using assms by (auto simp: gather_ok_def m) (simp add: merge_pack_def Let_def)
  have "snd ` set e \<subseteq> {d. (p, d) \<in> gathered acc}" using e(2) by (cases "e = []") (force simp: gathered_def)+
  moreover have "snd ` set e' \<subseteq> snd ` set e \<union> set ds" using inner(1) by force
  ultimately have g1: "d \<in> snd ` set e' \<Longrightarrow> d \<in> set ds \<or> (p, d) \<in> gathered acc" for d by blast
  have "(q, d) \<in> gathered acc \<union> {p} \<times> set ds" if mem: "(q, d) \<in> gathered (merge_pack (p, ds) acc)" for q d
  proof (cases "q = p")
    case True
    with mem have "d \<in> snd ` set e'" by (auto simp: gathered_def m)
    with g1 True show ?thesis by blast
  next
    case False
    with mem show ?thesis by (auto simp: gathered_def m)
  qed
  then show "gathered (merge_pack (p, ds) acc) \<subseteq> gathered acc \<union> {p} \<times> set ds" by (rule subrelI)
  have ide: "(p, i) \<in> gathered_ids acc \<longleftrightarrow> i \<in> fst ` set e" for i
  proof (cases "e = []")
    case True
    then show ?thesis by (auto simp: gathered_ids_def dest: e(1))
  next
    case False
    then show ?thesis using e unfolding gathered_ids_def by blast
  qed
  have "(q, i) \<in> gathered_ids (merge_pack (p, ds) acc) \<longleftrightarrow> (q, i) \<in> gathered_ids acc \<union> {p} \<times> pd_id ` set ds" for q i
  proof (cases "q = p")
    case True
    have "(p, i) \<in> gathered_ids (merge_pack (p, ds) acc) \<longleftrightarrow> i \<in> fst ` set e'"
      unfolding gathered_ids_def m by auto
    with True ide inner(2) show ?thesis by simp
  next
    case False
    then show ?thesis unfolding gathered_ids_def m by auto
  qed
  then show "gathered_ids (merge_pack (p, ds) acc) = gathered_ids acc \<union> {p} \<times> pd_id ` set ds" by auto
qed

lemma fold_merge_pack:
  assumes "gather_ok acc" "hm_ok m"
  shows "gather_ok (fold merge_pack m acc) \<and> gathered (fold merge_pack m acc) \<subseteq> gathered acc \<union> grouped m \<and>
    gathered_ids (fold merge_pack m acc) = gathered_ids acc \<union> (\<lambda>(p, d). (p, pd_id d)) ` grouped m"
  using assms
proof (induction m arbitrary: acc)
  case (Cons x m)
  obtain p ds where x: "x = (p, ds)" by fastforce
  have hm: "hm_ok m" "p \<notin> fst ` set m" using Cons.prems(2) by (simp_all add: hm_ok_def x)
  then have "hm_get m p = None" by (simp add: map_of_eq_None_iff [THEN iffD2])
  then have g: "grouped (x # m) = {p} \<times> set ds \<union> grouped m" by (auto simp: grouped_def x split: if_splits)
  note mp = merge_pack_props [OF Cons.prems(1), of p ds]
  have im: "(\<lambda>(p, d). (p, pd_id d)) ` ({p} \<times> set ds) = {p} \<times> pd_id ` set ds" by force
  from Cons.IH [OF mp(1) hm(1)] mp(2,3) show ?case
    unfolding g image_Un im by (simp add: x Un_assoc) blast
qed (simp add: grouped_def)

lemma all_pack_descriptors_props:
  "gather_ok (all_pack_descriptors obs old)"
  "gathered (all_pack_descriptors obs old) \<subseteq> (\<Union>ix\<in>set old. live obs ix)"
  "gathered_ids (all_pack_descriptors obs old) = (\<lambda>(p, d). (p, pd_id d)) ` (\<Union>ix\<in>set old. live obs ix)"
proof -
  have "gather_ok (fold (\<lambda>ix acc. fold merge_pack (get_pack_descriptors ix obs) acc) old acc) \<and>
    gathered (fold (\<lambda>ix acc. fold merge_pack (get_pack_descriptors ix obs) acc) old acc) \<subseteq> gathered acc \<union> (\<Union>ix\<in>set old. live obs ix) \<and>
    gathered_ids (fold (\<lambda>ix acc. fold merge_pack (get_pack_descriptors ix obs) acc) old acc) =
      gathered_ids acc \<union> (\<lambda>(p, d). (p, pd_id d)) ` (\<Union>ix\<in>set old. live obs ix)" if "gather_ok acc" for acc
    using that
  proof (induction old arbitrary: acc)
    case (Cons ix old)
    note one = fold_merge_pack [OF Cons.prems get_pack_descriptors_props(1) [of ix obs], unfolded get_pack_descriptors_props(2)]
    from Cons.IH [OF conjunct1 [OF one]] one show ?case by (simp add: image_Un Un_assoc) blast
  qed simp
  from this [of "[]"]
  show "gather_ok (all_pack_descriptors obs old)"
    "gathered (all_pack_descriptors obs old) \<subseteq> (\<Union>ix\<in>set old. live obs ix)"
    "gathered_ids (all_pack_descriptors obs old) = (\<lambda>(p, d). (p, pd_id d)) ` (\<Union>ix\<in>set old. live obs ix)"
    by (simp_all add: all_pack_descriptors_def gather_ok_def gathered_def gathered_ids_def)
qed

text \<open>The rebuilding loop.\<close>

lemma index_add_pack_len:
  "index_ok ix \<Longrightarrow> is_len (ix_pack_ids (index_add_pack ix p ds)) \<le> is_len (ix_pack_ids ix) + 1"
  by (auto simp: index_add_pack_def index_ok_def split: prod.splits dest: is_insert_len)

definition rebuild_inv :: "ID set \<Rightarrow> (ID \<times> BlobLocator) set \<Rightarrow> nat \<Rightarrow> Index list \<times> Index \<times> u64 \<Rightarrow> bool" where
  "rebuild_inv ids ents n st \<longleftrightarrow>
     (case st of (done, cur, _) \<Rightarrow>
        list_all index_ok done \<and> index_ok cur \<and> is_pending cur \<and> is_len (ix_pack_ids cur) \<le> n \<and>
        {i. \<exists>ix\<in>set (done @ [cur]). index_contains ix i} = ids \<and>
        (\<Union>ix\<in>set (done @ [cur]). set (iter_ids ix)) \<subseteq> ents)"

lemma index_new_simps [simp]:
  "iter_ids (index_new n now) = []" "is_pending (index_new n now)" "is_len (ix_pack_ids (index_new n now)) = 0"
  "\<not> index_contains (index_new n now) i"
  by (simp_all add: iter_ids_def index_new_def new_mutable_def map_filter_def is_pending_def is_new_def is_len_def index_contains_def)

lemma rebuild_step_inv:
  assumes inv: "rebuild_inv ids ents n st" and n: "n < 2 ^ 32" and np: "\<And>d. d \<in> snd ` set dm \<Longrightarrow> pd_type d \<noteq> Padding"
  shows "rebuild_inv (ids \<union> pd_id ` snd ` set dm) (ents \<union> (\<lambda>d. (pd_id d, desc_locator p d)) ` snd ` set dm) (n + 1)
           (rebuild_step bpi now (p, dm) st)"
proof -
  obtain dn cur nx where st: "st = (dn, cur, nx)" by (metis prod_cases3)
  let ?ds = "sort_key pd_offset (map snd dm)"
  let ?cur = "index_add_pack cur p ?ds"
  have cur: "list_all index_ok dn" "index_ok cur" "is_pending cur" "is_len (ix_pack_ids cur) < 2 ^ 32" "is_len (ix_pack_ids cur) \<le> n"
    and ids: "{i. \<exists>ix\<in>set (dn @ [cur]). index_contains ix i} = ids"
    and ents: "(\<Union>ix\<in>set (dn @ [cur]). set (iter_ids ix)) \<subseteq> ents"
    using inv n by (auto simp: rebuild_inv_def st)
  have packed: "packed_ids ?ds = pd_id ` snd ` set dm" using np by (auto simp: packed_ids_def)
  have con: "index_contains ?cur i \<longleftrightarrow> index_contains cur i \<or> i \<in> pd_id ` snd ` set dm" for i
    using index_add_pack_contains [OF cur(2-4), of p ?ds i] packed by simp
  have it: "set (iter_ids ?cur) \<subseteq> set (iter_ids cur) \<union> (\<lambda>d. (pd_id d, desc_locator p d)) ` snd ` set dm"
    using index_add_pack_iter [OF cur(2-4), of p ?ds] by (auto simp: packed_locs_def)
  have ok: "index_ok ?cur" using index_add_pack_props [OF cur(2-4)] by blast
  have pend: "is_pending ?cur" using cur(3) by (simp add: is_pending_def index_add_pack_def split: prod.splits)
  have len: "is_len (ix_pack_ids ?cur) \<le> n + 1" using index_add_pack_len [OF cur(2), of p ?ds] cur(5) by simp
  have ids': "{i. \<exists>ix\<in>set (dn @ [?cur]). index_contains ix i} = ids \<union> pd_id ` snd ` set dm"
    using ids con by auto
  have ents': "(\<Union>ix\<in>set (dn @ [?cur]). set (iter_ids ix)) \<subseteq> ents \<union> (\<lambda>d. (pd_id d, desc_locator p d)) ` snd ` set dm"
    using ents it by auto
  show ?thesis
  proof (cases "index_is_full bpi ?cur")
    case True
    then have "rebuild_step bpi now (p, dm) st = (dn @ [set_status ?cur Finalized], index_new nx now, nx + 1)"
      by (simp add: rebuild_step_def st)
    moreover have "index_ok (set_status ?cur Finalized)" using ok by (simp add: set_status_ok)
    ultimately show ?thesis using cur(1) ids' ents' by (simp add: rebuild_inv_def)
  next
    case False
    then have "rebuild_step bpi now (p, dm) st = (dn, ?cur, nx)" by (simp add: rebuild_step_def st)
    then show ?thesis using cur(1) ok pend len ids' ents' by (simp add: rebuild_inv_def)
  qed
qed

lemma fold_rebuild_inv:
  assumes "rebuild_inv ids ents n st" "n + length pds \<le> 2 ^ 32"
    "\<forall>d\<in>snd ` gathered pds. pd_type d \<noteq> Padding"
  shows "rebuild_inv (ids \<union> pd_id ` snd ` gathered pds) (ents \<union> (\<lambda>(p, d). (pd_id d, desc_locator p d)) ` gathered pds)
           (n + length pds) (fold (rebuild_step bpi now) pds st)"
  using assms
proof (induction pds arbitrary: ids ents n st)
  case Nil
  then show ?case by (simp add: gathered_def)
next
  case (Cons x pds)
  obtain p dm where x: "x = (p, dm)" by fastforce
  have g: "gathered (x # pds) = {p} \<times> (snd ` set dm) \<union> gathered pds" by (auto simp: gathered_def x)
  have im: "pd_id ` snd ` ({p} \<times> D) = pd_id ` D" "(\<lambda>(p, d). (pd_id d, desc_locator p d)) ` ({p} \<times> D) = (\<lambda>d. (pd_id d, desc_locator p d)) ` D" for D
    by force+
  have step: "rebuild_inv (ids \<union> pd_id ` snd ` set dm) (ents \<union> (\<lambda>d. (pd_id d, desc_locator p d)) ` snd ` set dm) (n + 1)
           (rebuild_step bpi now x st)"
    unfolding x by (rule rebuild_step_inv [OF Cons.prems(1)]) (use Cons.prems(2,3) g in \<open>force+\<close>)
  have np: "\<forall>d\<in>snd ` gathered pds. pd_type d \<noteq> Padding" using Cons.prems(3) g by auto
  from Cons.IH [OF step _ np] Cons.prems(2) show ?case
    unfolding g image_Un im by (simp add: Un_assoc)
qed

lemma group_push_keys: "fst ` set (group_push p d m) = insert p (fst ` set m)"
  by (simp add: group_push_def hm_keys_insert)

lemma process_map_keys:
  "fst ` set (process_map ix obs m t acc) \<subseteq> fst ` set acc \<union> set (is_values (ix_pack_ids ix))"
proof -
  let ?V = "set (is_values (ix_pack_ids ix))"
  have "fst ` set (fold (\<lambda>(i, loc) acc. case is_get_value (ix_pack_ids ix) (unat (bl_pack_array_index loc)) of
           None \<Rightarrow> acc
         | Some pack_id \<Rightarrow>
             if (case obs of Some obsolete \<Rightarrow> pack_id \<in> obsolete | None \<Rightarrow> False) then acc
             else group_push pack_id (location_descriptor t i loc) acc) es acc) \<subseteq> fst ` set acc \<union> ?V" for es
  proof (induction es arbitrary: acc)
    case (Cons e es)
    obtain i loc where e: "e = (i, loc)" by fastforce
    show ?case
    proof (cases "is_get_value (ix_pack_ids ix) (unat (bl_pack_array_index loc))")
      case (Some p)
      then have "p \<in> ?V" by (auto simp: is_get_value_def split: if_splits)
      then have "fst ` set (group_push p (location_descriptor t i loc) acc) \<union> ?V \<subseteq> fst ` set acc \<union> ?V"
        by (simp add: group_push_keys)
      from subset_trans [OF Cons.IH this] Cons.IH [of acc] Some show ?thesis by (simp add: e)
    qed (use Cons.IH in \<open>simp add: e\<close>)
  qed simp
  then show ?thesis by (simp add: process_map_def)
qed

lemma fold_merge_keys: "fst ` set (fold merge_pack m acc) = fst ` set acc \<union> fst ` set m"
proof (induction m arbitrary: acc)
  case (Cons x m)
  have "fst ` set (merge_pack x acc) = insert (fst x) (fst ` set acc)"
    by (cases x) (simp add: merge_pack_def Let_def hm_keys_insert)
  with Cons.IH [of "merge_pack x acc"] show ?case by simp
qed simp

lemma gather_keys: "fst ` set (all_pack_descriptors obs old) \<subseteq> (\<Union>ix\<in>set old. set (is_values (ix_pack_ids ix)))"
proof -
  have one: "fst ` set (get_pack_descriptors ix obs) \<subseteq> set (is_values (ix_pack_ids ix))" for ix
    using process_map_keys [of ix obs "ix_tree_ids ix" Tree "process_map ix obs (ix_data_ids ix) Data []"]
      process_map_keys [of ix obs "ix_data_ids ix" Data "[]"]
    unfolding get_pack_descriptors_def by (simp add: Un_absorb1)
  have "fst ` set (fold (\<lambda>ix acc. fold merge_pack (get_pack_descriptors ix obs) acc) old acc) =
      fst ` set acc \<union> (\<Union>ix\<in>set old. fst ` set (get_pack_descriptors ix obs))" for acc
    by (induction old arbitrary: acc) (simp_all add: fold_merge_keys Un_assoc)
  from this [of "[]"] UN_mono [OF subset_refl one] show ?thesis unfolding all_pack_descriptors_def by simp
qed

lemma gather_length:
  "length (all_pack_descriptors obs old) \<le> sum_list (map index_num_packs old)"
proof -
  have "length (all_pack_descriptors obs old) = card (fst ` set (all_pack_descriptors obs old))"
    using all_pack_descriptors_props(1) [of obs old] distinct_card [of "map fst (all_pack_descriptors obs old)"]
    by (simp add: gather_ok_def hm_ok_def)
  also have "\<dots> \<le> card (\<Union>ix\<in>set old. set (is_values (ix_pack_ids ix)))"
    by (intro card_mono gather_keys) simp
  also have "\<dots> \<le> sum_list (map index_num_packs old)"
  proof (induction old)
    case (Cons ix old)
    have "card (set (is_values (ix_pack_ids ix))) \<le> index_num_packs ix"
      by (simp add: index_num_packs_def is_len_def card_length)
    with Cons card_Un_le [of "set (is_values (ix_pack_ids ix))" "\<Union>ix\<in>set old. set (is_values (ix_pack_ids ix))"]
    show ?case by simp
  qed simp
  finally show ?thesis .
qed

lemma gathered_sort [simp]: "gathered (sort_key f pds) = gathered pds"
  by (simp add: gathered_def)

lemma set_status_same: "is_pending ix \<Longrightarrow> set_status ix Pending = ix"
  by (simp add: set_status_def is_pending_def split: IndexStatus.splits)

lemma empty_contains: "index_is_empty ix \<Longrightarrow> iter_ids ix = []"
  by (cases "ix_data_ids ix"; cases "ix_tree_ids ix")
    (auto simp: index_is_empty_def index_num_blobs_def iter_ids_def map_filter_def)

definition survivors :: "ID set option \<Rightarrow> MasterIndex \<Rightarrow> (ID \<times> BlobLocator) set" where
  "survivors obs mi = {(i, l) \<in> mi_entries mi. not_obsolete obs (lo_pack_id l)}"

lemma survivors_live:
  "survivors obs mi = (\<lambda>(p, d). (pd_id d, desc_locator p d)) ` (\<Union>ix\<in>set (mi_indices mi). live obs ix)"
  by (simp add: image_UN live_locators survivors_def mi_entries_def2) blast

lemma gathered_survivors:
  fixes obs mi
  defines "pds \<equiv> all_pack_descriptors obs (sort_key ix_instance_id (mi_indices mi))"
  shows "(\<lambda>(p, d). (pd_id d, desc_locator p d)) ` gathered pds \<subseteq> survivors obs mi"
    "pd_id ` snd ` gathered pds = fst ` survivors obs mi" "\<forall>d\<in>snd ` gathered pds. pd_type d \<noteq> Padding"
proof -
  note all = all_pack_descriptors_props [of obs "sort_key ix_instance_id (mi_indices mi)", folded pds_def, simplified]
  show "(\<lambda>(p, d). (pd_id d, desc_locator p d)) ` gathered pds \<subseteq> survivors obs mi"
    unfolding survivors_live by (rule image_mono [OF all(2)])
  show "\<forall>d\<in>snd ` gathered pds. pd_type d \<noteq> Padding" using all(2) live_not_padding by fastforce
  have "k = pd_id d" if "(p, dm) \<in> set pds" "(k, d) \<in> set dm" for p dm k d
    using all(1) that by (auto simp: gather_ok_def)
  then have "pd_id ` snd ` gathered pds = snd ` gathered_ids pds"
    by (force simp: gathered_def gathered_ids_def)
  also have "\<dots> = fst ` survivors obs mi"
    unfolding all(3) survivors_live by (force simp: image_iff)
  finally show "pd_id ` snd ` gathered pds = fst ` survivors obs mi" .
qed

lemma mi_merge_props:
  assumes "mi_ok mi" "sum_list (map index_num_packs (mi_indices mi)) \<le> 2 ^ 32"
  shows "mi_ok (mi_merge_index bpi now obs mi) \<and> mi_entries (mi_merge_index bpi now obs mi) \<subseteq> survivors obs mi \<and>
    mi_indexed (mi_merge_index bpi now obs mi) = fst ` survivors obs mi \<and>
    mi_pending (mi_merge_index bpi now obs mi) = mi_pending mi"
proof -
  let ?old = "sort_key ix_instance_id (mi_indices mi)"
  let ?pds = "all_pack_descriptors obs ?old"
  let ?mi = "mi_merge_index bpi now obs mi"
  note gs = gathered_survivors [of obs mi]
  obtain dn cur nx where f: "fold (rebuild_step bpi now) (sort_key fst ?pds) ([], index_new (mi_next mi) now, mi_next mi + 1) = (dn, cur, nx)"
    by (metis prod_cases3)
  have "mset (map index_num_packs ?old) = mset (map index_num_packs (mi_indices mi))"
    by (simp only: mset_map mset_sort)
  then have "length ?pds \<le> 2 ^ 32"
    using gather_length [of obs ?old] assms(2) by (metis order_trans sum_mset_sum_list)
  moreover have "rebuild_inv {} {} 0 ([], index_new (mi_next mi) now, mi_next mi + 1)" by (simp add: rebuild_inv_def)
  ultimately have inv: "rebuild_inv (fst ` survivors obs mi) ((\<lambda>(p, d). (pd_id d, desc_locator p d)) ` gathered ?pds) (length ?pds) (dn, cur, nx)"
    using fold_rebuild_inv [of "{}" "{}" 0 "([], index_new (mi_next mi) now, mi_next mi + 1)" "sort_key fst ?pds" bpi now] gs(2,3) f
    by simp
  have idx: "mi_indices ?mi = (if \<not> index_is_empty cur then dn @ [cur] else dn)"
    using inv by (simp add: mi_merge_index_def Let_def f set_status_same rebuild_inv_def)
  have ok: "list_all index_ok (mi_indices ?mi)" using inv by (auto simp: idx rebuild_inv_def)
  have okc: "list_all index_ok (dn @ [cur])" using inv by (auto simp: rebuild_inv_def)
  have ent: "mi_entries ?mi = (\<Union>ix\<in>set (dn @ [cur]). set (iter_ids ix))"
    unfolding mi_entries_def2 idx using empty_contains [of cur] by auto
  have "mi_indexed ?mi = (\<Union>ix\<in>set (dn @ [cur]). {i. index_contains ix i})"
    using okc iter_ids_contains unfolding mi_indexed_def ent image_UN list_all_iff by blast
  then have ids: "mi_indexed ?mi = fst ` survivors obs mi" using inv by (auto simp: rebuild_inv_def)
  have pend: "mi_pending ?mi = mi_pending mi" "mi_bloom ?mi = mi_bloom mi"
    by (simp_all add: mi_merge_index_def Let_def f)
  have "fst ` survivors obs mi \<subseteq> mi_indexed mi" by (auto simp: survivors_def mi_indexed_def)
  then have "mi_ok ?mi" by (intro mi_ok_frame [OF assms(1) pend ok]) (simp add: ids)
  moreover have "mi_entries ?mi \<subseteq> survivors obs mi"
    unfolding ent by (rule subset_trans [OF _ gs(1)]) (use inv in \<open>simp add: rebuild_inv_def\<close>)
  ultimately show ?thesis using ids pend by simp
qed

text \<open>C26: \<open>cleanup\<close> keeps exactly the blobs that still have a copy outside the obsolete packs. Every entry
  of the merged indices is an entry of the old ones and lies in a pack that is not obsolete, every blob
  that had such an entry is still indexed, and the invariant holds, so the filter still finds them.\<close>

theorem mi_cleanup_exact:
  assumes "mi_ok mi" "sum_list (map index_num_packs (mi_indices mi)) \<le> 2 ^ 32"
  shows "mi_ok (mi_cleanup bpi now obs mi) \<and> mi_pending (mi_cleanup bpi now obs mi) = mi_pending mi \<and>
    mi_entries (mi_cleanup bpi now obs mi) \<subseteq> {(i, l) \<in> mi_entries mi. not_obsolete obs (lo_pack_id l)} \<and>
    mi_indexed (mi_cleanup bpi now obs mi) = fst ` {(i, l) \<in> mi_entries mi. not_obsolete obs (lo_pack_id l)}"
  using mi_merge_props [OF assms, of bpi now obs] unfolding mi_cleanup_def survivors_def by blast

theorem mi_cleanup_exact_witness:
  "mi_indexed (mi_cleanup 100 5 (Some {ID (replicate 32 9)}) (mi_add_index (mi_new 2) demo_index)) = {}"
proof -
  have one: "is_len (ix_pack_ids demo_index) = 1"
    by (simp add: demo_index_def index_add_pack_def index_new_def is_insert_def is_new_def is_len_def)
  have "mi_entries (mi_add_index (mi_new 2) demo_index) = set (iter_ids demo_index)"
    using mi_add_index_props(2) [OF mi_ok_new demo_index_ok(1)] by simp
  moreover have "set (iter_ids demo_index) \<subseteq> {(ID (replicate 32 1), desc_locator (ID (replicate 32 9)) demo_desc)}"
    using index_add_pack_iter [OF index_ok_new index_new_simps(2), of 1 0 "ID (replicate 32 9)" "[demo_desc]"]
    by (auto simp: demo_index_def demo_desc_def packed_locs_def)
  ultimately have "{(i, l) \<in> mi_entries (mi_add_index (mi_new 2) demo_index). not_obsolete (Some {ID (replicate 32 9)}) (lo_pack_id l)} = {}"
    by (auto simp: not_obsolete_def desc_locator_def)
  with mi_cleanup_exact [OF demo_mi(1), of 100 5 "Some {ID (replicate 32 9)}"] one show ?thesis
    by (simp add: mi_add_index_def mi_new_def index_num_packs_def)
qed

section \<open>search\_prefix\<close>

text \<open>A prefix search that succeeds is right: \<open>None\<close> means that no indexed blob has the prefix, an id
  that is returned has it and is the only one that has.\<close>

theorem mi_search_prefix_sound:
  assumes "mi_search_prefix mi pfx = Ok res"
  shows "{i \<in> mi_indexed mi. take (length pfx) (to_hex i) = pfx} = set_option res"
proof -
  let ?ms = "filter (\<lambda>i. take (length pfx) (to_hex i) = pfx) (map fst (mi_each_id mi))"
  have "set ?ms = {i \<in> mi_indexed mi. take (length pfx) (to_hex i) = pfx}"
    by (auto simp: mi_indexed_def mi_entries_def)
  moreover have "\<not> length ?ms > 1" "res = (case ?ms of [] \<Rightarrow> None | i # _ \<Rightarrow> Some i)"
    using assms unfolding mi_search_prefix_def Let_def by (auto split: if_splits)
  ultimately show ?thesis by (cases ?ms rule: list.exhaust; cases "tl ?ms") (auto split: list.splits)
qed

text \<open>The converse fails: a blob that two indices hold makes every prefix of its own id ambiguous.\<close>

lemma search_prefix_duplicate:
  assumes "i \<in> fst ` set (iter_ids ix)" "mi_indices mi = [ix, ix]"
  shows "mi_search_prefix mi (to_hex i) = Err Format"
proof -
  let ?P = "\<lambda>j. take (length (to_hex i)) (to_hex j) = to_hex i"
  have "filter ?P (map fst (iter_ids ix)) \<noteq> []"
    using assms(1) by (auto simp: filter_empty_conv intro!: bexI)
  then have "length (filter ?P (map fst (mi_each_id mi))) > 1"
    by (cases "filter ?P (map fst (iter_ids ix))") (simp_all add: mi_each_id_def assms(2))
  then show ?thesis by (simp add: mi_search_prefix_def)
qed

theorem mi_search_prefix_sound_witness:
  "{i \<in> mi_indexed (mi_new 1). take (length [97]) (to_hex i) = [97]} = set_option None"
  using mi_search_prefix_sound [of "mi_new 1" "[97]" None] by (simp add: mi_search_prefix_def mi_each_id_def mi_new_def)

end
