(* ===== verification/Repository.thy ===== *)
theory Repository
  imports MasterIndex PackSaver Backend Storage
begin

text \<open>
  \<open>Repository\<close> of \<open>repository/repo.rs\<close>: where files live, saving and loading them through the secure
  storage and the backend, listing and searching, the master index built from the index files, and blobs
  stored in packs.

  Operations take the backend interface \<open>B\<close>, the third-party cryptography \<open>cr\<close>, and the random nonce of
  an encryption as arguments; the mutable part of the repository (backend state, master index, channel
  to the pack saver, statistics) is the record \<open>'b Repository\<close>. Deserialization (\<open>serde_json\<close>) is an
  argument of the operations that use it. Futures that the code runs concurrently and collects
  (\<open>buffered\<close>, \<open>buffer_unordered\<close>) are run in list order here; each only reads.

  File names are Isabelle strings of their bytes; \<open>to_string_lossy\<close> is the identity on them, which
  differs from the code only for names outside ASCII, and those are never valid ids.
\<close>

section \<open>Paths\<close>

definition OBJECTS_DIR :: string where "OBJECTS_DIR = ''objects''"
definition SNAPSHOTS_DIR :: string where "SNAPSHOTS_DIR = ''snapshots''"
definition INDEX_DIR :: string where "INDEX_DIR = ''index''"
definition KEYS_DIR :: string where "KEYS_DIR = ''keys''"
definition LOCKS_DIR :: string where "LOCKS_DIR = ''locks''"
definition REPO_DROPPED_EXTENSION :: string where "REPO_DROPPED_EXTENSION = ''dropped''"
definition OBJECTS_DIR_FANOUT :: nat where "OBJECTS_DIR_FANOUT = 2"

definition hex_name :: "ID \<Rightarrow> string" where
  "hex_name i = map char_of (to_hex i)"

definition name_id :: "string \<Rightarrow> ID result" where
  "name_id s = from_hex (map of_char s)"

definition get_object_path :: "ID \<Rightarrow> path" where
  "get_object_path i = [OBJECTS_DIR, take OBJECTS_DIR_FANOUT (hex_name i), hex_name i]"

definition get_path :: "ContentIdType \<Rightarrow> ID \<Rightarrow> path" where
  "get_path file_type i =
     (case file_type of
        PackFile \<Rightarrow> get_object_path i
      | SnapshotFile \<Rightarrow> [SNAPSHOTS_DIR, hex_name i]
      | IndexFileType \<Rightarrow> [INDEX_DIR, hex_name i]
      | KeyFileType \<Rightarrow> [KEYS_DIR, hex_name i]
      | LockFileType \<Rightarrow> [LOCKS_DIR, hex_name i])"

definition dir_for_type :: "ContentIdType \<Rightarrow> path option" where
  "dir_for_type file_type =
     (case file_type of
        SnapshotFile \<Rightarrow> Some [SNAPSHOTS_DIR]
      | KeyFileType \<Rightarrow> Some [KEYS_DIR]
      | IndexFileType \<Rightarrow> Some [INDEX_DIR]
      | LockFileType \<Rightarrow> Some [LOCKS_DIR]
      | PackFile \<Rightarrow> None)"

text \<open>\<open>Path::file_stem\<close>, \<open>Path::extension\<close> and \<open>Path::with_extension\<close> of the standard library: the last
  dot splits a file name, unless the name starts with it or is \<open>..\<close>.\<close>

definition rsplit_dot :: "string \<Rightarrow> (string \<times> string) option" where
  "rsplit_dot s =
     (if CHR ''.'' \<notin> set s \<or> s = ''..'' then None
      else let stem = rev (tl (dropWhile (\<lambda>c. c \<noteq> CHR ''.'') (rev s)));
               after = rev (takeWhile (\<lambda>c. c \<noteq> CHR ''.'') (rev s))
           in if stem = [] then None else Some (stem, after))"

definition file_stem :: "path \<Rightarrow> string option" where
  "file_stem p = map_option (\<lambda>s. case rsplit_dot s of None \<Rightarrow> s | Some (b, _) \<Rightarrow> b) (file_name p)"

definition extension :: "path \<Rightarrow> string option" where
  "extension p = Option.bind (file_name p) (\<lambda>s. map_option snd (rsplit_dot s))"

definition with_extension :: "path \<Rightarrow> string \<Rightarrow> path" where
  "with_extension p ext =
     (case file_stem p of
        None \<Rightarrow> p
      | Some stem \<Rightarrow> butlast p @ [stem @ (if ext = [] then [] else CHR ''.'' # ext)])"

definition unwrap_or_default :: "string option \<Rightarrow> string" where
  "unwrap_or_default x = (case x of None \<Rightarrow> [] | Some s \<Rightarrow> s)"

section \<open>Files\<close>

datatype SaveID = CalculateID | WithID ID

definition save_file :: "'b StorageBackend \<Rightarrow> crypto \<Rightarrow> SecureStorage \<Rightarrow> bytes \<Rightarrow> SaveID \<Rightarrow> bytes \<Rightarrow>
    StorageHint \<Rightarrow> string option \<Rightarrow> 'b \<Rightarrow> (ID \<times> SizePair) result \<times> 'b" where
  "save_file B cr ss nonce save_id data hint ext st =
     (let file_type = hint_file_type hint;
          raw_size = word_of_nat (length data);
          encoded = (case file_type of
              PackFile \<Rightarrow> Ok (None, raw_size)
            | KeyFileType \<Rightarrow> bind_result (ss_compress cr ss data) (\<lambda>d. Ok (Some d, word_of_nat (length d)))
            | _ \<Rightarrow> bind_result (ss_encode cr ss nonce data) (\<lambda>d. Ok (Some d, word_of_nat (length d))))
      in case encoded of
           Inl e \<Rightarrow> (Err e, st)
         | Inr (encoded_data, encoded_size) \<Rightarrow>
             let bytes_to_write = (case encoded_data of Some d \<Rightarrow> d | None \<Rightarrow> data);
                 i = (case save_id of CalculateID \<Rightarrow> cr_hash cr bytes_to_write | WithID i \<Rightarrow> i);
                 path = with_extension (get_path file_type i) (unwrap_or_default ext)
             in (case be_write B st \<lparr>h_path = path, h_hint = Some hint\<rparr> bytes_to_write of
                   (Inl e, st') \<Rightarrow> (Err e, st')
                 | (Inr _, st') \<Rightarrow> (Ok (i, sp_new raw_size encoded_size), st')))"

definition load_file :: "'b StorageBackend \<Rightarrow> crypto \<Rightarrow> SecureStorage \<Rightarrow> ID \<Rightarrow> StorageHint \<Rightarrow> string option \<Rightarrow>
    'b \<Rightarrow> bytes result \<times> 'b" where
  "load_file B cr ss i hint ext st =
     (let path = with_extension (get_path (hint_file_type hint) i) (unwrap_or_default ext)
      in case be_read B st \<lparr>h_path = path, h_hint = Some hint\<rparr> 0 0 of
           (Inl e, st') \<Rightarrow> (Err e, st')
         | (Inr data, st') \<Rightarrow>
             (case hint_file_type hint of
                PackFile \<Rightarrow> Ok data
              | KeyFileType \<Rightarrow> ss_decompress cr data
              | _ \<Rightarrow> decode_owned cr ss data, st'))"

definition load_deserialized :: "'b StorageBackend \<Rightarrow> crypto \<Rightarrow> SecureStorage \<Rightarrow> (bytes \<Rightarrow> 'a option) \<Rightarrow> ID \<Rightarrow>
    ContentIdType \<Rightarrow> string option \<Rightarrow> 'b \<Rightarrow> 'a result \<times> 'b" where
  "load_deserialized B cr ss from_json i file_type ext st =
     (case load_file B cr ss i \<lparr>hint_file_type = file_type, hint_is_metadata = True\<rparr> ext st of
        (Inl e, st') \<Rightarrow> (Err e, st')
      | (Inr data, st') \<Rightarrow> (ok_or (from_json data) Format, st'))"

definition delete_file :: "'b StorageBackend \<Rightarrow> ContentIdType \<Rightarrow> ID \<Rightarrow> string option \<Rightarrow> 'b \<Rightarrow> nat result \<times> 'b" where
  "delete_file B file_type i ext st =
     (let path = with_extension (get_path file_type i) (unwrap_or_default ext)
      in case be_lstat B st path of
           (Inl e, st1) \<Rightarrow> (Err e, st1)
         | (Inr attr, st1) \<Rightarrow>
             (case be_remove B st1 path of
                (Inl e, st2) \<Rightarrow> (Err e, st2)
              | (Inr _, st2) \<Rightarrow> (Ok (case na_size attr of Some n \<Rightarrow> n | None \<Rightarrow> 0), st2)))"

definition set_extension :: "'b StorageBackend \<Rightarrow> ContentIdType \<Rightarrow> ID \<Rightarrow> string option \<Rightarrow> 'b \<Rightarrow> unit result \<times> 'b" where
  "set_extension B file_type i ext st =
     be_rename B st (get_path file_type i) (with_extension (get_path file_type i) (unwrap_or_default ext))"

definition remove_snapshot :: "'b StorageBackend \<Rightarrow> ID \<Rightarrow> 'b \<Rightarrow> unit result \<times> 'b" where
  "remove_snapshot B i st =
     (let path = [SNAPSHOTS_DIR, hex_name i]
      in case be_path_exists B st path of
           (False, st1) \<Rightarrow> (Err SnapshotNotFound, st1)
         | (True, st1) \<Rightarrow>
             (case be_remove B st1 path of
                (Inl e, st2) \<Rightarrow> (Err MapacheError.Backend, st2)
              | (Inr u, st2) \<Rightarrow> (Ok u, st2)))"

text \<open>A failed load is reported as a missing snapshot, a failed parse as a serialization error.\<close>

definition load_snapshot :: "'b StorageBackend \<Rightarrow> crypto \<Rightarrow> SecureStorage \<Rightarrow> (bytes \<Rightarrow> 'a option) \<Rightarrow> ID \<Rightarrow>
    string option \<Rightarrow> 'b \<Rightarrow> 'a result \<times> 'b" where
  "load_snapshot B cr ss from_json i ext st =
     (case load_file B cr ss i \<lparr>hint_file_type = SnapshotFile, hint_is_metadata = True\<rparr> ext st of
        (Inl e, st') \<Rightarrow> (Err SnapshotNotFound, st')
      | (Inr data, st') \<Rightarrow> (ok_or (from_json data) Serialization, st'))"

definition recall_dropped_snapshot :: "'b StorageBackend \<Rightarrow> ID \<Rightarrow> 'b \<Rightarrow> unit result \<times> 'b" where
  "recall_dropped_snapshot B i st =
     (let path = get_path SnapshotFile i
      in be_rename B st (with_extension path REPO_DROPPED_EXTENSION) path)"

definition repo_load_pack :: "'b StorageBackend \<Rightarrow> crypto \<Rightarrow> SecureStorage \<Rightarrow> ID \<Rightarrow> 'b \<Rightarrow> bytes result \<times> 'b" where
  "repo_load_pack B cr ss i st =
     load_file B cr ss i \<lparr>hint_file_type = PackFile, hint_is_metadata = False\<rparr> None st"

definition load_index :: "'b StorageBackend \<Rightarrow> crypto \<Rightarrow> SecureStorage \<Rightarrow> (bytes \<Rightarrow> IndexFile option) \<Rightarrow> ID \<Rightarrow>
    'b \<Rightarrow> IndexFile result \<times> 'b" where
  "load_index B cr ss from_json i st = load_deserialized B cr ss from_json i IndexFileType None st"

definition load_from_pack :: "'b StorageBackend \<Rightarrow> crypto \<Rightarrow> SecureStorage \<Rightarrow> ID \<Rightarrow> BlobType \<Rightarrow> u32 \<Rightarrow> u32 \<Rightarrow>
    'b \<Rightarrow> bytes result \<times> 'b" where
  "load_from_pack B cr ss i blob_type offset len st =
     (case be_read B st (handle_new_with_hint (get_object_path i) PackFile (blob_type = Tree))
             (int (unat offset)) (unat len) of
        (Inl e, st') \<Rightarrow> (Err e, st')
      | (Inr data, st') \<Rightarrow> (decode_owned cr ss data, st'))"

section \<open>Listing and searching\<close>

text \<open>\<open>format!("{n:0>2x}")\<close>.\<close>

definition fanout_name :: "nat \<Rightarrow> string" where
  "fanout_name n = [char_of (from_digit (n div 16)), char_of (from_digit (n mod 16))]"

text \<open>The 256 directory listings of packs, all run before the first error is looked at.\<close>

fun list_dirs :: "'b StorageBackend \<Rightarrow> path list \<Rightarrow> 'b \<Rightarrow> BackendNode list result list \<times> 'b" where
  "list_dirs B [] st = ([], st)"
| "list_dirs B (d # ds) st =
     (case be_list_dir B st d of (r, st1) \<Rightarrow> case list_dirs B ds st1 of (rs, st2) \<Rightarrow> (r # rs, st2))"

fun flatten_results :: "'a list result list \<Rightarrow> 'a list result" where
  "flatten_results [] = Ok []"
| "flatten_results (Inl e # rs) = Err e"
| "flatten_results (Inr xs # rs) = bind_result (flatten_results rs) (\<lambda>ys. Ok (xs @ ys))"

definition list_all_files :: "'b StorageBackend \<Rightarrow> ContentIdType \<Rightarrow> 'b \<Rightarrow> path list result \<times> 'b" where
  "list_all_files B file_type st =
     (case dir_for_type file_type of
        Some dir \<Rightarrow>
          (case be_list_dir B st dir of
             (Inl e, st') \<Rightarrow> (Err e, st')
           | (Inr nodes, st') \<Rightarrow> (Ok (map node_path nodes), st'))
      | None \<Rightarrow>
          (case list_dirs B (map (\<lambda>n. [OBJECTS_DIR, fanout_name n]) [0..<2 ^ (4 * OBJECTS_DIR_FANOUT)]) st of
             (results, st') \<Rightarrow>
               (bind_result (flatten_results results) (\<lambda>nodes. Ok (map node_path nodes)), st')))"

definition list_files_with_extension :: "'b StorageBackend \<Rightarrow> ContentIdType \<Rightarrow> string option \<Rightarrow> 'b \<Rightarrow>
    path list result \<times> 'b" where
  "list_files_with_extension B file_type ext st =
     (case list_all_files B file_type st of
        (Inl e, st') \<Rightarrow> (Err e, st')
      | (Inr ps, st') \<Rightarrow>
          (Ok (filter (\<lambda>p. case ext of Some e \<Rightarrow> extension p = Some e | None \<Rightarrow> extension p = None) ps), st'))"

definition list_files :: "'b StorageBackend \<Rightarrow> ContentIdType \<Rightarrow> 'b \<Rightarrow> path list result \<times> 'b" where
  "list_files B file_type st = list_files_with_extension B file_type None st"

definition path_id :: "path \<Rightarrow> ID option" where
  "path_id p = Option.bind (file_name p) (\<lambda>s. case name_id s of Inr i \<Rightarrow> Some i | Inl _ \<Rightarrow> None)"

definition list_snapshot_ids :: "'b StorageBackend \<Rightarrow> 'b \<Rightarrow> ID list result \<times> 'b" where
  "list_snapshot_ids B st =
     (case list_files B SnapshotFile st of
        (Inl e, st') \<Rightarrow> (Err MapacheError.Backend, st')
      | (Inr ps, st') \<Rightarrow> (Ok (List.map_filter path_id ps), st'))"

definition list_index_ids :: "'b StorageBackend \<Rightarrow> 'b \<Rightarrow> ID list result \<times> 'b" where
  "list_index_ids B st =
     (case list_files B IndexFileType st of
        (Inl e, st') \<Rightarrow> (Err e, st')
      | (Inr ps, st') \<Rightarrow> (Ok (List.map_filter path_id ps), st'))"

definition list_dropped_snapshot_ids :: "'b StorageBackend \<Rightarrow> 'b \<Rightarrow> ID list result \<times> 'b" where
  "list_dropped_snapshot_ids B st =
     (case list_files_with_extension B SnapshotFile (Some REPO_DROPPED_EXTENSION) st of
        (Inl e, st') \<Rightarrow> (Err MapacheError.Backend, st')
      | (Inr ps, st') \<Rightarrow>
          (Ok (List.map_filter (\<lambda>p. Option.bind (file_stem p) (\<lambda>s. case name_id s of Inr i \<Rightarrow> Some i | Inl _ \<Rightarrow> None)) ps), st'))"

text \<open>The loop of \<open>find_with_extension\<close>; \<open>found\<close> is the vector \<open>matches\<close>, which holds at most one entry.\<close>

fun find_loop :: "string \<Rightarrow> path list \<Rightarrow> (string \<times> path) option \<Rightarrow> (string \<times> path) option result" where
  "find_loop pfx [] found = Ok found"
| "find_loop pfx (p # ps) found =
     (case file_stem p of
        None \<Rightarrow> Err Repo
      | Some stem \<Rightarrow>
          if take (length pfx) stem = pfx
          then (case found of None \<Rightarrow> find_loop pfx ps (Some (stem, p)) | Some _ \<Rightarrow> Err Format)
          else find_loop pfx ps found)"

definition find_with_extension :: "'b StorageBackend \<Rightarrow> ContentIdType \<Rightarrow> string \<Rightarrow> string option \<Rightarrow> 'b \<Rightarrow>
    (ID \<times> path) result \<times> 'b" where
  "find_with_extension B file_type pfx ext st =
     (if length pfx > 2 * ID_LENGTH then (Err Format, st)
      else if pfx = [] then (Err Format, st)
      else case list_files_with_extension B file_type ext st of
          (Inl e, st') \<Rightarrow> (Err e, st')
        | (Inr ps, st') \<Rightarrow>
            (case find_loop pfx ps None of
               Inl e \<Rightarrow> Err e
             | Inr None \<Rightarrow> Err NotFound
             | Inr (Some (stem, p)) \<Rightarrow> bind_result (name_id stem) (\<lambda>i. Ok (i, p)), st'))"

definition repo_find :: "'b StorageBackend \<Rightarrow> ContentIdType \<Rightarrow> string \<Rightarrow> 'b \<Rightarrow> (ID \<times> path) result \<times> 'b" where
  "repo_find B file_type pfx st = find_with_extension B file_type pfx None st"

section \<open>The repository\<close>

text \<open>The channel to the pack saver: what was sent, and whether the receiver is gone.\<close>

record channel =
  ch_sent :: "SaveBlob list"
  ch_closed :: bool

record 'b Repository =
  rp_backend :: 'b
  rp_storage :: SecureStorage
  rp_index :: MasterIndex
  rp_max_packer_size :: u64
  rp_tx :: "channel option"
  rp_stats :: RepoStats

definition encode_and_save_blob :: "crypto \<Rightarrow> bytes \<Rightarrow> BlobType \<Rightarrow> bytes \<Rightarrow> SaveID \<Rightarrow> 'b Repository \<Rightarrow>
    ID result \<times> 'b Repository" where
  "encode_and_save_blob cr nonce blob_type data save_id rp =
     (let i = (case save_id of CalculateID \<Rightarrow> cr_hash cr data | WithID i \<Rightarrow> i)
      in if mi_contains (rp_index rp) i then (Ok i, rp)
         else case ss_encode cr (rp_storage rp) nonce data of
             Inl e \<Rightarrow> (Err e, rp)
           | Inr encoded_data \<Rightarrow>
               (case rp_tx rp of
                  None \<Rightarrow> (Err Repo, rp)
                | Some tx \<Rightarrow>
                    if ch_closed tx then (Err Repo, rp)
                    else
                      let rq = \<lparr>rq_id = i, rq_type = blob_type, rq_data = encoded_data,
                                rq_raw_length = word_of_nat (length data)\<rparr>
                      in (Ok i, rp\<lparr>rp_tx := Some (tx\<lparr>ch_sent := ch_sent tx @ [rq]\<rparr>),
                                   rp_index := fst (mi_add_pending_blob (rp_index rp) i)\<rparr>)))"

definition repo_load_blob :: "'b StorageBackend \<Rightarrow> crypto \<Rightarrow> ID \<Rightarrow> 'b Repository \<Rightarrow> bytes result \<times> 'b Repository" where
  "repo_load_blob B cr i rp =
     (case mi_get (rp_index rp) i of
        None \<Rightarrow> (Err (NotInIndex i), rp)
      | Some l \<Rightarrow>
          (case load_from_pack B cr (rp_storage rp) (lo_pack_id l) (lo_type l) (lo_offset l) (lo_length l) (rp_backend rp) of
             (r, st') \<Rightarrow> (r, rp\<lparr>rp_backend := st'\<rparr>)))"

text \<open>One index file of \<open>reload_master_index\<close>: \<open>None\<close> for a name that is not an id.\<close>

definition read_index_file :: "'b StorageBackend \<Rightarrow> crypto \<Rightarrow> SecureStorage \<Rightarrow> (bytes \<Rightarrow> IndexFile option) \<Rightarrow>
    path \<Rightarrow> 'b \<Rightarrow> (IndexFile \<times> ID) option result \<times> 'b" where
  "read_index_file B cr ss from_json p st =
     (case path_id p of
        None \<Rightarrow> (Ok None, st)
      | Some i \<Rightarrow>
          (case be_read B st (handle_new_with_hint p IndexFileType True) 0 0 of
             (Inl e, st') \<Rightarrow> (Err e, st')
           | (Inr d, st') \<Rightarrow>
               (bind_result (ss_decode cr ss d) (\<lambda>raw.
                  bind_result (ok_or (from_json raw) Format) (\<lambda>f. Ok (Some (f, i)))), st')))"

fun read_index_files :: "'b StorageBackend \<Rightarrow> crypto \<Rightarrow> SecureStorage \<Rightarrow> (bytes \<Rightarrow> IndexFile option) \<Rightarrow>
    path list \<Rightarrow> 'b \<Rightarrow> (IndexFile \<times> ID) option result list \<times> 'b" where
  "read_index_files B cr ss from_json [] st = ([], st)"
| "read_index_files B cr ss from_json (p # ps) st =
     (case read_index_file B cr ss from_json p st of
        (r, st1) \<Rightarrow> case read_index_files B cr ss from_json ps st1 of (rs, st2) \<Rightarrow> (r # rs, st2))"

text \<open>The loop that adds the loaded indices, up to the first error.\<close>

fun add_loaded :: "bloom_sizing \<Rightarrow> nat \<Rightarrow> (IndexFile \<times> ID) option result list \<Rightarrow> MasterIndex \<Rightarrow>
    unit result \<times> MasterIndex" where
  "add_loaded sz now [] mi = (Ok (), mi)"
| "add_loaded sz now (Inl e # rs) mi = (Err e, mi)"
| "add_loaded sz now (Inr None # rs) mi = add_loaded sz now rs mi"
| "add_loaded sz now (Inr (Some (f, i)) # rs) mi =
     add_loaded sz now rs
       ((mi_add_index mi (from_index_file sz (mi_next mi) now f i))\<lparr>mi_next := mi_next mi + 1\<rparr>)"

definition reload_master_index :: "'b StorageBackend \<Rightarrow> crypto \<Rightarrow> (bytes \<Rightarrow> IndexFile option) \<Rightarrow> bloom_sizing \<Rightarrow>
    nat \<Rightarrow> 'b Repository \<Rightarrow> unit result \<times> 'b Repository" where
  "reload_master_index B cr from_json sz now rp =
     (case list_files B IndexFileType (rp_backend rp) of
        (Inl e, st) \<Rightarrow> (Err e, rp\<lparr>rp_backend := st\<rparr>)
      | (Inr files, st) \<Rightarrow>
          (case read_index_files B cr (rp_storage rp) from_json (sort files) st of
             (results, st') \<Rightarrow>
               (case add_loaded sz now results (mi_clear (rp_index rp)) of
                  (Inl e, mi) \<Rightarrow> (Err e, rp\<lparr>rp_backend := st', rp_index := mi\<rparr>)
                | (Inr _, mi) \<Rightarrow>
                    let total_blobs = mi_num_blobs mi;
                        mi = (if total_blobs > 0 then mi_initialize_bloom_filter sz mi total_blobs else mi)
                    in (Ok (), rp\<lparr>rp_backend := st', rp_index := mi\<rparr>))))"

text \<open>\<open>index_saver\<close> is the call of \<open>save_file\<close> in \<open>Index::persist\<close>.\<close>

definition index_saver :: "'b StorageBackend \<Rightarrow> crypto \<Rightarrow> SecureStorage \<Rightarrow> bytes \<Rightarrow> bytes \<Rightarrow> 'b \<Rightarrow>
    (ID \<times> SizePair) result \<times> 'b" where
  "index_saver B cr ss nonce serialized st =
     save_file B cr ss nonce CalculateID serialized \<lparr>hint_file_type = IndexFileType, hint_is_metadata = True\<rparr> None st"

section \<open>File names\<close>

lemma from_digit_char: "d < 16 \<Longrightarrow> of_char (char_of (from_digit d)) = from_digit d"
  by (simp add: from_digit_def)

lemma from_digit_no_dot: "d < 16 \<Longrightarrow> char_of (from_digit d) \<noteq> CHR ''.''"
proof
  assume d: "d < 16" and "char_of (from_digit d) = CHR ''.''"
  then have "from_digit d = of_char (CHR ''.'')" using from_digit_char [OF d] by metis
  with d show False by (auto simp: from_digit_def split: if_splits)
qed

lemma hex_digits: "c \<in> set (to_hex i) \<Longrightarrow> \<exists>d<16. c = from_digit d"
  using unat_nibbles by (auto simp: to_hex_def bytes_to_hex_def)

lemma hex_name_codepoints: "map of_char (hex_name i) = to_hex i"
proof -
  have "of_char (char_of c) = c" if "c \<in> set (to_hex i)" for c
    using hex_digits [OF that] from_digit_char by blast
  then show ?thesis by (simp only: hex_name_def map_map comp_def) (rule map_idI, blast)
qed

lemma name_id_hex [simp]: "id_ok i \<Longrightarrow> name_id (hex_name i) = Ok i"
  by (simp add: name_id_def hex_name_codepoints from_hex_to_hex)

lemma hex_name_inject: "id_ok i \<Longrightarrow> id_ok j \<Longrightarrow> hex_name i = hex_name j \<Longrightarrow> i = j"
  by (metis name_id_hex sum.inject(2))

lemma hex_name_no_dot: "CHR ''.'' \<notin> set (hex_name i)"
proof
  assume "CHR ''.'' \<in> set (hex_name i)"
  then obtain c where "c \<in> set (to_hex i)" "CHR ''.'' = char_of c" by (auto simp: hex_name_def)
  with hex_digits from_digit_no_dot show False by metis
qed

lemma rsplit_hex [simp]: "rsplit_dot (hex_name i) = None"
  by (simp add: rsplit_dot_def hex_name_no_dot)

lemma last_get_path [simp]: "last (get_path t i) = hex_name i" "get_path t i \<noteq> []"
  by (simp_all add: get_path_def get_object_path_def split: ContentIdType.splits)

lemma path_parts [simp]:
  "file_name (get_path t i) = Some (hex_name i)" "file_stem (get_path t i) = Some (hex_name i)"
  "extension (get_path t i) = None"
  by (simp_all add: file_name_def file_stem_def extension_def)

lemma with_extension_path:
  "with_extension (get_path t i) ext = butlast (get_path t i) @ [hex_name i @ (if ext = [] then [] else CHR ''.'' # ext)]"
  by (simp add: with_extension_def)

lemma with_extension_none [simp]: "with_extension (get_path t i) [] = get_path t i"
  using append_butlast_last_id [of "get_path t i"] by (simp add: with_extension_path)

text \<open>The name without its extension can be read off: the part before the first dot.\<close>

lemma hex_name_takeWhile:
  "takeWhile (\<lambda>c. c \<noteq> CHR ''.'') (hex_name i @ (if ext = [] then [] else CHR ''.'' # ext)) = hex_name i"
  using hex_name_no_dot [of i] by (auto simp: takeWhile_append intro!: takeWhile_eq_all_conv [THEN iffD2])

lemma dir_inject: "butlast (get_path t i) = butlast (get_path t' j) \<Longrightarrow> t = t'"
  by (cases t; cases t')
    (simp_all add: get_path_def get_object_path_def OBJECTS_DIR_def SNAPSHOTS_DIR_def INDEX_DIR_def KEYS_DIR_def LOCKS_DIR_def)

lemma path_inject:
  assumes "id_ok i" "id_ok j" "with_extension (get_path t i) ext = with_extension (get_path t' j) ext'"
  shows "t = t' \<and> i = j"
proof -
  from assms(3) have d: "butlast (get_path t i) = butlast (get_path t' j)"
    and n: "hex_name i @ (if ext = [] then [] else CHR ''.'' # ext) = hex_name j @ (if ext' = [] then [] else CHR ''.'' # ext')"
    by (simp_all only: with_extension_path append1_eq_conv)
  from n have "hex_name i = hex_name j" by (metis hex_name_takeWhile)
  with hex_name_inject [OF assms(1,2)] dir_inject [OF d] show ?thesis by simp
qed

section \<open>Saving and loading\<close>

lemma compress_decompress: "crypto_ok cr \<Longrightarrow> ss_compress cr ss d = Ok e \<Longrightarrow> ss_decompress cr e = Ok d"
  by (auto simp: crypto_ok_def ss_compress_def ss_decompress_def)

text \<open>The encoding step of \<open>save_file\<close>, and how the bytes decode.\<close>

definition file_encoding :: "crypto \<Rightarrow> SecureStorage \<Rightarrow> bytes \<Rightarrow> bytes \<Rightarrow> ContentIdType \<Rightarrow> (bytes option \<times> u64) result" where
  "file_encoding cr ss nonce data t =
     (case t of
        PackFile \<Rightarrow> Ok (None, word_of_nat (length data))
      | KeyFileType \<Rightarrow> bind_result (ss_compress cr ss data) (\<lambda>d. Ok (Some d, word_of_nat (length d)))
      | _ \<Rightarrow> bind_result (ss_encode cr ss nonce data) (\<lambda>d. Ok (Some d, word_of_nat (length d))))"

definition file_decoding :: "crypto \<Rightarrow> SecureStorage \<Rightarrow> bytes \<Rightarrow> ContentIdType \<Rightarrow> bytes result" where
  "file_decoding cr ss bs t =
     (case t of PackFile \<Rightarrow> Ok bs | KeyFileType \<Rightarrow> ss_decompress cr bs | _ \<Rightarrow> decode_owned cr ss bs)"

lemma file_coding:
  assumes "crypto_ok cr" "length nonce = 12" "file_encoding cr ss nonce data t = Ok (enc, n)"
  shows "file_decoding cr ss (case enc of Some d \<Rightarrow> d | None \<Rightarrow> data) t = Ok data"
proof (cases t)
  case PackFile
  with assms(3) show ?thesis by (auto simp: file_encoding_def file_decoding_def)
next
  case KeyFileType
  with assms show ?thesis by (auto simp: file_encoding_def file_decoding_def bind_result_Inr compress_decompress)
qed (use assms in \<open>auto simp: file_encoding_def file_decoding_def bind_result_Inr dest: encode_decode_ok\<close>)

lemma save_file_Ok:
  assumes "save_file B cr ss nonce sid data hint ext st = (Ok (i, sizes), st')"
  obtains enc n u bs where
    "file_encoding cr ss nonce data (hint_file_type hint) = Ok (enc, n)" "bs = (case enc of Some d \<Rightarrow> d | None \<Rightarrow> data)"
    "be_write B st \<lparr>h_path = with_extension (get_path (hint_file_type hint) i) (unwrap_or_default ext), h_hint = Some hint\<rparr> bs = (Ok u, st')"
    "i = (case sid of CalculateID \<Rightarrow> cr_hash cr bs | WithID j \<Rightarrow> j)"
proof -
  from assms obtain enc n where e: "file_encoding cr ss nonce data (hint_file_type hint) = Ok (enc, n)"
    unfolding save_file_def Let_def file_encoding_def [symmetric]
    by (cases "file_encoding cr ss nonce data (hint_file_type hint)") auto
  show thesis
    using assms e unfolding save_file_def Let_def file_encoding_def [symmetric]
    by (auto split: prod.splits sum.splits intro!: that)
qed

context storage_backend
begin

lemma save_load:
  assumes "inv st" "crypto_ok cr" "length nonce = 12"
    "save_file B cr ss nonce sid data hint ext st = (Ok (i, sizes), st')"
  shows "\<exists>st''. load_file B cr ss i hint ext st' = (Ok data, st'') \<and> inv st'' \<and> files st'' = files st'"
proof -
  from assms(4) obtain enc n u bs where
    enc: "file_encoding cr ss nonce data (hint_file_type hint) = Ok (enc, n)" "bs = (case enc of Some d \<Rightarrow> d | None \<Rightarrow> data)" and
    w: "be_write B st \<lparr>h_path = with_extension (get_path (hint_file_type hint) i) (unwrap_or_default ext), h_hint = Some hint\<rparr> bs = (Ok u, st')"
    by (rule save_file_Ok)
  let ?h = "\<lparr>h_path = with_extension (get_path (hint_file_type hint) i) (unwrap_or_default ext), h_hint = Some hint\<rparr>"
  obtain r st'' where rd: "be_read B st' ?h 0 0 = (r, st'')" by fastforce
  from write_file [OF assms(1) w] have st': "inv st'" "files st' (h_path ?h) = Some bs" by auto
  from read_file [OF st'(1) rd] st'(2) have "r = Ok bs" "inv st''" "files st'' = files st'" by auto
  with file_coding [OF assms(2,3) enc(1)] enc(2) rd show ?thesis
    by (simp add: load_file_def Let_def file_decoding_def)
qed

lemma load_frame:
  assumes "inv st" "inv st'" "files st' = (files st)(p \<mapsto> bs)"
    "p \<noteq> with_extension (get_path (hint_file_type hint) j) (unwrap_or_default ext)"
    "load_file B cr ss j hint ext st = (Ok data, s)"
  shows "\<exists>s'. load_file B cr ss j hint ext st' = (Ok data, s')"
proof -
  let ?h = "\<lparr>h_path = with_extension (get_path (hint_file_type hint) j) (unwrap_or_default ext), h_hint = Some hint\<rparr>"
  obtain r s1 where r1: "be_read B st ?h 0 0 = (r, s1)" by fastforce
  obtain r' s2 where r2: "be_read B st' ?h 0 0 = (r', s2)" by fastforce
  from assms(5) r1 obtain bs' where "r = Ok bs'" by (cases r) (auto simp: load_file_def Let_def)
  with read_file [OF assms(1) r1] read_file [OF assms(2) r2] assms(3,4) have "r' = r"
    by (auto split: option.splits if_splits)
  with assms(5) r1 r2 \<open>r = Ok bs'\<close> show ?thesis by (auto simp: load_file_def Let_def)
qed

lemma save_isolated:
  assumes "inv st" "save_file B cr ss nonce sid data hint ext st = (Ok (i, sizes), st')"
    "id_ok i" "id_ok j" "(hint_file_type hint', j) \<noteq> (hint_file_type hint, i)"
    "load_file B cr ss j hint' ext' st = (Ok d, s)"
  shows "\<exists>s'. load_file B cr ss j hint' ext' st' = (Ok d, s')"
proof -
  from assms(2) obtain enc n u bs where
    w: "be_write B st \<lparr>h_path = with_extension (get_path (hint_file_type hint) i) (unwrap_or_default ext), h_hint = Some hint\<rparr> bs = (Ok u, st')"
    by (rule save_file_Ok)
  have "with_extension (get_path (hint_file_type hint) i) (unwrap_or_default ext) \<noteq>
      with_extension (get_path (hint_file_type hint') j) (unwrap_or_default ext')"
    using path_inject [OF assms(3,4), of "hint_file_type hint" _ "hint_file_type hint'"] assms(5) by auto
  with write_file [OF assms(1) w] show ?thesis by (intro load_frame [OF assms(1) _ _ _ assms(6)]) auto
qed

end

text \<open>C27: a file of any type that was saved can be loaded again and gives the saved bytes: packs are stored
  as they are, key files compressed, everything else compressed and encrypted.\<close>

theorem save_load_file:
  assumes "mb_inv st" "crypto_ok cr" "length nonce = 12"
    "save_file mock_backend cr ss nonce sid data hint ext st = (Ok (i, sizes), st')"
  shows "\<exists>st''. load_file mock_backend cr ss i hint ext st' = (Ok data, st'') \<and> mb_files st'' = mb_files st'"
  using mock.save_load [OF assms] by blast

text \<open>Saving a file never changes another one: every file with another id or of another type that could
  be loaded before loads with the same contents afterwards, whatever extensions are involved.\<close>

theorem save_file_isolated:
  assumes "mb_inv st" "save_file mock_backend cr ss nonce sid data hint ext st = (Ok (i, sizes), st')"
    "id_ok i" "id_ok j" "(hint_file_type hint', j) \<noteq> (hint_file_type hint, i)"
    "load_file mock_backend cr ss j hint' ext' st = (Ok d, s)"
  shows "\<exists>s'. load_file mock_backend cr ss j hint' ext' st' = (Ok d, s')"
  using mock.save_isolated [OF assms] .

lemma mock_write_Ok:
  assumes "mb_hooks st = []" "hm_get (mb_nodes st) (h_path h) = None"
  shows "\<exists>st'. mb_write st h d = (Ok (), st')"
  using assms by (simp add: mb_write_def mb_exec_no_hooks as_unit_def Let_def)

lemma mock_save_Ok:
  assumes "mb_inv st" "file_encoding cr ss nonce data (hint_file_type hint) = Ok (enc, n)"
    "hm_get (mb_nodes st) (with_extension (get_path (hint_file_type hint) i) (unwrap_or_default ext)) = None"
  shows "\<exists>st'. save_file mock_backend cr ss nonce (WithID i) data hint ext st = (Ok (i, sp_new (word_of_nat (length data)) n), st') \<and> mb_inv st'"
proof -
  obtain st' where w: "mb_write st \<lparr>h_path = with_extension (get_path (hint_file_type hint) i) (unwrap_or_default ext), h_hint = Some hint\<rparr>
      (case enc of Some d \<Rightarrow> d | None \<Rightarrow> data) = (Ok (), st')"
    using mock_write_Ok [of st "\<lparr>h_path = with_extension (get_path (hint_file_type hint) i) (unwrap_or_default ext), h_hint = Some hint\<rparr>"]
      assms(1,3) by (auto simp: mb_inv_def)
  moreover from mock.write_file [OF assms(1)] w have "mb_inv st'" by (auto simp: mock_backend_def)
  ultimately show ?thesis
    using assms(2) unfolding save_file_def Let_def file_encoding_def [symmetric] by (simp add: mock_backend_def)
qed

definition demo_hint :: "ContentIdType \<Rightarrow> StorageHint" where
  "demo_hint t = \<lparr>hint_file_type = t, hint_is_metadata = True\<rparr>"

lemma demo_encoding: "\<exists>enc n. file_encoding demo_crypto demo_ss (replicate 12 1) [10, 20] (hint_file_type (demo_hint SnapshotFile)) = Ok (enc, n)"
  by (simp add: file_encoding_def demo_hint_def ss_encode_def transform_into_def ss_compress_def demo_crypto_def)

lemma demo_store: "mb_inv (mock_new 0)" "mb_nodes (mock_new 0) = []"
  by (simp_all add: mb_inv_def mock_new_def)

theorem save_load_file_witness:
  "\<exists>st' st''. load_file mock_backend demo_crypto demo_ss (ID (replicate 32 4)) (demo_hint SnapshotFile) None st' = (Ok [10, 20], st'')"
proof -
  from demo_encoding obtain enc n where e: "file_encoding demo_crypto demo_ss (replicate 12 1) [10, 20] (hint_file_type (demo_hint SnapshotFile)) = Ok (enc, n)" by blast
  from mock_save_Ok [OF demo_store(1) e, of "ID (replicate 32 4)" None] obtain st' sizes where
    "save_file mock_backend demo_crypto demo_ss (replicate 12 1) (WithID (ID (replicate 32 4))) [10, 20] (demo_hint SnapshotFile) None (mock_new 0) =
      (Ok (ID (replicate 32 4), sizes), st')" by (auto simp: demo_store(2))
  from save_load_file [OF demo_store(1) demo_crypto_ok _ this] show ?thesis by auto
qed

theorem save_file_isolated_witness:
  "\<exists>st s'. load_file mock_backend demo_crypto demo_ss (ID (replicate 32 4)) (demo_hint PackFile) None st = (Ok [10, 20], s')"
proof -
  let ?p = "get_path PackFile (ID (replicate 32 4))"
  let ?st = "(mock_new 0)\<lparr>mb_nodes := [(?p, mock_file 0 [10, 20])]\<rparr>"
  have inv: "mb_inv ?st" by (simp add: mb_inv_def mock_new_def)
  have "mb_files ?st ?p = Some [10, 20]" by (simp add: mb_files_def mock_file_def)
  moreover obtain r s where rd: "be_read mock_backend ?st \<lparr>h_path = ?p, h_hint = Some (demo_hint PackFile)\<rparr> 0 0 = (r, s)" by fastforce
  ultimately have "r = Ok [10, 20]" using mock.read_file [OF inv rd] by simp
  with rd have l: "load_file mock_backend demo_crypto demo_ss (ID (replicate 32 4)) (demo_hint PackFile) None ?st = (Ok [10, 20], s)"
    by (simp add: load_file_def demo_hint_def unwrap_or_default_def)
  from demo_encoding obtain enc n where
    e: "file_encoding demo_crypto demo_ss (replicate 12 1) [10, 20] (hint_file_type (demo_hint SnapshotFile)) = Ok (enc, n)" by blast
  have "hm_get (mb_nodes ?st) (with_extension (get_path (hint_file_type (demo_hint SnapshotFile)) (ID (replicate 32 4))) (unwrap_or_default None)) = None"
    by (simp add: demo_hint_def unwrap_or_default_def) (simp add: get_path_def get_object_path_def)
  from mock_save_Ok [OF inv e this] obtain st2 sizes2 where
    s2: "save_file mock_backend demo_crypto demo_ss (replicate 12 1) (WithID (ID (replicate 32 4))) [10, 20] (demo_hint SnapshotFile) None ?st =
      (Ok (ID (replicate 32 4), sizes2), st2)" by blast
  from save_file_isolated [OF inv s2 _ _ _ l] show ?thesis by (auto simp: id_ok_def ID_LENGTH_def demo_hint_def)
qed

section \<open>Blobs\<close>

text \<open>C28: saving a blob never stores a second copy of a known one, and a blob that is reported as saved is known
  afterwards and its bytes are on their way to the pack saver in a form that decodes to the given data.
  A failed call changes nothing.\<close>

theorem save_blob_known:
  assumes "mi_ok (rp_index rp)" "crypto_ok cr" "length nonce = 12"
    "encode_and_save_blob cr nonce t data sid rp = (res, rp')"
  shows "case res of
      Inl e \<Rightarrow> rp' = rp
    | Inr i \<Rightarrow> mi_ok (rp_index rp') \<and> mi_contains (rp_index rp') i \<and>
        (if mi_contains (rp_index rp) i then rp' = rp
         else \<exists>tx rq. rp_tx rp = Some tx \<and> rp_tx rp' = Some (tx\<lparr>ch_sent := ch_sent tx @ [rq]\<rparr>) \<and>
                rq_id rq = i \<and> rq_type rq = t \<and> decode_owned cr (rp_storage rp) (rq_data rq) = Ok data)"
proof -
  let ?i = "case sid of CalculateID \<Rightarrow> cr_hash cr data | WithID i \<Rightarrow> i"
  obtain mi' b where p: "mi_add_pending_blob (rp_index rp) ?i = (mi', b)" by fastforce
  note pp = mi_add_pending_props [OF assms(1) p]
  have known: "mi_contains mi' ?i"
    unfolding mi_contains_iff [OF pp(1)] using pp(2-4) by (auto simp: mi_indexed_def)
  show ?thesis
  proof (cases "mi_contains (rp_index rp) ?i")
    case True
    with assms(1,4) show ?thesis by (auto simp: encode_and_save_blob_def Let_def)
  next
    case False
    show ?thesis
    proof (cases "ss_encode cr (rp_storage rp) nonce data")
      case (Inl e)
      with False assms(4) show ?thesis by (auto simp: encode_and_save_blob_def Let_def)
    next
      case (Inr enc)
      from encode_decode_ok [OF assms(2,3) Inr] have "decode_owned cr (rp_storage rp) enc = Ok data" by simp
      note dec = this
      show ?thesis
      proof (cases "\<exists>tx. rp_tx rp = Some tx \<and> \<not> ch_closed tx")
        case True
        then obtain tx where tx: "rp_tx rp = Some tx" "\<not> ch_closed tx" by blast
        let ?rq = "\<lparr>rq_id = ?i, rq_type = t, rq_data = enc, rq_raw_length = word_of_nat (length data)\<rparr>"
        have "res = Ok ?i" "rp' = rp\<lparr>rp_tx := Some (tx\<lparr>ch_sent := ch_sent tx @ [?rq]\<rparr>), rp_index := mi'\<rparr>"
          using Inr False assms(4) p tx by (simp_all add: encode_and_save_blob_def Let_def)
        with False known pp(1) tx dec show ?thesis by (auto intro!: exI [of _ ?rq])
      next
        case closed: False
        with Inr False assms(4) show ?thesis
          by (auto simp: encode_and_save_blob_def Let_def split: option.splits)
      qed
    qed
  qed
qed

definition demo_repo :: "MockBackend Repository" where
  "demo_repo = \<lparr>rp_backend = mock_new 0, rp_storage = demo_ss, rp_index = mi_new 1, rp_max_packer_size = 1000,
     rp_tx = Some \<lparr>ch_sent = [], ch_closed = False\<rparr>,
     rp_stats = \<lparr>rs_raw_bytes = 0, rs_encoded_bytes = 0, rs_data_blobs = 0, rs_meta_raw_bytes = 0,
       rs_meta_encoded_bytes = 0, rs_meta_blobs = 0, rs_index_raw_bytes = 0, rs_index_meta_bytes = 0\<rparr>\<rparr>"

theorem save_blob_known_witness:
  "case encode_and_save_blob demo_crypto (replicate 12 1) Data [1, 2, 3] (WithID (ID (replicate 32 2))) demo_repo of
     (res, rp') \<Rightarrow> (case res of Inl e \<Rightarrow> rp' = demo_repo | Inr i \<Rightarrow> mi_contains (rp_index rp') i)"
proof -
  obtain res rp' where r: "encode_and_save_blob demo_crypto (replicate 12 1) Data [1, 2, 3] (WithID (ID (replicate 32 2))) demo_repo = (res, rp')"
    by fastforce
  have "mi_ok (rp_index demo_repo)" by (simp add: demo_repo_def)
  from save_blob_known [OF this demo_crypto_ok _ r] r show ?thesis by (auto split: sum.splits)
qed

context storage_backend
begin

lemma load_from_pack_blob:
  assumes "inv st" "files st (get_object_path pid) = Some pack" "blob_at pack d = enc" "length enc = unat (pd_length d)" "enc \<noteq> []"
    "decode_owned cr ss enc = Ok data"
  shows "\<exists>st'. load_from_pack B cr ss pid t (pd_offset d) (pd_length d) st = (Ok data, st') \<and> files st' = files st \<and> inv st'"
proof -
  let ?h = "handle_new_with_hint (get_object_path pid) PackFile (t = Tree)"
  obtain r st' where rd: "be_read B st ?h (int (unat (pd_offset d))) (unat (pd_length d)) = (r, st')" by fastforce
  have "read_window pack (int (unat (pd_offset d))) (unat (pd_length d)) = enc"
    using assms(3-5) by (auto simp: read_window_def resolve_read_offset_def Let_def blob_at_def slice_def)
  with read_file [OF assms(1) rd] assms(2) have "r = Ok enc" "inv st'" "files st' = files st"
    by (auto simp: handle_new_with_hint_def)
  with rd assms(6) show ?thesis by (auto simp: load_from_pack_def)
qed

end

text \<open>A locator of a pack's descriptor, in a state where the pack is stored.\<close>

lemma unique_descriptor:
  assumes "distinct (map pd_id ds)" "d \<in> set ds" "d' \<in> set ds" "pd_id d = pd_id d'"
  shows "d = d'"
  using assms by (auto simp: distinct_map dest: inj_onD)

lemma finalized_locs:
  assumes "finalize_and_extract cr rng nonce p = (Ok (Some r), p')"
  shows "packed_locs q (pf_descriptors r) \<subseteq> (\<lambda>d. (pd_id d, desc_locator q d)) ` set (pk_descriptors p)"
    "\<forall>d\<in>set (pk_descriptors p). pd_type d \<noteq> Padding \<longrightarrow> pd_id d \<in> packed_ids (pf_descriptors r)"
proof -
  from assms obtain pad enc where pad: "pf_descriptors r = pk_descriptors p @ pad" "\<forall>d\<in>set pad. pd_type d = Padding \<and> (\<exists>i. pd_id d = fst (rng i))"
    by (rule finalize_cases)
  show "packed_locs q (pf_descriptors r) \<subseteq> (\<lambda>d. (pd_id d, desc_locator q d)) ` set (pk_descriptors p)"
    using pad(2) unfolding packed_locs_def pad(1) by auto
  show "\<forall>d\<in>set (pk_descriptors p). pd_type d \<noteq> Padding \<longrightarrow> pd_id d \<in> packed_ids (pf_descriptors r)"
    unfolding packed_ids_def pad(1) by auto
qed

lemma tiles_not_padding: "tiles off ds \<Longrightarrow> d \<in> set ds \<Longrightarrow> pd_type d \<noteq> Padding"
  by (induction ds arbitrary: off) auto

context storage_backend
begin

lemma stored_blob:
  assumes "inv st" "crypto_ok cr" "length nonce = 12" "\<forall>i. id_ok (fst (rng i))" "packer_ok p"
    and fin: "finalize_and_extract cr rng nonce p = (Ok (Some r), p')" "pf_meta_size r < 2 ^ 32"
    and save: "save_file B cr ss n2 (WithID (pf_id r)) (pf_data r) hint None st = (Ok w, rp_backend rp)" "hint_file_type hint = PackFile"
    and mi: "mi_ok mi" "mi_room mi" "mi_add_pack lim sz to_json sv now (pf_id r) (pf_descriptors r) mi x = (res, rp_index rp, x')"
    and blob: "(bid, t, enc) \<in> set (packer_blobs p)" "distinct (map pd_id (pk_descriptors p))" "enc \<noteq> []" "bid \<notin> mi_indexed mi"
    and dec: "decode_owned cr (rp_storage rp) enc = Ok data"
  shows "\<exists>st'. repo_load_blob B cr bid rp = (Ok data, rp\<lparr>rp_backend := st'\<rparr>)"
proof -
  obtain wi wz where w: "w = (wi, wz)" by fastforce
  obtain encd n u bs where
    s: "file_encoding cr ss n2 (pf_data r) (hint_file_type hint) = Ok (encd, n)" "bs = (case encd of Some d \<Rightarrow> d | None \<Rightarrow> pf_data r)"
      "be_write B st \<lparr>h_path = with_extension (get_path (hint_file_type hint) wi) (unwrap_or_default None), h_hint = Some hint\<rparr> bs = (Ok u, rp_backend rp)"
      "wi = (case WithID (pf_id r) of CalculateID \<Rightarrow> cr_hash cr bs | WithID j \<Rightarrow> j)"
    using save(1) unfolding w by (rule save_file_Ok)
  have "bs = pf_data r" "wi = pf_id r" using s(1,2,4) save(2) by (auto simp: file_encoding_def)
  with write_file [OF assms(1) s(3)] save(2)
  have store: "inv (rp_backend rp)" "files (rp_backend rp) (get_object_path (pf_id r)) = Some (pf_data r)"
    by (auto simp: unwrap_or_default_def) (simp add: get_path_def)
  note rec = mi_add_pack_props [OF mi]
  from blob(1) obtain d where d: "d \<in> set (pk_descriptors p)" "pd_id d = bid" "pd_type d = t" "blob_at (pk_buffer p) d = enc"
    by (auto simp: pack_blobs_def)
  have tiles: "tiles 0 (pk_descriptors p)" "total_length (pk_descriptors p) = length (pk_buffer p)"
    using assms(5) by (auto simp: packer_ok_def)
  have np: "pd_type d \<noteq> Padding" using tiles_not_padding [OF tiles(1)] d(1) by blast
  have same: "blob_at (pf_data r) d = enc"
    using finalized_parse [OF assms(2,3,4,5) fin, of 0] d(1,4) by (auto simp: pack_blobs_def)
  have len: "length enc = unat (pd_length d)"
    using tiles_bounds [OF tiles(1) d(1)] tiles(2) d(4) by (auto simp: blob_at_def)
  have "bid \<in> mi_indexed (rp_index rp)"
    using rec finalized_locs(2) [OF fin(1)] d np by auto
  then obtain l where l: "mi_get (rp_index rp) bid = Some l" using mi_get_props(1) [of "rp_index rp" bid] rec by auto
  have "(bid, l) \<in> mi_entries mi \<union> packed_locs (pf_id r) (pf_descriptors r)"
    using mi_get_props(2) [OF conjunct1 [OF rec] l] rec by auto
  moreover have "(bid, l) \<notin> mi_entries mi" using blob(4) by (force simp: mi_indexed_def)
  ultimately obtain d' where d': "d' \<in> set (pk_descriptors p)" "pd_id d' = bid" "l = desc_locator (pf_id r) d'"
    using finalized_locs(1) [OF fin(1), of "pf_id r"] by auto
  with unique_descriptor [OF blob(2) d(1) d'(1)] d(2) have "l = desc_locator (pf_id r) d" by simp
  with l load_from_pack_blob [OF store same len blob(3) dec, of "pd_type d"] show ?thesis
    by (auto simp: repo_load_blob_def desc_locator_def)
qed

end

section \<open>Reloading the index\<close>

definition loaded_locs :: "(IndexFile \<times> ID) option result list \<Rightarrow> (ID \<times> BlobLocator) set" where
  "loaded_locs rs = (\<Union>(f, i)\<in>{x. Inr (Some x) \<in> set rs}. file_locs (if_packs f) Data \<union> file_locs (if_packs f) Tree)"

lemma loaded_locs_simps [simp]:
  "loaded_locs [] = {}" "loaded_locs (Inr None # rs) = loaded_locs rs"
  "loaded_locs (Inr (Some (f, i)) # rs) = file_locs (if_packs f) Data \<union> file_locs (if_packs f) Tree \<union> loaded_locs rs"
  by (auto simp: loaded_locs_def)

lemma mi_next_frame [simp]: "mi_ok (mi\<lparr>mi_next := n\<rparr>) = mi_ok mi" "mi_entries (mi\<lparr>mi_next := n\<rparr>) = mi_entries mi"
  by (simp_all add: mi_ok_def mi_entries_def2 mi_indexed_def)

lemma add_loaded_props:
  assumes "sizing_ok sz" "mi_ok mi" "\<forall>f i. Inr (Some (f, i)) \<in> set rs \<longrightarrow> length (if_packs f) \<le> 2 ^ 32"
    "add_loaded sz now rs mi = (Ok u, mi')"
  shows "mi_ok mi' \<and> mi_entries mi' = mi_entries mi \<union> loaded_locs rs \<and> mi_pending mi' = mi_pending mi"
  using assms(2-)
proof (induction rs arbitrary: mi)
  case (Cons r rs)
  show ?case
  proof (cases r)
    case (Inl e)
    with Cons.prems(3) show ?thesis by simp
  next
    case (Inr x)
    show ?thesis
    proof (cases x)
      case None
      with Inr Cons show ?thesis by simp
    next
      case (Some y)
      obtain f i where y: "y = (f, i)" by fastforce
      let ?ix = "from_index_file sz (mi_next mi) now f i"
      let ?mi = "(mi_add_index mi ?ix)\<lparr>mi_next := mi_next mi + 1\<rparr>"
      have len: "length (if_packs f) \<le> 2 ^ 32" using Cons.prems(2) Inr Some y by simp
      from from_index_file_props [OF assms(1) this, of "mi_next mi" now i]
      have ok: "index_ok ?ix" and ent: "set (iter_ids ?ix) = file_locs (if_packs f) Data \<union> file_locs (if_packs f) Tree"
        by (simp_all add: set_iter_ids)
      note add = mi_add_index_props [OF Cons.prems(1) ok]
      have "mi_ok mi' \<and> mi_entries mi' = mi_entries ?mi \<union> loaded_locs rs \<and> mi_pending mi' = mi_pending ?mi"
        using Cons.prems(2,3) add(1) Inr Some y by (intro Cons.IH) auto
      with add(2,3) ent Inr Some y show ?thesis by (simp add: Un_assoc)
    qed
  qed
qed simp

lemma mi_clear_props: "sh_ok (mi_pending mi) \<Longrightarrow> mi_ok (mi_clear mi)" "mi_entries (mi_clear mi) = {}"
  by (simp_all add: mi_ok_def mi_clear_def bloom_covers_def mi_entries_def2)

lemma reload_props:
  assumes "sizing_ok sz" "sh_ok (mi_pending (rp_index rp))"
    "list_files B IndexFileType (rp_backend rp) = (Ok files, st)"
    "read_index_files B cr (rp_storage rp) from_json (sort files) st = (results, st')"
    "\<forall>f i. Inr (Some (f, i)) \<in> set results \<longrightarrow> length (if_packs f) \<le> 2 ^ 32"
    "reload_master_index B cr from_json sz now rp = (Ok u, rp')"
  shows "mi_ok (rp_index rp') \<and> mi_entries (rp_index rp') = loaded_locs results \<and> sh_abs (mi_pending (rp_index rp')) = {}"
proof -
  obtain r mi where add: "add_loaded sz now results (mi_clear (rp_index rp)) = (r, mi)" by fastforce
  with assms(3,4,6) have r: "r = Ok ()" by (cases r) (auto simp: reload_master_index_def)
  note m = add_loaded_props [OF assms(1) mi_clear_props(1) [OF assms(2)] assms(5) add [unfolded r]]
  have pend: "sh_abs (mi_pending mi) = {}" using m assms(2) by (simp add: mi_clear_def)
  have "rp_index rp' = (if mi_num_blobs mi > 0 then mi_initialize_bloom_filter sz mi (mi_num_blobs mi) else mi)"
    using assms(3,4,6) add r by (auto simp: reload_master_index_def Let_def)
  moreover have "mi_entries (mi_initialize_bloom_filter sz mi n) = mi_entries mi"
    "mi_pending (mi_initialize_bloom_filter sz mi n) = mi_pending mi" for n
    by (simp_all add: mi_initialize_bloom_filter_def mi_entries_def2)
  ultimately show ?thesis using m pend mi_bloom_init_ok [OF _ assms(1)] by (auto simp: mi_clear_props(2))
qed

text \<open>C29: After a successful reload the master index holds exactly the entries of the index files that were read,
  no blob is pending, and the invariant holds, Bloom filter included.\<close>

theorem reload_index_exact:
  assumes "sizing_ok sz" "sh_ok (mi_pending (rp_index rp))"
    "list_files B IndexFileType (rp_backend rp) = (Ok files, st)"
    "read_index_files B cr (rp_storage rp) from_json (sort files) st = (results, st')"
    "\<forall>f i. Inr (Some (f, i)) \<in> set results \<longrightarrow> length (if_packs f) \<le> 2 ^ 32"
    "reload_master_index B cr from_json sz now rp = (Ok u, rp')"
  shows "mi_ok (rp_index rp') \<and> mi_entries (rp_index rp') = loaded_locs results \<and> sh_abs (mi_pending (rp_index rp')) = {}"
  using assms by (rule reload_props)

text \<open>Reading back an index file that \<open>persist\<close> saved.\<close>

context storage_backend
begin

lemma index_file_reads_back:
  assumes "inv st" "crypto_ok cr" "length nonce = 12" "index_saver B cr ss nonce serialized st = (Ok (i, sizes), st')"
    "from_json serialized = Some f"
  shows "\<exists>s. read_index_file B cr ss from_json (get_path IndexFileType i) st' = (Ok (Some (f, i)), s)"
proof -
  let ?hint = "\<lparr>hint_file_type = IndexFileType, hint_is_metadata = True\<rparr>"
  obtain enc n u bs where
    e: "file_encoding cr ss nonce serialized (hint_file_type ?hint) = Ok (enc, n)" "bs = (case enc of Some d \<Rightarrow> d | None \<Rightarrow> serialized)"
      "be_write B st \<lparr>h_path = with_extension (get_path (hint_file_type ?hint) i) (unwrap_or_default None), h_hint = Some ?hint\<rparr> bs = (Ok u, st')"
      "i = (case CalculateID of CalculateID \<Rightarrow> cr_hash cr bs | WithID j \<Rightarrow> j)"
    using assms(4) unfolding index_saver_def by (rule save_file_Ok)
  have "id_ok i" using assms(2) e(4) by (simp add: crypto_ok_def id_ok_def ID_LENGTH_def)
  then have pid: "path_id (get_path IndexFileType i) = Some i" by (simp add: path_id_def)
  have "decode_owned cr ss bs = Ok serialized"
    using file_coding [OF assms(2,3) e(1)] e(2) by (simp add: file_decoding_def)
  then have dec: "ss_decode cr ss bs = Ok serialized"
    by (simp add: decode_owned_def ss_decode_def decrypt_in_place_eq)
  obtain r s where rd: "be_read B st' (handle_new_with_hint (get_path IndexFileType i) IndexFileType True) 0 0 = (r, s)" by fastforce
  have "inv st'" "files st' (get_path IndexFileType i) = Some bs"
    using write_file [OF assms(1) e(3)] by (auto simp: unwrap_or_default_def)
  with read_file [OF _ rd] have "r = Ok bs" by (simp add: handle_new_with_hint_def)
  with rd pid dec assms(5) show ?thesis by (simp add: read_index_file_def)
qed

end

definition demo_index_file :: IndexFile where
  "demo_index_file = \<lparr>if_packs = [\<lparr>fp_id = ID (replicate 32 9),
     fp_blobs = [\<lparr>fb_id = ID (replicate 32 1), fb_type = Data, fb_offset = 0, fb_length = 10, fb_raw_length = 20\<rparr>]\<rparr>]\<rparr>"

definition demo_indexed_repo :: "MockBackend Repository" where
  "demo_indexed_repo = demo_repo\<lparr>rp_storage := \<lparr>ss_level = 3, ss_key = None\<rparr>,
     rp_backend := (mock_new 0)\<lparr>mb_nodes := [(get_path IndexFileType (ID (replicate 32 4)), mock_file 0 [7])]\<rparr>\<rparr>"

lemma demo_list:
  "\<exists>st. list_files mock_backend IndexFileType (rp_backend demo_indexed_repo) = (Ok [get_path IndexFileType (ID (replicate 32 4))], st) \<and>
     mb_inv st \<and> mb_files st = mb_files (rp_backend demo_indexed_repo)"
proof -
  let ?p = "get_path IndexFileType (ID (replicate 32 4))" and ?st = "rp_backend demo_indexed_repo"
  have inv: "mb_inv ?st" by (simp add: demo_indexed_repo_def mb_inv_def mock_new_def)
  obtain r st where l: "be_list_dir mock_backend ?st [INDEX_DIR] = (r, st)" by fastforce
  have "mb_list_loop [INDEX_DIR] [(?p, mock_file 0 [7])] [] = [NodeFile ?p 1]"
    by (simp add: get_path_def mock_file_def)
  then have "r = Ok [NodeFile ?p 1]"
    using l by (simp add: mock_backend_def mb_list_dir_def demo_indexed_repo_def mb_exec_no_hooks mock_new_def as_nodes_def)
  with l mock.list_file [OF inv l] show ?thesis
    by (simp add: list_files_def list_files_with_extension_def list_all_files_def dir_for_type_def)
qed

theorem reload_index_exact_witness:
  "mi_entries (rp_index (snd (reload_master_index mock_backend demo_crypto (\<lambda>d. Some demo_index_file) demo_sizing 0 demo_indexed_repo))) =
     file_locs (if_packs demo_index_file) Data \<union> file_locs (if_packs demo_index_file) Tree"
proof -
  let ?p = "get_path IndexFileType (ID (replicate 32 4))" and ?js = "\<lambda>d :: bytes. Some demo_index_file"
  from demo_list obtain st where l: "list_files mock_backend IndexFileType (rp_backend demo_indexed_repo) = (Ok [?p], st)"
    and st: "mb_inv st" "mb_files st = mb_files (rp_backend demo_indexed_repo)" by blast
  obtain r s where rd: "be_read mock_backend st (handle_new_with_hint ?p IndexFileType True) 0 0 = (r, s)" by fastforce
  have "r = Ok [7]" using mock.read_file [OF st(1) rd]
    by (simp add: st(2) handle_new_with_hint_def mb_files_def demo_indexed_repo_def mock_file_def)
  then have ri: "read_index_files mock_backend demo_crypto (rp_storage demo_indexed_repo) ?js (sort [?p]) st =
      ([Ok (Some (demo_index_file, ID (replicate 32 4)))], s)"
    using rd by (simp add: read_index_file_def path_id_def id_ok_def ID_LENGTH_def demo_indexed_repo_def
        ss_decode_def ss_decrypt_def ss_decompress_def demo_crypto_def)
  obtain u rp' where rl: "reload_master_index mock_backend demo_crypto ?js demo_sizing 0 demo_indexed_repo = (Ok u, rp')"
    using l ri by (simp add: reload_master_index_def Let_def)
  have "sizing_ok demo_sizing" by (simp add: sizing_ok_def demo_sizing_def)
  moreover have "sh_ok (mi_pending (rp_index demo_indexed_repo))" by (simp add: demo_indexed_repo_def demo_repo_def mi_new_def)
  ultimately have "mi_entries (rp_index rp') = loaded_locs [Ok (Some (demo_index_file, ID (replicate 32 4)))]"
    using reload_index_exact [OF _ _ l ri _ rl] by (simp add: demo_index_file_def)
  then show ?thesis by (simp add: rl)
qed

end
