(* ===== verification/Lock.thy ===== *)
theory Lock
  imports Repository
begin

text \<open>
  Repository locks (\<open>repository/lock.rs\<close>): the lock itself, one attempt to acquire it, the retry loop,
  and the protocol that several processes run on the same lock directory.

  \<^item> \<open>try_acquire_lock_once\<close> is the sequential code over the repository's file operations.
  \<^item> \<open>retry_loop\<close> is the loop of \<open>try_acquire_lock_with_retry\<close>; it is a partial function, and
    \<open>acquire_retry_returns\<close> shows that it always returns.
  \<^item> \<open>lock_step\<close> interleaves any number of processes, one backend operation or one loop iteration at a
    time: the attempt, the background refresh, the release, and the clock. \<open>lock_mutex\<close> is mutual
    exclusion over all interleavings.

  Times are in milliseconds. The host name, the process table and the clock are arguments.
\<close>

section \<open>The lock\<close>

definition LOCK_REFRESH_PERIOD :: int where "LOCK_REFRESH_PERIOD = 3 * 60 * 1000"
definition LOCK_EXPIRE_TIMEOUT :: int where "LOCK_EXPIRE_TIMEOUT = 10 * 60 * 1000"

record Lock =
  lk_id :: ID
  lk_timestamp :: int
  lk_exclusive :: bool
  lk_hostname :: string
  lk_username :: string
  lk_pid :: u32
  lk_context :: "string list"
  lk_creation_time :: "int option"

text \<open>The parts of the system that a lock looks at: clock, host and user name, own process id and arguments,
  and which processes exist on this host.\<close>

record system =
  sy_now :: int
  sy_hostname :: "string option"
  sy_username :: "string option"
  sy_pid :: u32
  sy_args :: "string list"
  sy_pid_exists :: "u32 \<Rightarrow> bool"

definition lock_new :: "system \<Rightarrow> ID \<Rightarrow> bool \<Rightarrow> Lock" where
  "lock_new sys random_id exclusive =
     \<lparr>lk_id = random_id, lk_timestamp = sy_now sys, lk_exclusive = exclusive,
      lk_hostname = unwrap_or_default (sy_hostname sys), lk_username = unwrap_or_default (sy_username sys),
      lk_pid = sy_pid sys, lk_context = sy_args sys, lk_creation_time = Some (sy_now sys)\<rparr>"

definition lock_refresh :: "int \<Rightarrow> Lock \<Rightarrow> Lock" where
  "lock_refresh now lk = lk\<lparr>lk_timestamp := now\<rparr>"

definition is_expired :: "int \<Rightarrow> Lock \<Rightarrow> bool" where
  "is_expired now lk \<longleftrightarrow> now - lk_timestamp lk > LOCK_EXPIRE_TIMEOUT"

definition process_alive :: "system \<Rightarrow> Lock \<Rightarrow> bool" where
  "process_alive sys lk =
     (if lk_hostname lk = [] then True
      else case sy_hostname sys of
          None \<Rightarrow> True
        | Some h \<Rightarrow> if lk_hostname lk \<noteq> h then True else sy_pid_exists sys (lk_pid lk))"

definition is_stale :: "system \<Rightarrow> Lock \<Rightarrow> bool" where
  "is_stale sys lk \<longleftrightarrow> is_expired (sy_now sys) lk \<or> \<not> process_alive sys lk"

section \<open>One attempt\<close>

text \<open>\<open>to_json\<close> and \<open>from_json\<close> are \<open>serde_json\<close> on locks.\<close>

definition save_lock :: "'b StorageBackend \<Rightarrow> crypto \<Rightarrow> SecureStorage \<Rightarrow> (Lock \<Rightarrow> bytes option) \<Rightarrow> bytes \<Rightarrow> Lock \<Rightarrow>
    'b \<Rightarrow> unit result \<times> 'b" where
  "save_lock B cr ss to_json nonce lk st =
     (case to_json lk of
        None \<Rightarrow> (Err Serialization, st)
      | Some bs \<Rightarrow>
          (case save_file B cr ss nonce (WithID (lk_id lk)) bs \<lparr>hint_file_type = LockFileType, hint_is_metadata = True\<rparr> None st of
             (Inl e, st') \<Rightarrow> (Err e, st')
           | (Inr _, st') \<Rightarrow> (Ok (), st')))"

definition refresh_lock :: "'b StorageBackend \<Rightarrow> crypto \<Rightarrow> SecureStorage \<Rightarrow> (Lock \<Rightarrow> bytes option) \<Rightarrow> bytes \<Rightarrow> int \<Rightarrow>
    Lock \<Rightarrow> 'b \<Rightarrow> unit result \<times> Lock \<times> 'b" where
  "refresh_lock B cr ss to_json nonce now lk st =
     (let lk = lock_refresh now lk
      in case save_lock B cr ss to_json nonce lk st of (r, st') \<Rightarrow> (r, lk, st'))"

text \<open>\<open>get_locks\<close>: a file that cannot be read, decoded or parsed is skipped.\<close>

fun read_locks :: "'b StorageBackend \<Rightarrow> crypto \<Rightarrow> SecureStorage \<Rightarrow> (bytes \<Rightarrow> Lock option) \<Rightarrow> path list \<Rightarrow> 'b \<Rightarrow>
    Lock list \<times> 'b" where
  "read_locks B cr ss from_json [] st = ([], st)"
| "read_locks B cr ss from_json (p # ps) st =
     (case be_read B st (handle_new_with_hint p LockFileType True) 0 0 of
        (Inl _, st1) \<Rightarrow> read_locks B cr ss from_json ps st1
      | (Inr d, st1) \<Rightarrow>
          (case read_locks B cr ss from_json ps st1 of
             (ls, st2) \<Rightarrow>
               (case ss_decode cr ss d of
                  Inl _ \<Rightarrow> (ls, st2)
                | Inr raw \<Rightarrow> (case from_json raw of None \<Rightarrow> (ls, st2) | Some l \<Rightarrow> (l # ls, st2)))))"

definition get_locks :: "'b StorageBackend \<Rightarrow> crypto \<Rightarrow> SecureStorage \<Rightarrow> (bytes \<Rightarrow> Lock option) \<Rightarrow> 'b \<Rightarrow>
    Lock list result \<times> 'b" where
  "get_locks B cr ss from_json st =
     (case list_files B LockFileType st of
        (Inl e, st') \<Rightarrow> (Err e, st')
      | (Inr ps, st') \<Rightarrow> (case read_locks B cr ss from_json ps st' of (ls, st'') \<Rightarrow> (Ok ls, st'')))"

text \<open>What the loop does with one lock of the list.\<close>

datatype verdict = SkipLock | RemoveStale | Conflict

definition judge :: "system \<Rightarrow> ID \<Rightarrow> bool \<Rightarrow> Lock \<Rightarrow> verdict" where
  "judge sys own exclusive lk =
     (if lk_id lk = own then SkipLock
      else if is_stale sys lk then RemoveStale
      else if exclusive \<or> lk_exclusive lk then Conflict
      else SkipLock)"

text \<open>The loop of \<open>try_acquire_lock_once\<close>; the results of the deletions are ignored.\<close>

fun check_locks :: "'b StorageBackend \<Rightarrow> system \<Rightarrow> ID \<Rightarrow> bool \<Rightarrow> Lock list \<Rightarrow> 'b \<Rightarrow> unit result \<times> 'b" where
  "check_locks B sys own exclusive [] st = (Ok (), st)"
| "check_locks B sys own exclusive (lk # lks) st =
     (case judge sys own exclusive lk of
        SkipLock \<Rightarrow> check_locks B sys own exclusive lks st
      | RemoveStale \<Rightarrow> check_locks B sys own exclusive lks (snd (delete_file B LockFileType (lk_id lk) None st))
      | Conflict \<Rightarrow> (Err Locked, snd (delete_file B LockFileType own None st)))"

definition try_acquire_lock_once :: "'b StorageBackend \<Rightarrow> crypto \<Rightarrow> SecureStorage \<Rightarrow> (Lock \<Rightarrow> bytes option) \<Rightarrow>
    (bytes \<Rightarrow> Lock option) \<Rightarrow> bytes \<Rightarrow> system \<Rightarrow> ID \<Rightarrow> bool \<Rightarrow> 'b \<Rightarrow> Lock result \<times> 'b" where
  "try_acquire_lock_once B cr ss to_json from_json nonce sys random_id exclusive st =
     (case be_create_dir B st [LOCKS_DIR] of
        (Inl e, st1) \<Rightarrow> (Err e, st1)
      | (Inr _, st1) \<Rightarrow>
          let new_lock = lock_new sys random_id exclusive
          in case save_lock B cr ss to_json nonce new_lock st1 of
               (Inl e, st2) \<Rightarrow> (Err MapacheError.Backend, st2)
             | (Inr _, st2) \<Rightarrow>
                 (case get_locks B cr ss from_json st2 of
                    (Inl e, st3) \<Rightarrow> (Err e, snd (delete_file B LockFileType (lk_id new_lock) None st3))
                  | (Inr all_locks, st3) \<Rightarrow>
                      (case check_locks B sys (lk_id new_lock) exclusive all_locks st3 of
                         (Inl e, st4) \<Rightarrow> (Err e, st4)
                       | (Inr _, st4) \<Rightarrow> (Ok new_lock, st4))))"

section \<open>The retry loop\<close>

definition MIN_BASE_WAIT_INTERVAL_MS :: int where "MIN_BASE_WAIT_INTERVAL_MS = 5 * 1000"
definition MAX_BASE_WAIT_INTERVAL_MS :: int where "MAX_BASE_WAIT_INTERVAL_MS = 60 * 1000"
definition MAX_JITTER_MS :: int where "MAX_JITTER_MS = 1000"

text \<open>What the environment decides: the outcome of the \<open>k\<close>-th attempt and how long it takes, and the \<open>k\<close>-th
  random jitter.\<close>

record 'l attempts =
  at_outcome :: "nat \<Rightarrow> 'l result"
  at_millis :: "nat \<Rightarrow> nat"
  at_jitter :: "nat \<Rightarrow> nat"

text \<open>\<open>elapsed\<close> is the time since the start before the \<open>k\<close>-th attempt. The sleep's conversion to an unsigned
  duration fails for a negative wait.\<close>

partial_function (option) retry_loop :: "'l attempts \<Rightarrow> int option \<Rightarrow> nat \<Rightarrow> nat \<Rightarrow> int \<Rightarrow> 'l result option" where
  "retry_loop ev retry_duration k elapsed base =
     (case at_outcome ev k of
        Inr lock \<Rightarrow> Some (Ok lock)
      | Inl e \<Rightarrow>
          (case retry_duration of
             None \<Rightarrow> Some (Err e)
           | Some timeout \<Rightarrow>
               let elapsed = elapsed + at_millis ev k
               in if elapsed \<ge> nat timeout then Some (Err LockExpired)
                  else
                    let wait_time = base - MAX_JITTER_MS div 2 + int (at_jitter ev k)
                    in if wait_time < 0 then Some (Err Repo)
                       else retry_loop ev retry_duration (k + 1) (elapsed + nat wait_time)
                              (min MAX_BASE_WAIT_INTERVAL_MS (2 * base))))"

definition try_acquire_lock_with_retry :: "'l attempts \<Rightarrow> int option \<Rightarrow> 'l result option" where
  "try_acquire_lock_with_retry ev retry_duration = retry_loop ev retry_duration 0 0 MIN_BASE_WAIT_INTERVAL_MS"

lemma retry_loop_returns:
  assumes "base \<ge> MIN_BASE_WAIT_INTERVAL_MS" "retry_duration = Some timeout"
  shows "\<exists>r. retry_loop ev retry_duration k elapsed base = Some r \<and>
     (case r of Inr l \<Rightarrow> \<exists>j\<ge>k. at_outcome ev j = Ok l | Inl e \<Rightarrow> e = LockExpired)"
  using assms(1)
proof (induction "nat timeout - elapsed" arbitrary: k elapsed base rule: less_induct)
  case less
  show ?case
  proof (cases "at_outcome ev k")
    case (Inr l)
    then show ?thesis by (subst retry_loop.simps) auto
  next
    case (Inl e)
    let ?el = "elapsed + at_millis ev k" and ?w = "base - MAX_JITTER_MS div 2 + int (at_jitter ev k)"
    let ?base = "min MAX_BASE_WAIT_INTERVAL_MS (2 * base)"
    have w: "?w > 0" using less.prems by (simp add: MIN_BASE_WAIT_INTERVAL_MS_def MAX_JITTER_MS_def)
    show ?thesis
    proof (cases "?el \<ge> nat timeout")
      case True
      then show ?thesis using Inl assms(2) by (subst retry_loop.simps) simp
    next
      case False
      have "?base \<ge> MIN_BASE_WAIT_INTERVAL_MS"
        using less.prems by (simp add: MIN_BASE_WAIT_INTERVAL_MS_def MAX_BASE_WAIT_INTERVAL_MS_def)
      moreover have "nat timeout - (?el + nat ?w) < nat timeout - elapsed" using False w by simp
      ultimately obtain r where r: "retry_loop ev retry_duration (k + 1) (?el + nat ?w) ?base = Some r"
        "case r of Inr l \<Rightarrow> \<exists>j\<ge>k + 1. at_outcome ev j = Ok l | Inl e \<Rightarrow> e = LockExpired"
        using less.hyps [of "?el + nat ?w" ?base "k + 1"] by blast
      have "retry_loop ev retry_duration k elapsed base = retry_loop ev retry_duration (k + 1) (?el + nat ?w) ?base"
        using Inl False w assms(2) by (subst retry_loop.simps) (simp add: Let_def)
      moreover from r(2) have "case r of Inr l \<Rightarrow> \<exists>j\<ge>k. at_outcome ev j = Ok l | Inl e \<Rightarrow> e = LockExpired"
        by (cases r) (auto intro: Suc_leD)
      ultimately show ?thesis using r(1) by simp
    qed
  qed
qed

text \<open>C31: The retry loop always returns, whatever the attempts do and however long they take: with no deadline it
  makes one attempt and returns its outcome, with a deadline it ends with a lock that some attempt
  acquired or with the timeout error.\<close>

theorem acquire_retry_returns:
  "\<exists>r. try_acquire_lock_with_retry ev retry_duration = Some r \<and>
     (case retry_duration of
        None \<Rightarrow> r = at_outcome ev 0
      | Some timeout \<Rightarrow> (case r of Inr l \<Rightarrow> \<exists>j. at_outcome ev j = Ok l | Inl e \<Rightarrow> e = LockExpired))"
proof (cases retry_duration)
  case None
  then show ?thesis
    unfolding try_acquire_lock_with_retry_def by (subst retry_loop.simps) (simp split: sum.splits)
next
  case (Some timeout)
  from retry_loop_returns [of MIN_BASE_WAIT_INTERVAL_MS retry_duration timeout ev 0 0, OF order_refl Some]
  obtain r where r: "retry_loop ev retry_duration 0 0 MIN_BASE_WAIT_INTERVAL_MS = Some r"
    "case r of Inr l \<Rightarrow> \<exists>j\<ge>0. at_outcome ev j = Ok l | Inl e \<Rightarrow> e = LockExpired" by blast
  from r(2) have "case r of Inr l \<Rightarrow> \<exists>j. at_outcome ev j = Ok l | Inl e \<Rightarrow> e = LockExpired" by (cases r) auto
  with r(1) Some show ?thesis by (simp add: try_acquire_lock_with_retry_def)
qed

section \<open>The protocol\<close>

text \<open>Where a process is in its attempt: not started, own lock written, reading the listed files, judging
  the locks it read, holding the lock, or done. \<open>refreshing\<close> says that the background task has seen the
  lock alive and is about to write it.\<close>

datatype pc = PStart | PWritten | PReading "ID list" "Lock list" | PChecking "Lock list" | PHeld | PReleased | PFailed

record proc =
  pr_lock :: Lock
  pr_pc :: pc
  pr_refreshing :: bool

record lock_state =
  ls_store :: "ID \<Rightarrow> Lock option"
  ls_procs :: "nat \<Rightarrow> proc"
  ls_now :: int

definition own_id :: "lock_state \<Rightarrow> nat \<Rightarrow> ID" where
  "own_id s p = lk_id (pr_lock (ls_procs s p))"

definition goto :: "nat \<Rightarrow> pc \<Rightarrow> lock_state \<Rightarrow> lock_state" where
  "goto p c s = s\<lparr>ls_procs := (ls_procs s)(p := (ls_procs s p)\<lparr>pr_pc := c\<rparr>)\<rparr>"

definition put_lock :: "Lock \<Rightarrow> lock_state \<Rightarrow> lock_state" where
  "put_lock lk s = s\<lparr>ls_store := (ls_store s)(lk_id lk \<mapsto> lk)\<rparr>"

definition drop_lock :: "ID \<Rightarrow> lock_state \<Rightarrow> lock_state" where
  "drop_lock i s = s\<lparr>ls_store := (ls_store s)(i := None)\<rparr>"

text \<open>A process is engaged from the moment its lock is written until it releases or gives up.\<close>

fun engaged_pc :: "pc \<Rightarrow> bool" where
  "engaged_pc PWritten = True"
| "engaged_pc (PReading _ _) = True"
| "engaged_pc (PChecking _) = True"
| "engaged_pc PHeld = True"
| "engaged_pc _ = False"

text \<open>The copies of locks that a process has read and not judged yet.\<close>

fun copies :: "pc \<Rightarrow> Lock list" where
  "copies (PReading _ ls) = ls"
| "copies (PChecking ls) = ls"
| "copies _ = []"

definition engaged :: "lock_state \<Rightarrow> nat \<Rightarrow> bool" where
  "engaged s q \<longleftrightarrow> engaged_pc (pr_pc (ls_procs s q))"

text \<open>The timing the protocol relies on, the reason for the refresh period: at time \<open>now\<close> the stored lock of
  an engaged process has not expired, nor has any copy of it that another process is about to judge.\<close>

definition timely :: "lock_state \<Rightarrow> int \<Rightarrow> bool" where
  "timely s now \<longleftrightarrow>
     (\<forall>q. engaged s q \<longrightarrow>
        (\<forall>lk. ls_store s (own_id s q) = Some lk \<longrightarrow> \<not> is_expired now lk) \<and>
        (\<forall>p. \<forall>lk\<in>set (copies (pr_pc (ls_procs s p))). lk_id lk = own_id s q \<longrightarrow> \<not> is_expired now lk))"

text \<open>One step. \<open>sys p now\<close> is what process \<open>p\<close> sees of its system. Writing, listing and deleting
  may fail at any time. \<open>get_locks\<close> passes over a file it cannot read; \<open>reads_fail\<close> says whether that can
  happen to a file that is there.\<close>

inductive lock_step :: "(nat \<Rightarrow> int \<Rightarrow> system) \<Rightarrow> bool \<Rightarrow> lock_state \<Rightarrow> lock_state \<Rightarrow> bool" for sys reads_fail where
  start: "pr_pc (ls_procs s p) = PStart \<Longrightarrow> lk = lock_refresh (ls_now s) (pr_lock (ls_procs s p)) \<Longrightarrow>
    lock_step sys reads_fail s (goto p PWritten (put_lock lk (s\<lparr>ls_procs := (ls_procs s)(p := (ls_procs s p)\<lparr>pr_lock := lk\<rparr>)\<rparr>)))"
| start_fails: "pr_pc (ls_procs s p) = PStart \<Longrightarrow> lock_step sys reads_fail s (goto p PFailed s)"
| listing: "pr_pc (ls_procs s p) = PWritten \<Longrightarrow> set ids = dom (ls_store s) \<Longrightarrow>
    lock_step sys reads_fail s (goto p (PReading ids []) s)"
| listing_fails: "pr_pc (ls_procs s p) = PWritten \<Longrightarrow> s' \<in> {s, drop_lock (own_id s p) s} \<Longrightarrow>
    lock_step sys reads_fail s (goto p PFailed s')"
| read_one: "pr_pc (ls_procs s p) = PReading (i # ids) ls \<Longrightarrow>
    lock_step sys reads_fail s (goto p (PReading ids (case ls_store s i of Some lk \<Rightarrow> ls @ [lk] | None \<Rightarrow> ls)) s)"
| read_fails: "reads_fail \<Longrightarrow> pr_pc (ls_procs s p) = PReading (i # ids) ls \<Longrightarrow>
    lock_step sys reads_fail s (goto p (PReading ids ls) s)"
| all_read: "pr_pc (ls_procs s p) = PReading [] ls \<Longrightarrow> lock_step sys reads_fail s (goto p (PChecking ls) s)"
| skip: "pr_pc (ls_procs s p) = PChecking (lk # ls) \<Longrightarrow>
    judge (sys p (ls_now s)) (own_id s p) (lk_exclusive (pr_lock (ls_procs s p))) lk = SkipLock \<Longrightarrow>
    lock_step sys reads_fail s (goto p (PChecking ls) s)"
| stale: "pr_pc (ls_procs s p) = PChecking (lk # ls) \<Longrightarrow>
    judge (sys p (ls_now s)) (own_id s p) (lk_exclusive (pr_lock (ls_procs s p))) lk = RemoveStale \<Longrightarrow>
    s' \<in> {s, drop_lock (lk_id lk) s} \<Longrightarrow> lock_step sys reads_fail s (goto p (PChecking ls) s')"
| conflict: "pr_pc (ls_procs s p) = PChecking (lk # ls) \<Longrightarrow>
    judge (sys p (ls_now s)) (own_id s p) (lk_exclusive (pr_lock (ls_procs s p))) lk = Conflict \<Longrightarrow>
    s' \<in> {s, drop_lock (own_id s p) s} \<Longrightarrow> lock_step sys reads_fail s (goto p PFailed s')"
| acquired: "pr_pc (ls_procs s p) = PChecking [] \<Longrightarrow> lock_step sys reads_fail s (goto p PHeld s)"
| refresh_begin: "pr_pc (ls_procs s p) = PHeld \<Longrightarrow>
    lock_step sys reads_fail s (s\<lparr>ls_procs := (ls_procs s)(p := (ls_procs s p)\<lparr>pr_refreshing := True\<rparr>)\<rparr>)"
| refresh_write: "pr_refreshing (ls_procs s p) \<Longrightarrow> lk = lock_refresh (ls_now s) (pr_lock (ls_procs s p)) \<Longrightarrow>
    s' \<in> {s, put_lock lk s} \<Longrightarrow>
    lock_step sys reads_fail s (s'\<lparr>ls_procs := (ls_procs s)(p := (ls_procs s p)\<lparr>pr_lock := lk, pr_refreshing := False\<rparr>)\<rparr>)"
| release: "pr_pc (ls_procs s p) = PHeld \<Longrightarrow> s' \<in> {s, drop_lock (own_id s p) s} \<Longrightarrow>
    lock_step sys reads_fail s (goto p PReleased s')"
| tick: "now \<ge> ls_now s \<Longrightarrow> timely s now \<Longrightarrow> lock_step sys reads_fail s (s\<lparr>ls_now := now\<rparr>)"

section \<open>Mutual exclusion\<close>

lemma state_simps [simp]:
  "ls_store (goto p c s) = ls_store s" "ls_now (goto p c s) = ls_now s"
  "pr_lock (ls_procs (goto p c s) q) = pr_lock (ls_procs s q)" "pr_refreshing (ls_procs (goto p c s) q) = pr_refreshing (ls_procs s q)"
  "pr_pc (ls_procs (goto p c s) q) = (if q = p then c else pr_pc (ls_procs s q))"
  "ls_procs (put_lock lk s) = ls_procs s" "ls_now (put_lock lk s) = ls_now s" "ls_store (put_lock lk s) = (ls_store s)(lk_id lk \<mapsto> lk)"
  "ls_procs (drop_lock i s) = ls_procs s" "ls_now (drop_lock i s) = ls_now s" "ls_store (drop_lock i s) = (ls_store s)(i := None)"
  by (simp_all add: goto_def put_lock_def drop_lock_def)

lemma own_id_simps [simp]:
  "own_id (goto p c s) q = own_id s q" "own_id (put_lock lk s) q = own_id s q" "own_id (drop_lock i s) q = own_id s q"
  by (simp_all add: own_id_def)

text \<open>The same lock up to its refresh time.\<close>

definition same_lock :: "Lock \<Rightarrow> Lock \<Rightarrow> bool" where
  "same_lock a b \<longleftrightarrow> a\<lparr>lk_timestamp := 0\<rparr> = b\<lparr>lk_timestamp := 0\<rparr>"

lemma same_lock_fields:
  "same_lock a b \<longleftrightarrow> lk_id a = lk_id b \<and> lk_exclusive a = lk_exclusive b \<and> lk_hostname a = lk_hostname b \<and>
     lk_username a = lk_username b \<and> lk_pid a = lk_pid b \<and> lk_context a = lk_context b \<and> lk_creation_time a = lk_creation_time b"
  by (cases a; cases b) (auto simp: same_lock_def)

lemma same_lock_refresh [simp]:
  "same_lock a a" "same_lock (lock_refresh t a) b = same_lock a b" "same_lock a (lock_refresh t b) = same_lock a b"
  by (simp_all add: same_lock_def lock_refresh_def)

lemma same_lock_cong: "same_lock a b \<Longrightarrow> same_lock l a \<longleftrightarrow> same_lock l b"
  by (simp add: same_lock_def)

lemma same_lock_alive: "same_lock a b \<Longrightarrow> process_alive sys a = process_alive sys b"
  by (cases "sy_hostname sys") (simp_all add: same_lock_fields process_alive_def)

lemma refresh_simps [simp]:
  "lk_id (lock_refresh t a) = lk_id a" "lk_exclusive (lock_refresh t a) = lk_exclusive a" "\<not> is_expired t (lock_refresh t a)"
  by (simp_all add: lock_refresh_def is_expired_def LOCK_EXPIRE_TIMEOUT_def)

text \<open>What the processes assume of their systems: synchronized clocks, and no process of the run is reported
  dead.\<close>

definition systems_ok :: "(nat \<Rightarrow> int \<Rightarrow> system) \<Rightarrow> lock_state \<Rightarrow> bool" where
  "systems_ok sys s \<longleftrightarrow>
     (\<forall>p now. sy_now (sys p now) = now) \<and>
     (\<forall>p now q. process_alive (sys p now) (pr_lock (ls_procs s q)))"

text \<open>Before the run: no process has started, ids are fresh and distinct, and every stored lock is filed under
  its own id. Locks of other processes may be there.\<close>

definition lock_init :: "lock_state \<Rightarrow> bool" where
  "lock_init s \<longleftrightarrow>
     inj (own_id s) \<and> (\<forall>p. pr_pc (ls_procs s p) = PStart \<and> \<not> pr_refreshing (ls_procs s p) \<and> ls_store s (own_id s p) = None) \<and>
     (\<forall>i lk. ls_store s i = Some lk \<longrightarrow> lk_id lk = i)"

text \<open>Process \<open>p\<close> will still look at the lock of \<open>q\<close>.\<close>

definition aware :: "pc \<Rightarrow> ID \<Rightarrow> bool" where
  "aware c i \<longleftrightarrow>
     (case c of
        PWritten \<Rightarrow> True
      | PReading ids ls \<Rightarrow> i \<in> set ids \<or> i \<in> lk_id ` set ls
      | PChecking ls \<Rightarrow> i \<in> lk_id ` set ls
      | _ \<Rightarrow> False)"

definition inv_static :: "(nat \<Rightarrow> int \<Rightarrow> system) \<Rightarrow> lock_state \<Rightarrow> bool" where
  "inv_static sys s \<longleftrightarrow> systems_ok sys s \<and> inj (own_id s) \<and> (\<forall>i lk. ls_store s i = Some lk \<longrightarrow> lk_id lk = i) \<and>
     (\<forall>p. pr_refreshing (ls_procs s p) \<longrightarrow> pr_pc (ls_procs s p) \<in> {PHeld, PReleased})"

definition inv_start :: "lock_state \<Rightarrow> bool" where
  "inv_start s \<longleftrightarrow> (\<forall>q. pr_pc (ls_procs s q) = PStart \<longrightarrow>
     ls_store s (own_id s q) = None \<and> (\<forall>p. own_id s q \<notin> lk_id ` set (copies (pr_pc (ls_procs s p)))))"

definition live_lock :: "lock_state \<Rightarrow> nat \<Rightarrow> Lock \<Rightarrow> bool" where
  "live_lock s q lk \<longleftrightarrow> same_lock lk (pr_lock (ls_procs s q)) \<and> \<not> is_expired (ls_now s) lk"

definition inv_stored :: "lock_state \<Rightarrow> bool" where
  "inv_stored s \<longleftrightarrow> (\<forall>q. engaged s q \<longrightarrow> (\<exists>lk. ls_store s (own_id s q) = Some lk \<and> live_lock s q lk))"

definition inv_copies :: "lock_state \<Rightarrow> bool" where
  "inv_copies s \<longleftrightarrow> (\<forall>q. engaged s q \<longrightarrow> (\<forall>p. \<forall>lk\<in>set (copies (pr_pc (ls_procs s p))). lk_id lk = own_id s q \<longrightarrow> live_lock s q lk))"

definition inv_aware :: "lock_state \<Rightarrow> bool" where
  "inv_aware s \<longleftrightarrow> (\<forall>p q. p \<noteq> q \<longrightarrow> engaged s p \<longrightarrow> engaged s q \<longrightarrow>
     lk_exclusive (pr_lock (ls_procs s p)) \<or> lk_exclusive (pr_lock (ls_procs s q)) \<longrightarrow>
     aware (pr_pc (ls_procs s p)) (own_id s q) \<or> aware (pr_pc (ls_procs s q)) (own_id s p))"

definition lock_inv :: "(nat \<Rightarrow> int \<Rightarrow> system) \<Rightarrow> lock_state \<Rightarrow> bool" where
  "lock_inv sys s \<longleftrightarrow> inv_static sys s \<and> inv_start s \<and> inv_stored s \<and> inv_copies s \<and> inv_aware s"

lemma engaged_goto [simp]:
  "engaged (goto p c s) q = (if q = p then engaged_pc c else engaged s q)"
  "engaged (put_lock lk s) q = engaged s q" "engaged (drop_lock i s) q = engaged s q"
  by (simp_all add: engaged_def)

text \<open>A step that moves one process along and leaves the stored locks of engaged processes alone.\<close>

lemma lock_inv_goto:
  assumes inv: "lock_inv sys s"
    and eng: "engaged_pc c \<Longrightarrow> engaged s p" and pc: "c \<noteq> PStart"
    and held: "pr_refreshing (ls_procs s p) \<Longrightarrow> c \<in> {PHeld, PReleased}"
    and store: "s' = s \<or> (\<exists>i. s' = drop_lock i s \<and> (\<forall>q. engaged (goto p c s) q \<longrightarrow> i \<noteq> own_id s q))"
    and new: "\<And>lk. lk \<in> set (copies c) \<Longrightarrow> lk \<in> set (copies (pr_pc (ls_procs s p))) \<or> ls_store s (lk_id lk) = Some lk"
    and aw: "\<And>q. q \<noteq> p \<Longrightarrow> engaged s q \<Longrightarrow> engaged_pc c \<Longrightarrow>
      lk_exclusive (pr_lock (ls_procs s p)) \<or> lk_exclusive (pr_lock (ls_procs s q)) \<Longrightarrow>
      aware (pr_pc (ls_procs s p)) (own_id s q) \<Longrightarrow> aware c (own_id s q)"
  shows "lock_inv sys (goto p c s')"
proof -
  have i: "inv_static sys s" "inv_start s" "inv_stored s" "inv_copies s" "inv_aware s" using inv by (auto simp: lock_inv_def)
  have "inv_static sys (goto p c s')"
    using i(1) store held by (auto simp: inv_static_def systems_ok_def inj_def split: if_splits)
  moreover have "inv_start (goto p c s')"
    unfolding inv_start_def
  proof (intro allI impI)
    fix q assume q: "pr_pc (ls_procs (goto p c s') q) = PStart"
    then have qp: "q \<noteq> p" "pr_pc (ls_procs s q) = PStart" using pc store by (auto split: if_splits)
    then have st: "ls_store s (own_id s q) = None" "\<forall>p. own_id s q \<notin> lk_id ` set (copies (pr_pc (ls_procs s p)))"
      using i(2) by (auto simp: inv_start_def)
    have "own_id s q \<notin> lk_id ` set (copies c)" using new st by force
    moreover have "pr_pc (ls_procs (goto p c s') a) = (if a = p then c else pr_pc (ls_procs s a))" for a using store by auto
    ultimately have "own_id s q \<notin> lk_id ` set (copies (pr_pc (ls_procs (goto p c s') a)))" for a using st(2) by simp
    moreover have "own_id (goto p c s') q = own_id s q" "ls_store (goto p c s') (own_id s q) = None" using st(1) store by auto
    ultimately show "ls_store (goto p c s') (own_id (goto p c s') q) = None \<and>
        (\<forall>pa. own_id (goto p c s') q \<notin> lk_id ` set (copies (pr_pc (ls_procs (goto p c s') pa))))"
      by (simp only:) blast
  qed
  moreover have eng_old: "engaged (goto p c s') q \<Longrightarrow> engaged s q" for q using eng store by (auto split: if_splits)
  have "inv_stored (goto p c s')"
    unfolding inv_stored_def
  proof (intro allI impI)
    fix q assume e: "engaged (goto p c s') q"
    with i(3) eng_old obtain lk where lk: "ls_store s (own_id s q) = Some lk" "live_lock s q lk" unfolding inv_stored_def by blast
    have "engaged (goto p c s) q" using e store by auto
    then have "ls_store s' (own_id s q) = Some lk" using store lk(1) by auto
    moreover have "live_lock (goto p c s') q lk" using lk(2) store by (auto simp: live_lock_def)
    ultimately show "\<exists>lk. ls_store (goto p c s') (own_id (goto p c s') q) = Some lk \<and> live_lock (goto p c s') q lk"
      using store by auto
  qed
  moreover have "inv_copies (goto p c s')"
    unfolding inv_copies_def
  proof (intro allI impI ballI)
    fix q pa lk assume a: "engaged (goto p c s') q" "lk \<in> set (copies (pr_pc (ls_procs (goto p c s') pa)))" "lk_id lk = own_id (goto p c s') q"
    then have eq: "engaged s q" "lk_id lk = own_id s q" using eng_old store by auto
    have "live_lock s q lk"
    proof (cases "lk \<in> set (copies (pr_pc (ls_procs s pa)))")
      case True
      with i(4) eq show ?thesis by (auto simp: inv_copies_def)
    next
      case False
      with a(2) store have "pa = p" "lk \<in> set (copies c)" by (auto split: if_splits)
      with new False have "ls_store s (lk_id lk) = Some lk" by blast
      with i(3) eq show ?thesis by (auto simp: inv_stored_def)
    qed
    then show "live_lock (goto p c s') q lk" using store by (auto simp: live_lock_def)
  qed
  moreover have "inv_aware (goto p c s')"
    unfolding inv_aware_def
  proof (intro allI impI)
    fix a b assume ab: "a \<noteq> b" "engaged (goto p c s') a" "engaged (goto p c s') b"
      "lk_exclusive (pr_lock (ls_procs (goto p c s') a)) \<or> lk_exclusive (pr_lock (ls_procs (goto p c s') b))"
    then have ex: "lk_exclusive (pr_lock (ls_procs s a)) \<or> lk_exclusive (pr_lock (ls_procs s b))" using store by auto
    have old: "aware (pr_pc (ls_procs s a)) (own_id s b) \<or> aware (pr_pc (ls_procs s b)) (own_id s a)"
      using i(5) ab(1) eng_old [OF ab(2)] eng_old [OF ab(3)] ex by (auto simp: inv_aware_def)
    have keep: "aware (pr_pc (ls_procs (goto p c s') x)) (own_id s y)"
      if "aware (pr_pc (ls_procs s x)) (own_id s y)" "x \<noteq> y" "engaged (goto p c s') x" "engaged s y"
        "lk_exclusive (pr_lock (ls_procs s x)) \<or> lk_exclusive (pr_lock (ls_procs s y))" for x y
      using that aw [of y] store by (cases "x = p") auto
    have "aware (pr_pc (ls_procs (goto p c s') a)) (own_id s b) \<or> aware (pr_pc (ls_procs (goto p c s') b)) (own_id s a)"
      using old keep [of a b] keep [of b a] ab eng_old ex by blast
    then show "aware (pr_pc (ls_procs (goto p c s') a)) (own_id (goto p c s') b) \<or>
        aware (pr_pc (ls_procs (goto p c s') b)) (own_id (goto p c s') a)" using store by auto
  qed
  ultimately show ?thesis by (simp add: lock_inv_def)
qed

text \<open>Replacing a process's own lock by a refreshed copy.\<close>

definition set_proc :: "nat \<Rightarrow> proc \<Rightarrow> lock_state \<Rightarrow> lock_state" where
  "set_proc p pr s = s\<lparr>ls_procs := (ls_procs s)(p := pr)\<rparr>"

lemma set_proc_simps [simp]:
  "ls_store (set_proc p pr s) = ls_store s" "ls_now (set_proc p pr s) = ls_now s"
  "ls_procs (set_proc p pr s) q = (if q = p then pr else ls_procs s q)"
  by (simp_all add: set_proc_def)

text \<open>A step that changes only the time stamp and the refresh flag of one process.\<close>

lemma lock_inv_touch:
  assumes inv: "lock_inv sys s" and pc: "pr_pc pr = pr_pc (ls_procs s p)" and same: "same_lock (pr_lock pr) (pr_lock (ls_procs s p))"
    and ref: "pr_refreshing pr \<Longrightarrow> pr_pc (ls_procs s p) \<in> {PHeld, PReleased}"
    and store: "s' = s \<or> s' = put_lock lk s" and lk: "lk = lock_refresh (ls_now s) (pr_lock (ls_procs s p))"
    and start: "pr_pc (ls_procs s p) \<noteq> PStart"
  shows "lock_inv sys (set_proc p pr s')"
proof -
  let ?s = "set_proc p pr s'"
  have i: "inv_static sys s" "inv_start s" "inv_stored s" "inv_copies s" "inv_aware s" using inv by (auto simp: lock_inv_def)
  have pcs: "pr_pc (ls_procs ?s q) = pr_pc (ls_procs s q)" for q using pc store by auto
  have locks: "same_lock (pr_lock (ls_procs ?s q)) (pr_lock (ls_procs s q))" for q using same store by auto
  have own: "own_id ?s q = own_id s q" for q using locks [of q] by (simp add: own_id_def same_lock_fields)
  have own_fun: "own_id ?s = own_id s" by (rule ext) (rule own)
  have eng: "engaged ?s q = engaged s q" for q unfolding engaged_def pcs ..
  have now: "ls_now ?s = ls_now s" using store by auto
  have lk_own: "lk_id lk = own_id s p" by (simp add: lk own_id_def)
  have live: "live_lock ?s q l = live_lock s q l" for q l
    unfolding live_lock_def now same_lock_cong [OF locks] ..
  have st: "ls_store ?s i = (if s' = s then ls_store s i else if i = own_id s p then Some lk else ls_store s i)" for i
    using store lk_own by auto
  have "inv_static sys ?s"
  proof -
    have "process_alive (sys a t) (pr_lock (ls_procs ?s q))" for a t q
      using i(1) same_lock_alive [OF locks [of q], of "sys a t"] by (simp add: inv_static_def systems_ok_def)
    moreover have "pr_refreshing (ls_procs ?s q) \<Longrightarrow> pr_pc (ls_procs ?s q) \<in> {PHeld, PReleased}" for q
      using i(1) ref store pc by (auto simp: inv_static_def split: if_splits)
    moreover have "ls_store ?s a = Some l \<Longrightarrow> lk_id l = a" for a l
      using i(1) st [of a] lk_own by (auto simp: inv_static_def split: if_splits)
    ultimately show ?thesis using i(1) by (auto simp: inv_static_def systems_ok_def own_fun)
  qed
  moreover have "inv_start ?s"
  proof -
    have "q \<noteq> p \<and> own_id s q \<noteq> own_id s p" if "pr_pc (ls_procs s q) = PStart" for q
      using that start i(1) by (metis inv_static_def injD)
    with i(2) show ?thesis unfolding inv_start_def pcs own st by auto
  qed
  moreover have "inv_stored ?s"
    unfolding inv_stored_def eng own live
  proof (intro allI impI)
    fix q assume q: "engaged s q"
    have "live_lock s p lk" by (simp add: live_lock_def lk)
    moreover have "own_id s q = own_id s p \<Longrightarrow> q = p" using i(1) by (auto simp: inv_static_def dest: injD)
    ultimately show "\<exists>l. ls_store ?s (own_id s q) = Some l \<and> live_lock s q l"
      using i(3) q st [of "own_id s q"] by (auto simp: inv_stored_def)
  qed
  moreover have "inv_copies ?s" using i(4) unfolding inv_copies_def eng own live pcs .
  moreover have "inv_aware ?s"
  proof -
    have "lk_exclusive (pr_lock (ls_procs ?s q)) = lk_exclusive (pr_lock (ls_procs s q))" for q
      using locks [of q] by (simp only: same_lock_fields)
    then show ?thesis using i(5) unfolding inv_aware_def eng own pcs by blast
  qed
  ultimately show ?thesis by (simp add: lock_inv_def)
qed

lemma lock_inv_tick: "lock_inv sys s \<Longrightarrow> timely s now \<Longrightarrow> lock_inv sys (s\<lparr>ls_now := now\<rparr>)"
proof -
  assume inv: "lock_inv sys s" and t: "timely s now"
  let ?s = "s\<lparr>ls_now := now\<rparr>"
  have own: "own_id ?s q = own_id s q" and eng: "engaged ?s q = engaged s q" for q by (simp_all add: own_id_def engaged_def)
  then have "own_id ?s = own_id s" by auto
  moreover have "inv_stored ?s" using inv t
    by (fastforce simp: lock_inv_def inv_stored_def live_lock_def timely_def own eng)
  moreover have "inv_copies ?s" using inv t
    by (fastforce simp: lock_inv_def inv_copies_def live_lock_def timely_def own eng)
  ultimately show ?thesis using inv
    by (auto simp: lock_inv_def inv_static_def systems_ok_def inv_start_def inv_aware_def eng)
qed

text \<open>The first write: nobody knows the lock yet, and its owner has not looked at anyone.\<close>

lemma lock_inv_write:
  assumes inv: "lock_inv sys s" and pc: "pr_pc (ls_procs s p) = PStart" and lk: "lk = lock_refresh (ls_now s) (pr_lock (ls_procs s p))"
  shows "lock_inv sys (put_lock lk (set_proc p ((ls_procs s p)\<lparr>pr_lock := lk, pr_pc := PWritten\<rparr>) s))"
proof -
  let ?s = "put_lock lk (set_proc p ((ls_procs s p)\<lparr>pr_lock := lk, pr_pc := PWritten\<rparr>) s)"
  have i: "inv_static sys s" "inv_start s" "inv_stored s" "inv_copies s" "inv_aware s" using inv by (auto simp: lock_inv_def)
  have same: "same_lock (pr_lock (ls_procs ?s q)) (pr_lock (ls_procs s q))" for q by (simp add: lk)
  have own: "own_id ?s q = own_id s q" for q using same [of q] by (simp add: own_id_def same_lock_fields)
  have own_fun: "own_id ?s = own_id s" by (rule ext) (rule own)
  have pcs: "pr_pc (ls_procs ?s q) = (if q = p then PWritten else pr_pc (ls_procs s q))" for q by simp
  have eng: "engaged ?s q = (q = p \<or> engaged s q)" for q unfolding engaged_def pcs by simp
  have live: "live_lock ?s q l = live_lock s q l" for q l
    unfolding live_lock_def same_lock_cong [OF same] by simp
  have st: "ls_store ?s i = (if i = own_id s p then Some lk else ls_store s i)" for i by (simp add: lk own_id_def)
  have inj: "own_id s q = own_id s p \<longleftrightarrow> q = p" for q
    using i(1) by (simp add: inv_static_def inj_eq)
  have fresh: "own_id s p \<notin> lk_id ` set (copies (pr_pc (ls_procs s q)))" for q
    using i(2) pc unfolding inv_start_def by blast
  have "inv_static sys ?s"
    unfolding inv_static_def systems_ok_def own_fun
  proof (intro conjI allI impI)
    show "sy_now (sys a t) = t" for a t using i(1) by (simp add: inv_static_def systems_ok_def)
    show "process_alive (sys a t) (pr_lock (ls_procs ?s q))" for a t q
      using i(1) unfolding same_lock_alive [OF same] inv_static_def systems_ok_def by blast
    show "inj (own_id s)" using i(1) by (simp add: inv_static_def)
    show "lk_id l = a" if "ls_store ?s a = Some l" for a l
    proof (cases "a = own_id s p")
      case True
      with that have "l = lk" unfolding st by simp
      with True show ?thesis by (simp add: lk own_id_def)
    next
      case False
      with that i(1) show ?thesis unfolding st inv_static_def by simp
    qed
    show "pr_pc (ls_procs ?s q) \<in> {PHeld, PReleased}" if "pr_refreshing (ls_procs ?s q)" for q
    proof (cases "q = p")
      case True
      with that have "pr_refreshing (ls_procs s p)" by simp
      with i(1) pc show ?thesis unfolding inv_static_def by fastforce
    next
      case False
      with that i(1) show ?thesis unfolding inv_static_def by simp
    qed
  qed
  moreover have "inv_start ?s"
    unfolding inv_start_def own
  proof (intro allI impI)
    fix q assume "pr_pc (ls_procs ?s q) = PStart"
    then have q: "q \<noteq> p" "pr_pc (ls_procs s q) = PStart" by (simp_all split: if_splits)
    with i(2) have "ls_store s (own_id s q) = None" "own_id s q \<notin> lk_id ` set (copies (pr_pc (ls_procs s a)))" for a
      unfolding inv_start_def by blast+
    with q inj show "ls_store ?s (own_id s q) = None \<and> (\<forall>a. own_id s q \<notin> lk_id ` set (copies (pr_pc (ls_procs ?s a))))"
      unfolding st pcs by simp
  qed
  moreover have "inv_stored ?s"
    unfolding inv_stored_def eng own live
  proof (intro allI impI)
    fix q assume q: "q = p \<or> engaged s q"
    show "\<exists>l. ls_store ?s (own_id s q) = Some l \<and> live_lock s q l"
    proof (cases "q = p")
      case True
      then show ?thesis unfolding st by (simp add: live_lock_def lk)
    next
      case False
      with q i(3) inj show ?thesis unfolding st inv_stored_def by simp
    qed
  qed
  moreover have "inv_copies ?s"
    unfolding inv_copies_def
  proof (intro allI impI ballI)
    fix q a l assume x: "engaged ?s q" "l \<in> set (copies (pr_pc (ls_procs ?s a)))" "lk_id l = own_id ?s q"
    then have l: "l \<in> set (copies (pr_pc (ls_procs s a)))" by (auto split: if_splits)
    with fresh [of a] x(3) [unfolded own] have "q \<noteq> p" by (metis image_eqI)
    with x(1) [unfolded eng] have "engaged s q" by blast
    with i(4) l x(3) [unfolded own] show "live_lock ?s q l" unfolding live inv_copies_def by blast
  qed
  moreover have "inv_aware ?s"
    unfolding inv_aware_def
  proof (intro allI impI)
    fix a b assume ab: "a \<noteq> b" "engaged ?s a" "engaged ?s b"
      "lk_exclusive (pr_lock (ls_procs ?s a)) \<or> lk_exclusive (pr_lock (ls_procs ?s b))"
    show "aware (pr_pc (ls_procs ?s a)) (own_id ?s b) \<or> aware (pr_pc (ls_procs ?s b)) (own_id ?s a)"
    proof (cases "a = p \<or> b = p")
      case True
      then show ?thesis by (auto simp: aware_def)
    next
      case False
      then have "engaged s a" "engaged s b" using ab(2,3) [unfolded eng] by blast+
      moreover have "pr_pc (ls_procs ?s a) = pr_pc (ls_procs s a)" "pr_pc (ls_procs ?s b) = pr_pc (ls_procs s b)"
        using False by simp_all
      moreover have "lk_exclusive (pr_lock (ls_procs s a)) \<or> lk_exclusive (pr_lock (ls_procs s b))"
        using ab(4) False by simp
      ultimately show ?thesis using ab(1) i(5) unfolding own inv_aware_def by auto
    qed
  qed
  ultimately show ?thesis by (simp add: lock_inv_def)
qed

lemma judge_stale:
  assumes "lock_inv sys s" "pr_pc (ls_procs s p) = PChecking (lk # ls)" "is_stale (sys p (ls_now s)) lk" "engaged s q"
  shows "lk_id lk \<noteq> own_id s q"
proof
  assume own: "lk_id lk = own_id s q"
  have "lk \<in> set (copies (pr_pc (ls_procs s p)))" using assms(2) by simp
  with own assms(1,4) have "live_lock s q lk" unfolding lock_inv_def inv_copies_def by blast
  then have "process_alive (sys p (ls_now s)) lk" "\<not> is_expired (ls_now s) lk"
    using assms(1) same_lock_alive [of lk "pr_lock (ls_procs s q)" "sys p (ls_now s)"]
    by (simp_all add: live_lock_def lock_inv_def inv_static_def systems_ok_def)
  moreover have "sy_now (sys p (ls_now s)) = ls_now s" using assms(1) by (simp add: lock_inv_def inv_static_def systems_ok_def)
  ultimately show False using assms(3) by (simp add: is_stale_def)
qed

text \<open>The lock of an engaged process is in the store and carries the owner's mode.\<close>

lemma stored_engaged:
  assumes "lock_inv sys s" "engaged s q"
  shows "own_id s q \<in> dom (ls_store s)"
  using assms unfolding lock_inv_def inv_stored_def by blast

lemma copy_mode:
  assumes "lock_inv sys s" "engaged s q" "lk \<in> set (copies (pr_pc (ls_procs s p)))" "lk_id lk = own_id s q"
  shows "lk_exclusive lk = lk_exclusive (pr_lock (ls_procs s q))"
proof -
  have "live_lock s q lk" using assms unfolding lock_inv_def inv_copies_def by blast
  then show ?thesis by (simp add: live_lock_def same_lock_fields)
qed

lemma not_refreshing:
  "lock_inv sys s \<Longrightarrow> pr_refreshing (ls_procs s p) \<Longrightarrow> pr_pc (ls_procs s p) \<in> {PHeld, PReleased}"
  unfolding lock_inv_def inv_static_def by blast

lemma store_key: "lock_inv sys s \<Longrightarrow> ls_store s i = Some lk \<Longrightarrow> lk_id lk = i"
  unfolding lock_inv_def inv_static_def by blast

lemma own_inj: "lock_inv sys s \<Longrightarrow> own_id s p = own_id s q \<Longrightarrow> p = q"
  unfolding lock_inv_def inv_static_def by (meson injD)

lemma fail_inv:
  assumes "lock_inv sys s" "pr_pc (ls_procs s p) \<notin> {PHeld, PReleased}" "s' \<in> {s, drop_lock (own_id s p) s}"
  shows "lock_inv sys (goto p PFailed s')"
  using assms own_inj [OF assms(1), of p] not_refreshing [OF assms(1), of p]
  by (intro lock_inv_goto [OF assms(1)]) (auto split: if_splits)

lemma lock_step_inv: "lock_step sys False s s' \<Longrightarrow> lock_inv sys s \<Longrightarrow> lock_inv sys s'"
proof (induction rule: lock_step.induct)
  case (start s p lk)
  have eq: "goto p PWritten (put_lock lk (s\<lparr>ls_procs := (ls_procs s)(p := (ls_procs s p)\<lparr>pr_lock := lk\<rparr>)\<rparr>)) =
      put_lock lk (set_proc p ((ls_procs s p)\<lparr>pr_lock := lk, pr_pc := PWritten\<rparr>) s)"
    by (simp add: goto_def put_lock_def set_proc_def)
  show ?case unfolding eq by (rule lock_inv_write [OF start(3) start(1,2)])
next
  case (start_fails s p)
  then show ?case by (intro fail_inv) auto
next
  case (listing s p ids)
  show ?case
  proof (rule lock_inv_goto [OF listing(3)])
    show "engaged s p" using listing(1) by (simp add: engaged_def)
    show "aware (PReading ids []) (own_id s q)" if "engaged s q" for q
      using stored_engaged [OF listing(3) that] listing(2) by (simp add: aware_def)
  qed (use listing not_refreshing [OF listing(3), of p] in auto)
next
  case (listing_fails s p s')
  then show ?case by (intro fail_inv) auto
next
  case (read_one s p i ids ls)
  let ?c = "PReading ids (case ls_store s i of Some lk \<Rightarrow> ls @ [lk] | None \<Rightarrow> ls)"
  show ?case
  proof (rule lock_inv_goto [OF read_one(2)])
    show "engaged s p" using read_one(1) by (simp add: engaged_def)
    show "lk \<in> set (copies (pr_pc (ls_procs s p))) \<or> ls_store s (lk_id lk) = Some lk" if "lk \<in> set (copies ?c)" for lk
      using that read_one(1) store_key [OF read_one(2), of i] by (auto split: option.splits)
    show "aware ?c (own_id s q)" if "engaged s q" "aware (pr_pc (ls_procs s p)) (own_id s q)" for q
      using that read_one(1) stored_engaged [OF read_one(2) that(1)] store_key [OF read_one(2), of i]
      by (auto simp: aware_def split: option.splits)
  qed (use read_one not_refreshing [OF read_one(2), of p] in auto)
next
  case (read_fails s p i ids ls)
  then show ?case by simp
next
  case (all_read s p ls)
  then show ?case
    using not_refreshing [OF all_read(2), of p] by (intro lock_inv_goto) (auto simp: engaged_def aware_def)
next
  case (skip s p lk ls)
  show ?case
  proof (rule lock_inv_goto [OF skip(3)])
    show "engaged s p" using skip(1) by (simp add: engaged_def)
    show "aware (PChecking ls) (own_id s q)"
      if "q \<noteq> p" "engaged s q" "lk_exclusive (pr_lock (ls_procs s p)) \<or> lk_exclusive (pr_lock (ls_procs s q))"
        "aware (pr_pc (ls_procs s p)) (own_id s q)" for q
    proof -
      have "lk_id lk \<noteq> own_id s q"
      proof
        assume own: "lk_id lk = own_id s q"
        moreover have "lk_id lk \<noteq> own_id s p" using own own_inj [OF skip(3)] that(1) by metis
        moreover have "lk_exclusive lk = lk_exclusive (pr_lock (ls_procs s q))"
          using copy_mode [OF skip(3) that(2), of lk p] own skip(1) by simp
        ultimately show False using skip(2) that(3) by (auto simp: judge_def split: if_splits)
      qed
      with that(4) skip(1) show ?thesis by (auto simp: aware_def)
    qed
  qed (use skip not_refreshing [OF skip(3), of p] in auto)
next
  case (stale s p lk ls s')
  have st: "is_stale (sys p (ls_now s)) lk" using stale(2) by (auto simp: judge_def split: if_splits)
  note other = judge_stale [OF stale(4,1) st]
  have eng: "engaged s p" using stale(1) by (simp add: engaged_def)
  show ?case
  proof (rule lock_inv_goto [OF stale(4)])
    show "engaged s p" by (fact eng)
    show "s' = s \<or> (\<exists>i. s' = drop_lock i s \<and> (\<forall>q. engaged (goto p (PChecking ls) s) q \<longrightarrow> i \<noteq> own_id s q))"
      using stale(3) other eng by auto
    show "aware (PChecking ls) (own_id s q)" if "engaged s q" "aware (pr_pc (ls_procs s p)) (own_id s q)" for q
      using that(2) stale(1) other [OF that(1)] by (auto simp: aware_def)
  qed (use stale not_refreshing [OF stale(4), of p] in auto)
next
  case (conflict s p lk ls s')
  then show ?case by (intro fail_inv) auto
next
  case (acquired s p)
  then show ?case by (intro lock_inv_goto) (auto simp: engaged_def aware_def)
next
  case (refresh_begin s p)
  then show ?case
    using lock_inv_touch [where pr = "(ls_procs s p)\<lparr>pr_refreshing := True\<rparr>" and s' = s and p = p, OF _ _ _ _ _ refl]
    by (auto simp: set_proc_def)
next
  case (refresh_write s p lk s')
  have "pr_pc (ls_procs s p) \<in> {PHeld, PReleased}" using not_refreshing [OF refresh_write(4,1)] .
  then have "lock_inv sys (set_proc p ((ls_procs s p)\<lparr>pr_lock := lk, pr_refreshing := False\<rparr>) s')"
    using refresh_write by (intro lock_inv_touch [OF refresh_write(4) _ _ _ _ refresh_write(2)]) auto
  moreover have "ls_procs s' = ls_procs s" using refresh_write(3) by auto
  ultimately show ?case by (simp add: set_proc_def)
next
  case (release s p s')
  then show ?case using own_inj [OF release(3), of p]
    by (intro lock_inv_goto) (auto split: if_splits)
next
  case (tick now s)
  then show ?case by (intro lock_inv_tick)
qed

lemma lock_inv_init: "lock_init s \<Longrightarrow> systems_ok sys s \<Longrightarrow> lock_inv sys s"
  by (auto simp: lock_init_def lock_inv_def inv_static_def inv_start_def inv_stored_def inv_copies_def inv_aware_def engaged_def)

lemma lock_run_inv: "(lock_step sys False)\<^sup>*\<^sup>* s0 s \<Longrightarrow> lock_init s0 \<Longrightarrow> systems_ok sys s0 \<Longrightarrow> lock_inv sys s"
  by (induction rule: rtranclp_induct) (auto intro: lock_inv_init lock_step_inv)

section \<open>Runs\<close>

lemma goto_goto [simp]: "goto p c (goto p d s) = goto p c s"
  by (simp add: goto_def)

definition written :: "nat \<Rightarrow> lock_state \<Rightarrow> lock_state" where
  "written p s =
     (let lk = lock_refresh (ls_now s) (pr_lock (ls_procs s p))
      in put_lock lk (s\<lparr>ls_procs := (ls_procs s)(p := (ls_procs s p)\<lparr>pr_lock := lk\<rparr>)\<rparr>))"

lemma run_read:
  "(lock_step sys reads_fail)\<^sup>*\<^sup>* (goto p (PReading ids ls) s) (goto p (PChecking (ls @ List.map_filter (ls_store s) ids)) s)"
proof (induction ids arbitrary: ls)
  case Nil
  have "lock_step sys reads_fail (goto p (PReading [] ls) s) (goto p (PChecking ls) (goto p (PReading [] ls) s))"
    by (rule lock_step.all_read) simp
  then show ?case by (simp add: List.map_filter_def)
next
  case (Cons i ids)
  let ?ls = "case ls_store s i of Some lk \<Rightarrow> ls @ [lk] | None \<Rightarrow> ls"
  have "lock_step sys reads_fail (goto p (PReading (i # ids) ls) s)
      (goto p (PReading ids (case ls_store (goto p (PReading (i # ids) ls) s) i of Some lk \<Rightarrow> ls @ [lk] | None \<Rightarrow> ls))
         (goto p (PReading (i # ids) ls) s))"
    by (rule lock_step.read_one) simp
  then have "lock_step sys reads_fail (goto p (PReading (i # ids) ls) s) (goto p (PReading ids ?ls) s)" by simp
  moreover have "?ls @ List.map_filter (ls_store s) ids = ls @ List.map_filter (ls_store s) (i # ids)"
    by (simp add: List.map_filter_def split: option.split)
  ultimately show ?case using Cons [of ?ls] by (simp add: converse_rtranclp_into_rtranclp)
qed

lemma run_skip:
  assumes "\<forall>lk\<in>set ls. judge (sys p (ls_now s)) (own_id s p) (lk_exclusive (pr_lock (ls_procs s p))) lk = SkipLock"
  shows "(lock_step sys reads_fail)\<^sup>*\<^sup>* (goto p (PChecking ls) s) (goto p PHeld s)"
  using assms
proof (induction ls)
  case Nil
  have "lock_step sys reads_fail (goto p (PChecking []) s) (goto p PHeld (goto p (PChecking []) s))"
    by (rule lock_step.acquired) simp
  then show ?case by simp
next
  case (Cons lk ls)
  have "lock_step sys reads_fail (goto p (PChecking (lk # ls)) s) (goto p (PChecking ls) (goto p (PChecking (lk # ls)) s))"
    using Cons.prems by (intro lock_step.skip) auto
  with Cons show ?case by (simp add: converse_rtranclp_into_rtranclp)
qed

text \<open>An attempt that meets no conflict acquires the lock.\<close>

lemma run_attempt:
  assumes "pr_pc (ls_procs s p) = PStart" "set ids = dom (ls_store (written p s))"
    "\<forall>lk\<in>ran (ls_store (written p s)).
       judge (sys p (ls_now s)) (own_id s p) (lk_exclusive (pr_lock (ls_procs s p))) lk = SkipLock"
  shows "(lock_step sys reads_fail)\<^sup>*\<^sup>* s (goto p PHeld (written p s))"
proof -
  let ?w = "written p s" and ?ls = "[] @ List.map_filter (ls_store (written p s)) ids"
  have fields: "ls_now ?w = ls_now s" "own_id ?w p = own_id s p"
    "lk_exclusive (pr_lock (ls_procs ?w p)) = lk_exclusive (pr_lock (ls_procs s p))"
    by (simp_all add: written_def Let_def own_id_def)
  have "set ?ls \<subseteq> ran (ls_store ?w)" by (auto simp: List.map_filter_def ran_def)
  with assms(3) have judged: "\<forall>lk\<in>set ?ls. judge (sys p (ls_now ?w)) (own_id ?w p) (lk_exclusive (pr_lock (ls_procs ?w p))) lk = SkipLock"
    unfolding fields by blast
  have "lock_step sys reads_fail s (goto p PWritten ?w)"
    using lock_step.start [OF assms(1) refl] by (simp add: written_def Let_def)
  moreover have "lock_step sys reads_fail (goto p PWritten ?w) (goto p (PReading ids []) ?w)"
    using lock_step.listing [of "goto p PWritten ?w" p ids] assms(2) by simp
  ultimately have "(lock_step sys reads_fail)\<^sup>*\<^sup>* s (goto p (PReading ids []) ?w)" by auto
  also note run_read
  also note run_skip [of ?ls sys p ?w, OF judged]
  finally show ?thesis .
qed

section \<open>Mutual exclusion of every run\<close>

text \<open>C30: Mutual exclusion. Whatever the interleaving of attempts, refreshes, releases and failed
  writes, listings and deletions, two processes never hold the lock at the same time if one of them asked
  for it exclusively, provided that a lock file that is there can be read, that locks are refreshed in time
  and that no live process is taken for dead.\<close>

theorem lock_mutex:
  assumes "lock_init s0" "systems_ok sys s0" "(lock_step sys False)\<^sup>*\<^sup>* s0 s" "p \<noteq> q"
    "pr_pc (ls_procs s p) = PHeld" "pr_pc (ls_procs s q) = PHeld"
  shows "\<not> lk_exclusive (pr_lock (ls_procs s p)) \<and> \<not> lk_exclusive (pr_lock (ls_procs s q))"
proof -
  have "inv_aware s" using lock_run_inv [OF assms(3,1,2)] by (simp add: lock_inv_def)
  moreover have "engaged s p" "engaged s q" "\<not> aware (pr_pc (ls_procs s p)) i" "\<not> aware (pr_pc (ls_procs s q)) i" for i
    using assms(5,6) by (simp_all add: engaged_def aware_def)
  ultimately show ?thesis using assms(4) unfolding inv_aware_def by blast
qed

text \<open>Two processes that hold the lock together, shared.\<close>

definition two_init :: lock_state where
  "two_init = \<lparr>ls_store = Map.empty,
     ls_procs = (\<lambda>p. \<lparr>pr_lock = \<lparr>lk_id = ID (replicate p 0), lk_timestamp = 0, lk_exclusive = False, lk_hostname = [],
       lk_username = [], lk_pid = 1, lk_context = [], lk_creation_time = None\<rparr>, pr_pc = PStart, pr_refreshing = False\<rparr>),
     ls_now = 7\<rparr>"

definition two_systems :: "nat \<Rightarrow> int \<Rightarrow> system" where
  "two_systems p now = \<lparr>sy_now = now, sy_hostname = Some ''host'', sy_username = None, sy_pid = 1, sy_args = [],
     sy_pid_exists = (\<lambda>pid. False)\<rparr>"

definition two_held :: lock_state where
  "two_held = goto 1 PHeld (written 1 (goto 0 PHeld (written 0 two_init)))"

lemma two_ok: "lock_init two_init" "systems_ok two_systems two_init"
  by (auto simp: lock_init_def systems_ok_def two_init_def two_systems_def own_id_def inj_def process_alive_def)

lemma two_run: "(lock_step two_systems reads_fail)\<^sup>*\<^sup>* two_init two_held"
proof -
  note sims = two_init_def written_def Let_def lock_refresh_def own_id_def judge_def is_stale_def is_expired_def
    two_systems_def process_alive_def LOCK_EXPIRE_TIMEOUT_def
  have "(lock_step two_systems reads_fail)\<^sup>*\<^sup>* two_init (goto 0 PHeld (written 0 two_init))"
    by (rule run_attempt [where ids = "[ID []]"]) (auto simp: sims)
  also have "(lock_step two_systems reads_fail)\<^sup>*\<^sup>* (goto 0 PHeld (written 0 two_init)) two_held"
    unfolding two_held_def by (rule run_attempt [where ids = "[ID [], ID [0]]"]) (auto simp: sims)
  finally show ?thesis .
qed

theorem lock_mutex_witness:
  "(lock_step two_systems False)\<^sup>*\<^sup>* two_init two_held \<and> pr_pc (ls_procs two_held 0) = PHeld \<and>
   pr_pc (ls_procs two_held 1) = PHeld \<and> \<not> lk_exclusive (pr_lock (ls_procs two_held 0))"
proof -
  have held: "pr_pc (ls_procs two_held 0) = PHeld" "pr_pc (ls_procs two_held 1) = PHeld"
    by (simp_all add: two_held_def written_def Let_def)
  show ?thesis using lock_mutex [OF two_ok two_run zero_neq_one held] held two_run by blast
qed

end
