(* ===== verification/FsFilter.thy ===== *)
theory FsFilter
  imports Backend "HOL-Library.Sublist"
begin

unbundle bit_operations_syntax

text \<open>
  Path filters (\<open>fs/filter.rs\<close>): wildcards inside a path component, glob rules over components as a
  bit-parallel automaton with a greedy fallback, the path trie, and the filter built from them.

  A path is its list of components, a component its bytes (a \<open>string\<close>). \<open>wild_spec\<close>, \<open>glob_match\<close> and
  \<open>glob_prefix\<close> are the declarative meaning of patterns; the matchers of the code are proved equal to them.
  Prefixes of paths are the \<open>prefix\<close> relation of the library.
\<close>

section \<open>Wildcards in a component\<close>

text \<open>The pattern bytes from \<open>pi\<close> on with the leading stars removed: the inner \<open>while\<close> of the code.\<close>

function skip_stars :: "string \<Rightarrow> nat \<Rightarrow> nat" where
  "skip_stars pat pi = (if pi < length pat \<and> pat ! pi = CHR ''*'' then skip_stars pat (pi + 1) else pi)"
  by pat_completeness auto

termination skip_stars
  by (relation "measure (\<lambda>(pat, pi). length pat - pi)") auto

declare skip_stars.simps [simp del]

lemma skip_stars_ge: "pi \<le> skip_stars pat pi"
  by (induction pat pi rule: skip_stars.induct) (subst skip_stars.simps, auto)

lemma skip_stars_le: "pi \<le> length pat \<Longrightarrow> skip_stars pat pi \<le> length pat"
  by (induction pat pi rule: skip_stars.induct) (subst skip_stars.simps, auto)

lemma skip_stars_gr: "pi < length pat \<Longrightarrow> pat ! pi = CHR ''*'' \<Longrightarrow> pi < skip_stars pat pi"
  using skip_stars_ge [of "pi + 1" pat] by (subst skip_stars.simps) simp

text \<open>The main loop. \<open>star_pi\<close> is the position after the last star, \<open>star_ti\<close> the text position it was met at.\<close>

function wild_loop :: "string \<Rightarrow> string \<Rightarrow> nat \<Rightarrow> nat \<Rightarrow> nat option \<Rightarrow> nat \<Rightarrow> bool" where
  "wild_loop pat tx pi ti star_pi star_ti =
     (if ti < length tx then
        if pi < length pat \<and> (pat ! pi = CHR ''?'' \<or> pat ! pi = tx ! ti)
        then wild_loop pat tx (pi + 1) (ti + 1) star_pi star_ti
        else if pi < length pat \<and> pat ! pi = CHR ''*''
        then wild_loop pat tx (skip_stars pat pi) ti (Some (skip_stars pat pi)) ti
        else case star_pi of
            Some sp \<Rightarrow> wild_loop pat tx sp (star_ti + 1) star_pi (star_ti + 1)
          | None \<Rightarrow> False
      else skip_stars pat pi = length pat)"
  by pat_completeness auto

termination wild_loop
  by (relation "measures [\<lambda>(pat, tx, pi, ti, sp, st). if st \<le> ti then 0 else 1,
    \<lambda>(pat, tx, pi, ti, sp, st). length tx - st, \<lambda>(pat, tx, pi, ti, sp, st). length pat - pi]")
    (auto simp: diff_less_mono2 skip_stars_gr)

declare wild_loop.simps [simp del]

definition wildmatch_bytes :: "string \<Rightarrow> string \<Rightarrow> bool" where
  "wildmatch_bytes pat tx = wild_loop pat tx 0 0 None 0"

text \<open>What a wildcard pattern means: a question mark is any byte, a star is any sequence of bytes.\<close>

fun wild_spec :: "string \<Rightarrow> string \<Rightarrow> bool" where
  "wild_spec [] tx = (tx = [])"
| "wild_spec (p # ps) tx =
     (if p = CHR ''*'' then \<exists>k\<le>length tx. wild_spec ps (drop k tx)
      else case tx of [] \<Rightarrow> False | t # ts \<Rightarrow> (p = CHR ''?'' \<or> p = t) \<and> wild_spec ps ts)"

text \<open>A star may take more: the rest may match anywhere further on.\<close>

lemma wild_star_drop:
  assumes "wild_spec (CHR ''*'' # ps) (drop k tx)" "k \<le> length tx" "j \<le> k"
  shows "wild_spec (CHR ''*'' # ps) (drop j tx)"
proof -
  from assms obtain i where i: "i \<le> length tx - k" "wild_spec ps (drop (i + k) tx)" by auto
  with assms(2,3) have "i + k - j \<le> length tx - j" "wild_spec ps (drop (i + k - j) (drop j tx))" by auto
  then show ?thesis unfolding wild_spec.simps by (auto simp del: drop_drop)
qed

lemma wild_star_iff:
  "ti \<le> length tx \<Longrightarrow>
     wild_spec (CHR ''*'' # ps) (drop ti tx) \<longleftrightarrow> (\<exists>k. ti \<le> k \<and> k \<le> length tx \<and> wild_spec ps (drop k tx))"
  by auto (metis le_add1 le_diff_conv2 add.commute, metis add_diff_inverse_nat diff_le_mono not_less add.commute)

lemma wild_star_star: "wild_spec (CHR ''*'' # CHR ''*'' # ps) tx = wild_spec (CHR ''*'' # ps) tx"
proof
  assume "wild_spec (CHR ''*'' # CHR ''*'' # ps) tx"
  then obtain k where "k \<le> length tx" "wild_spec (CHR ''*'' # ps) (drop k tx)" by (subst (asm) wild_spec.simps) auto
  then show "wild_spec (CHR ''*'' # ps) tx" using wild_star_drop [of ps k tx 0] by simp
next
  assume "wild_spec (CHR ''*'' # ps) tx"
  then have "0 \<le> length tx \<and> wild_spec (CHR ''*'' # ps) (drop 0 tx)" by simp
  then show "wild_spec (CHR ''*'' # CHR ''*'' # ps) tx" by (subst wild_spec.simps) (simp only: simp_thms if_True, blast)
qed

lemma skip_stars_spec:
  "pi < length pat \<Longrightarrow> pat ! pi = CHR ''*'' \<Longrightarrow>
     wild_spec (drop pi pat) tx = wild_spec (CHR ''*'' # drop (skip_stars pat pi) pat) tx"
proof (induction pat pi rule: skip_stars.induct)
  case (1 pat pi)
  have d: "drop pi pat = CHR ''*'' # drop (pi + 1) pat" using 1(2,3) by (simp add: Cons_nth_drop_Suc [symmetric])
  show ?case
  proof (cases "pi + 1 < length pat \<and> pat ! (pi + 1) = CHR ''*''")
    case True
    then have "drop (pi + 1) pat = CHR ''*'' # drop (pi + 2) pat" by (simp add: Cons_nth_drop_Suc [symmetric])
    then have "wild_spec (drop pi pat) tx = wild_spec (drop (pi + 1) pat) tx" unfolding d by (simp only: wild_star_star)
    moreover have "skip_stars pat pi = skip_stars pat (pi + 1)" using 1(2,3) by (subst skip_stars.simps) simp
    ultimately show ?thesis using 1 True by simp
  next
    case False
    then have "skip_stars pat pi = pi + 1" using 1(2,3) by (subst skip_stars.simps) (auto simp: skip_stars.simps [of pat "Suc pi"])
    then show ?thesis unfolding d by simp
  qed
qed

lemma skip_stars_end: "pi \<le> length pat \<Longrightarrow> skip_stars pat pi = length pat \<longleftrightarrow> wild_spec (drop pi pat) []"
proof (induction pat pi rule: skip_stars.induct)
  case (1 pat pi)
  show ?case
  proof (cases "pi < length pat \<and> pat ! pi = CHR ''*''")
    case True
    then show ?thesis using 1 by (subst skip_stars.simps) (simp add: Cons_nth_drop_Suc [symmetric])
  next
    case False
    then show ?thesis using 1(2)
      by (subst skip_stars.simps) (cases "pi = length pat", simp_all add: Cons_nth_drop_Suc [symmetric])
  qed
qed

text \<open>Consuming a star-free segment.\<close>

lemma wild_segment:
  assumes "wild_spec (seg @ ps) tx" "CHR ''*'' \<notin> set seg"
  shows "length seg \<le> length tx \<and> wild_spec ps (drop (length seg) tx)"
  using assms by (induction seg arbitrary: tx) (auto split: list.splits)

lemma split_at: "i \<le> j \<Longrightarrow> drop i xs = take (j - i) (drop i xs) @ drop j xs"
  by (metis append_take_drop_id drop_drop le_add_diff_inverse2)

lemma slice_snoc: "i \<le> j \<Longrightarrow> j < length xs \<Longrightarrow> slice i (Suc j) xs = slice i j xs @ [xs ! j]"
  by (simp add: slice_def Suc_diff_le take_Suc_conv_app_nth)

lemma later_split: "(\<exists>k. i < k \<and> k \<le> n \<and> P k) \<longleftrightarrow> i < n \<and> (P (Suc i) \<or> (\<exists>k. Suc i < k \<and> k \<le> n \<and> P k))"
  by (metis Suc_leI Suc_lessI le_less_trans less_Suc_eq less_or_eq_imp_le order_less_le_trans)

text \<open>The loop decides whether the rest matches here, or from a later start after the last star.\<close>

lemma wild_loop_spec:
  assumes "CHR ''*'' \<notin> set tx" "ti \<le> length tx" "pi \<le> length pat"
    "\<And>sp. star_pi = Some sp \<Longrightarrow> sp \<le> pi \<and> star_ti \<le> ti \<and> pi - sp = ti - star_ti \<and> CHR ''*'' \<notin> set (slice sp pi pat)"
  shows "wild_loop pat tx pi ti star_pi star_ti \<longleftrightarrow>
    wild_spec (drop pi pat) (drop ti tx) \<or>
    (\<exists>sp k. star_pi = Some sp \<and> star_ti < k \<and> k \<le> length tx \<and> wild_spec (drop sp pat) (drop k tx))"
  using assms
proof (induction pat tx pi ti star_pi star_ti rule: wild_loop.induct)
  case (1 pat tx pi ti star_pi star_ti)
  note star = 1(7)
  let ?later = "\<exists>sp k. star_pi = Some sp \<and> star_ti < k \<and> k \<le> length tx \<and> wild_spec (drop sp pat) (drop k tx)"
  have seg: "drop sp pat = slice sp pi pat @ drop pi pat \<and> length (slice sp pi pat) = ti - star_ti" if "star_pi = Some sp" for sp
    using star [OF that] 1(6) split_at [of sp pi pat] unfolding slice_def by (auto simp: min_def)
  show ?case
  proof (cases "ti < length tx")
    case False
    have "\<not> ?later"
    proof
      assume ?later
      then obtain sp k where k: "star_pi = Some sp" "star_ti < k" "k \<le> length tx" "wild_spec (drop sp pat) (drop k tx)" by blast
      with star [OF k(1)] seg [OF k(1)] have "ti - star_ti \<le> length tx - k"
        using wild_segment [of "slice sp pi pat" "drop pi pat" "drop k tx"] by auto
      with k star [OF k(1)] 1(5) False show False by linarith
    qed
    then show ?thesis using False 1(5,6) skip_stars_end [of pi pat] by (subst wild_loop.simps) auto
  next
    case ti: True
    then have dt: "drop ti tx = tx ! ti # drop (ti + 1) tx" by (simp add: Cons_nth_drop_Suc [symmetric])
    have nostar: "tx ! ti \<noteq> CHR ''*''" using 1(4) ti by (metis nth_mem)
    consider (byte) "pi < length pat" "pat ! pi = CHR ''?'' \<or> pat ! pi = tx ! ti"
      | (star) "pi < length pat" "\<not> (pat ! pi = CHR ''?'' \<or> pat ! pi = tx ! ti)" "pat ! pi = CHR ''*''"
      | (miss) "pi < length pat \<longrightarrow> pat ! pi \<noteq> CHR ''?'' \<and> pat ! pi \<noteq> tx ! ti \<and> pat ! pi \<noteq> CHR ''*''" by blast
    then show ?thesis
    proof cases
      case byte
      have dp: "drop pi pat = pat ! pi # drop (pi + 1) pat" using byte(1) by (simp add: Cons_nth_drop_Suc [symmetric])
      have ns: "pat ! pi \<noteq> CHR ''*''" using byte(2) nostar by auto
      have inv: "sp \<le> pi + 1 \<and> star_ti \<le> ti + 1 \<and> pi + 1 - sp = ti + 1 - star_ti \<and> CHR ''*'' \<notin> set (slice sp (pi + 1) pat)"
        if "star_pi = Some sp" for sp
        using star [OF that] byte(1) ns slice_snoc [of sp pi pat] by (auto simp: Suc_diff_le)
      have "wild_loop pat tx pi ti star_pi star_ti = wild_loop pat tx (pi + 1) (ti + 1) star_pi star_ti"
        using ti byte by (subst wild_loop.simps) simp
      also have "\<dots> = (wild_spec (drop (pi + 1) pat) (drop (ti + 1) tx) \<or> ?later)"
        using 1(1) [OF ti conjI [OF byte] 1(4) _ _ inv] ti byte(1) by simp
      also have "wild_spec (drop (pi + 1) pat) (drop (ti + 1) tx) = wild_spec (drop pi pat) (drop ti tx)"
        unfolding dp dt using ns byte(2) by simp
      finally show ?thesis .
    next
      case star': star
      let ?sp = "skip_stars pat pi"
      have le: "?sp \<le> length pat" using skip_stars_le 1(6) .
      have "wild_loop pat tx pi ti star_pi star_ti = wild_loop pat tx ?sp ti (Some ?sp) ti"
        using ti star' by (subst wild_loop.simps) simp
      also have "\<dots> = (wild_spec (drop ?sp pat) (drop ti tx) \<or>
          (\<exists>k. ti < k \<and> k \<le> length tx \<and> wild_spec (drop ?sp pat) (drop k tx)))"
        using 1(2) [OF ti] star' 1(4,5) le by (simp add: slice_def)
      also have "\<dots> = wild_spec (CHR ''*'' # drop ?sp pat) (drop ti tx)"
        unfolding wild_star_iff [OF 1(5)] using 1(5) by (auto simp: le_less)
      also have "\<dots> = (wild_spec (drop pi pat) (drop ti tx) \<or> ?later)"
      proof -
        have "wild_spec (drop pi pat) (drop ti tx)" if ?later
        proof -
          from that obtain sp k where k: "star_pi = Some sp" "star_ti < k" "k \<le> length tx" "wild_spec (drop sp pat) (drop k tx)" by blast
          let ?k = "ti - star_ti + k"
          from k star [OF k(1)] seg [OF k(1)] have m: "?k \<le> length tx" "wild_spec (drop pi pat) (drop ?k tx)"
            using wild_segment [of "slice sp pi pat" "drop pi pat" "drop k tx"] by auto
          have "ti \<le> ?k" using k(2) star [OF k(1)] by linarith
          with m show ?thesis unfolding skip_stars_spec [OF star'(1,3)] by (rule_tac wild_star_drop)
        qed
        then show ?thesis using skip_stars_spec [OF star'(1,3), of "drop ti tx"] by blast
      qed
      finally show ?thesis .
    next
      case miss
      have no: "\<not> wild_spec (drop pi pat) (drop ti tx)"
      proof (cases "pi < length pat")
        case True
        then have "drop pi pat = pat ! pi # drop (pi + 1) pat" by (simp add: Cons_nth_drop_Suc [symmetric])
        with True miss show ?thesis unfolding dt by simp
      next
        case False
        then show ?thesis using dt by simp
      qed
      show ?thesis
      proof (cases star_pi)
        case None
        then show ?thesis using ti miss no by (subst wild_loop.simps) auto
      next
        case (Some sp)
        have "wild_loop pat tx pi ti star_pi star_ti = wild_loop pat tx sp (star_ti + 1) star_pi (star_ti + 1)"
          using ti miss Some by (subst wild_loop.simps) auto
        also have "\<dots> = (wild_spec (drop sp pat) (drop (star_ti + 1) tx) \<or>
            (\<exists>k. star_ti + 1 < k \<and> k \<le> length tx \<and> wild_spec (drop sp pat) (drop k tx)))"
        proof -
          have "\<not> (pi < length pat \<and> (pat ! pi = CHR ''?'' \<or> pat ! pi = tx ! ti))" "\<not> (pi < length pat \<and> pat ! pi = CHR ''*'')"
            using miss by auto
          from 1(3) [OF ti this Some 1(4)] show ?thesis using star [OF Some] ti 1(6) Some by (simp add: slice_def)
        qed
        also have "\<dots> = ?later"
          using Some star [OF Some] ti later_split [of star_ti "length tx" "\<lambda>k. wild_spec (drop sp pat) (drop k tx)"] by simp
        finally show ?thesis using no by simp
      qed
    qed
  qed
qed

text \<open>C33: The wildcard matcher with its single backtracking point decides exactly the meaning of the pattern,
  for every pattern and every component without a star of its own.\<close>

theorem wildmatch_spec:
  assumes "CHR ''*'' \<notin> set tx"
  shows "wildmatch_bytes pat tx = wild_spec pat tx"
  using wild_loop_spec [OF assms, of 0 0 pat None 0] by (simp add: wildmatch_bytes_def)

theorem wildmatch_spec_witness:
  "CHR ''*'' \<notin> set ''data.tar.gz'' \<and> wild_spec ''d*?ar*gz'' ''data.tar.gz''"
proof -
  have "wildmatch_bytes ''d*?ar*gz'' ''data.tar.gz''" by code_simp
  then show ?thesis using wildmatch_spec [of "''data.tar.gz''" "''d*?ar*gz''"] by simp
qed

text \<open>A component that contains a star is different: the loop takes that star of the text for a match of the
  pattern's star and keeps no way back.\<close>

lemma wildmatch_star_in_component:
  "\<not> wildmatch_bytes ''*b'' ''*ab'' \<and> wild_spec ''*b'' ''*ab''"
proof
  show "\<not> wildmatch_bytes ''*b'' ''*ab''" by (simp add: wildmatch_bytes_def wild_loop.simps)
  have "wild_spec ''b'' (drop 2 ''*ab'')" by simp
  then show "wild_spec ''*b'' ''*ab''" by (subst wild_spec.simps) (auto intro!: exI [of _ "2::nat"])
qed

section \<open>Glob rules\<close>

datatype CompMatcher = Literal string | AnyComp | Wildcard string

datatype GlobToken = DoubleStar | Comp CompMatcher

fun comp_matches :: "CompMatcher \<Rightarrow> string \<Rightarrow> bool" where
  "comp_matches (Literal lit) c = (c = lit)"
| "comp_matches AnyComp c = True"
| "comp_matches (Wildcard pat) c = wildmatch_bytes pat c"

definition from_os :: "string \<Rightarrow> CompMatcher" where
  "from_os pat =
     (if pat = ''*'' then AnyComp
      else if list_ex (\<lambda>c. c = CHR ''*'' \<or> c = CHR ''?'') pat then Wildcard pat
      else Literal pat)"

definition is_double_star_component :: "string \<Rightarrow> bool" where
  "is_double_star_component os \<longleftrightarrow> os = ''**''"

definition compile_component :: "string \<Rightarrow> GlobToken" where
  "compile_component os = (if is_double_star_component os then DoubleStar else Comp (from_os os))"

definition component_has_glob_meta :: "string \<Rightarrow> bool" where
  "component_has_glob_meta os \<longleftrightarrow> os = ''**'' \<or> list_ex (\<lambda>c. c = CHR ''*'' \<or> c = CHR ''?'') os"

definition has_meta :: "path \<Rightarrow> bool" where
  "has_meta pattern \<longleftrightarrow> list_ex component_has_glob_meta pattern"

type_synonym u128 = "128 word"

definition MAX_TOKENS_U128 :: nat where "MAX_TOKENS_U128 = 127"

record GlobRule =
  gr_tokens :: "GlobToken list"
  gr_ds_mask :: u128
  gr_len :: nat
  gr_accept :: u128

text \<open>The mask has the bit of every double star.\<close>

fun ds_mask_from :: "nat \<Rightarrow> GlobToken list \<Rightarrow> u128 \<Rightarrow> u128" where
  "ds_mask_from i [] w = w"
| "ds_mask_from i (t # ts) w = ds_mask_from (i + 1) ts (if t = DoubleStar then w OR push_bit i 1 else w)"

definition glob_new :: "path \<Rightarrow> GlobRule" where
  "glob_new pattern =
     (let tokens = map compile_component pattern;
          len_usize = length tokens;
          len = min len_usize MAX_TOKENS_U128
      in if len_usize \<le> MAX_TOKENS_U128
         then \<lparr>gr_tokens = tokens, gr_ds_mask = ds_mask_from 0 tokens 0, gr_len = len, gr_accept = push_bit len_usize 1\<rparr>
         else \<lparr>gr_tokens = tokens, gr_ds_mask = 0, gr_len = len, gr_accept = 0\<rparr>)"

text \<open>The closure under the empty moves of double stars.\<close>

lemma or_grows: "s OR x \<noteq> s \<Longrightarrow> unat s < unat (s OR x)" for s x :: "'a::len word"
proof -
  assume "s OR x \<noteq> s"
  moreover have "s AND (s OR x) \<le> s OR x" by (rule word_and_le1)
  moreover have "s AND (s OR x) = s" by (auto simp: bit_eq_iff bit_and_iff bit_or_iff)
  ultimately have "s < s OR x" by simp
  then show ?thesis by (simp add: word_less_nat_alt)
qed

function epsilon_closure_u128 :: "u128 \<Rightarrow> u128 \<Rightarrow> u128" where
  "epsilon_closure_u128 ds_mask s =
     (let next_s = s OR push_bit 1 (s AND ds_mask)
      in if next_s = s then s else epsilon_closure_u128 ds_mask next_s)"
  by pat_completeness auto

termination epsilon_closure_u128
proof (relation "measure (\<lambda>(ds, s). 2 ^ 128 - unat s)", goal_cases)
  case (2 ds s x)
  have "unat x < 2 ^ 128" using unsigned_less [of x] by simp
  with 2 or_grows [of s "push_bit 1 (s AND ds)"] show ?case by auto
qed simp

declare epsilon_closure_u128.simps [simp del]

text \<open>The loop over the set bits of a state set, lowest first: \<open>trailing_zeros\<close> finds a bit, \<open>s AND (s - 1)\<close>
  clears it.\<close>

function trailing_zeros_from :: "u128 \<Rightarrow> nat \<Rightarrow> nat" where
  "trailing_zeros_from s i = (if i < 128 \<and> \<not> bit s i then trailing_zeros_from s (i + 1) else i)"
  by pat_completeness auto

termination trailing_zeros_from
  by (relation "measure (\<lambda>(s, i). 128 - i)") auto

declare trailing_zeros_from.simps [simp del]

definition trailing_zeros :: "u128 \<Rightarrow> nat" where
  "trailing_zeros s = trailing_zeros_from s 0"

lemma bit_clear_lowest_nat: "0 < k \<Longrightarrow> bit (k AND (k - 1)) n \<longleftrightarrow> bit k n \<and> (\<exists>m<n. bit k m)" for k :: nat
proof (induction n arbitrary: k)
  case 0
  then show ?case by (auto simp: bit_0 even_and_iff)
next
  case (Suc n)
  have ex: "(\<exists>m<Suc n. bit k m) \<longleftrightarrow> odd k \<or> (\<exists>m<n. bit (k div 2) m)"
    by (auto simp: less_Suc_eq_0_disj bit_0 bit_Suc)
  have half: "bit (k AND (k - 1)) (Suc n) \<longleftrightarrow> bit (k div 2) n \<and> bit ((k - 1) div 2) n" by (simp only: bit_and_iff) (simp only: bit_Suc)
  show ?case
  proof (cases "odd k")
    case True
    then have "(k - 1) div 2 = k div 2" by presburger
    then show ?thesis unfolding half ex using True by (simp add: bit_Suc)
  next
    case False
    then have "(k - 1) div 2 = k div 2 - 1" "0 < k div 2" using Suc.prems by presburger+
    then show ?thesis unfolding half ex using False Suc.IH [of "k div 2"] by (simp add: bit_and_iff bit_Suc)
  qed
qed

lemma bit_clear_lowest: "s \<noteq> 0 \<Longrightarrow> bit (s AND (s - 1)) n \<longleftrightarrow> bit s n \<and> (\<exists>m<n. bit s m)" for s :: "'a::len word"
proof -
  assume s: "s \<noteq> 0"
  have "unat (s - 1) = unat s - 1" using s by (metis unat_minus_one)
  moreover have "0 < unat s" using s by (simp add: unat_gt_0)
  moreover have "bit (s - 1) n = bit (unat (s - 1)) n" by (simp add: bit_unsigned_iff)
  ultimately show ?thesis using bit_clear_lowest_nat [of "unat s" n] by (simp add: bit_and_iff bit_unsigned_iff)
qed

lemma trailing_zeros_from_spec:
  "\<forall>m<i. \<not> bit s m \<Longrightarrow> s \<noteq> 0 \<Longrightarrow> bit s (trailing_zeros_from s i) \<and> (\<forall>m<trailing_zeros_from s i. \<not> bit s m)"
proof (induction s i rule: trailing_zeros_from.induct)
  case (1 s i)
  show ?case
  proof (cases "bit s i")
    case True
    then show ?thesis using 1 by (simp add: trailing_zeros_from.simps [of s i])
  next
    case False
    have "i < 128"
    proof (rule ccontr)
      assume "\<not> i < 128"
      then have "\<not> bit s n" for n using 1(2) bit_imp_le_length [of s n] by auto
      then have "s = 0" by (simp add: bit_eq_iff)
      with 1(3) show False by simp
    qed
    with False 1 show ?thesis by (subst (1 2) trailing_zeros_from.simps) (auto simp: less_Suc_eq)
  qed
qed

lemma trailing_zeros_spec: "s \<noteq> 0 \<Longrightarrow> bit s (trailing_zeros s) \<and> (\<forall>m<trailing_zeros s. \<not> bit s m)"
  unfolding trailing_zeros_def by (rule trailing_zeros_from_spec) simp_all

lemma bit_clear_trailing: "s \<noteq> 0 \<Longrightarrow> bit (s AND (s - 1)) n \<longleftrightarrow> bit s n \<and> n \<noteq> trailing_zeros s"
  unfolding bit_clear_lowest using trailing_zeros_spec [of s] by (metis nat_neq_iff)

function step_bits :: "GlobToken list \<Rightarrow> nat \<Rightarrow> string \<Rightarrow> u128 \<Rightarrow> u128 \<Rightarrow> u128" where
  "step_bits tokens m c s next_s =
     (if s = 0 then next_s
      else
        let i = trailing_zeros s;
            s' = s AND (s - 1)
        in if i \<ge> m then step_bits tokens m c s' next_s
           else case tokens ! i of
               DoubleStar \<Rightarrow> step_bits tokens m c s' (next_s OR push_bit i 1)
             | Comp mm \<Rightarrow> step_bits tokens m c s' (if comp_matches mm c then next_s OR push_bit (i + 1) 1 else next_s))"
  by pat_completeness auto

lemma clear_lowest_less: "s \<noteq> 0 \<Longrightarrow> unat (s AND (s - 1)) < unat s" for s :: u128
proof -
  assume s: "s \<noteq> 0"
  have "s AND (s - 1) \<le> s" by (rule word_and_le2)
  moreover have "s AND (s - 1) \<noteq> s" using bit_clear_trailing [OF s] trailing_zeros_spec [OF s] by metis
  ultimately have "s AND (s - 1) < s" by simp
  then show ?thesis by (simp add: word_less_nat_alt)
qed

termination step_bits
  by (relation "measure (\<lambda>(tokens, m, c, s, n). unat s)") (auto simp: clear_lowest_less)

declare step_bits.simps [simp del]

definition step_u128 :: "GlobRule \<Rightarrow> u128 \<Rightarrow> string \<Rightarrow> u128" where
  "step_u128 g states c = epsilon_closure_u128 (gr_ds_mask g) (step_bits (gr_tokens g) (gr_len g) c states 0)"

fun prefix_loop :: "GlobRule \<Rightarrow> u128 \<Rightarrow> path \<Rightarrow> bool" where
  "prefix_loop g states [] = False"
| "prefix_loop g states (c # cs) =
     (let states = step_u128 g states c
      in if states = 0 then False
         else if states AND gr_accept g \<noteq> 0 then True
         else prefix_loop g states cs)"

definition matches_prefix_u128 :: "GlobRule \<Rightarrow> path \<Rightarrow> bool" where
  "matches_prefix_u128 g p =
     (let states = epsilon_closure_u128 (gr_ds_mask g) 1
      in if states AND gr_accept g \<noteq> 0 then True else prefix_loop g states p)"

fun strict_loop :: "GlobRule \<Rightarrow> u128 \<Rightarrow> path \<Rightarrow> bool" where
  "strict_loop g states [] = (states AND gr_accept g \<noteq> 0)"
| "strict_loop g states (c # cs) =
     (let states = step_u128 g states c
      in if states = 0 then False else strict_loop g states cs)"

definition is_strict_match :: "GlobRule \<Rightarrow> path \<Rightarrow> bool" where
  "is_strict_match g p = strict_loop g (epsilon_closure_u128 (gr_ds_mask g) 1) p"

section \<open>The meaning of a glob rule\<close>

text \<open>\<open>glob_match\<close>: the whole path; a double star stands for any number of components. \<open>glob_prefix\<close>: some prefix
  of the path.\<close>

fun glob_match :: "GlobToken list \<Rightarrow> path \<Rightarrow> bool" where
  "glob_match [] cs = (cs = [])"
| "glob_match (DoubleStar # ts) cs = (glob_match ts cs \<or> (case cs of [] \<Rightarrow> False | c # cs' \<Rightarrow> glob_match (DoubleStar # ts) cs'))"
| "glob_match (Comp m # ts) cs = (case cs of [] \<Rightarrow> False | c # cs' \<Rightarrow> comp_matches m c \<and> glob_match ts cs')"

fun glob_prefix :: "GlobToken list \<Rightarrow> path \<Rightarrow> bool" where
  "glob_prefix [] cs = True"
| "glob_prefix (DoubleStar # ts) cs = (glob_prefix ts cs \<or> (case cs of [] \<Rightarrow> False | c # cs' \<Rightarrow> glob_prefix (DoubleStar # ts) cs'))"
| "glob_prefix (Comp m # ts) cs = (case cs of [] \<Rightarrow> False | c # cs' \<Rightarrow> comp_matches m c \<and> glob_prefix ts cs')"

lemma ex_le_Suc: "(\<exists>k\<le>Suc n. P k) \<longleftrightarrow> P 0 \<or> (\<exists>k\<le>n. P (Suc k))"
  by (metis Suc_le_mono not0_implies_Suc zero_le)

lemma glob_prefix_match: "glob_prefix ts cs \<longleftrightarrow> (\<exists>k\<le>length cs. glob_match ts (take k cs))"
proof (induction ts cs rule: glob_prefix.induct)
  case (1 cs)
  show ?case by (auto intro: exI [of _ 0])
next
  case (2 ts cs)
  show ?case
  proof (cases cs)
    case Nil
    then show ?thesis using 2(1) by simp
  next
    case (Cons c cs')
    have "(\<exists>k\<le>length cs. glob_match (DoubleStar # ts) (take k cs)) \<longleftrightarrow>
        (\<exists>k\<le>length cs. glob_match ts (take k cs)) \<or> (\<exists>k\<le>length cs'. glob_match (DoubleStar # ts) (take k cs'))"
      unfolding Cons list.size add_Suc_right add_0_right ex_le_Suc by auto
    then show ?thesis using 2(1) 2(2) [OF Cons] Cons by simp
  qed
next
  case (3 m ts cs)
  show ?case
  proof (cases cs)
    case (Cons c cs')
    have "(\<exists>k\<le>length cs. glob_match (Comp m # ts) (take k cs)) \<longleftrightarrow> comp_matches m c \<and> (\<exists>k\<le>length cs'. glob_match ts (take k cs'))"
      by (auto simp: Cons ex_le_Suc)
    then show ?thesis using 3 [OF Cons] Cons by simp
  qed simp
qed

text \<open>States of the automaton are positions in the token list.\<close>

definition bits :: "u128 \<Rightarrow> nat set" where
  "bits s = {i. bit s i}"

definition closed :: "GlobToken list \<Rightarrow> nat set \<Rightarrow> bool" where
  "closed ts S \<longleftrightarrow> (\<forall>i\<in>S. i < length ts \<longrightarrow> ts ! i = DoubleStar \<longrightarrow> Suc i \<in> S)"

text \<open>The rest of the pattern from some state accepts the path, for either notion of acceptance.\<close>

definition acc :: "(GlobToken list \<Rightarrow> path \<Rightarrow> bool) \<Rightarrow> GlobToken list \<Rightarrow> nat set \<Rightarrow> path \<Rightarrow> bool" where
  "acc M ts S cs \<longleftrightarrow> (\<exists>i\<in>S. i \<le> length ts \<and> M (drop i ts) cs)"

definition rule_ok :: "GlobRule \<Rightarrow> bool" where
  "rule_ok g \<longleftrightarrow> length (gr_tokens g) \<le> 127 \<and> gr_len g = length (gr_tokens g) \<and> gr_accept g = push_bit (length (gr_tokens g)) 1 \<and>
     bits (gr_ds_mask g) = {i. i < length (gr_tokens g) \<and> gr_tokens g ! i = DoubleStar}"

lemma bit_u128 [simp]: "bit s i \<Longrightarrow> i < 128" for s :: u128
  using bit_imp_le_length [of s i] by simp

lemma bits_simps [simp]:
  "bits 0 = {}" "bits 1 = {0}" "bits (s OR t) = bits s \<union> bits t" "bits (s AND t) = bits s \<inter> bits t"
  "i < 128 \<Longrightarrow> bits (2 ^ i) = {i}"
  by (auto simp: bits_def bit_or_iff bit_and_iff bit_1_iff bit_exp_iff possible_bit_word)

lemma bits_zero_iff: "bits s = {} \<longleftrightarrow> s = 0"
proof
  assume "bits s = {}"
  then have "bit s n = bit 0 n" for n by (simp add: bits_def)
  then show "s = 0" by (rule bit_eqI)
qed simp

lemma bits_shift: "bits (push_bit 1 s) = {i. 0 < i \<and> i < 128 \<and> i - 1 \<in> bits s}"
  unfolding bits_def bit_push_bit_iff by (auto simp: possible_bit_word)

lemma ds_mask_bits: "i + length ts \<le> 127 \<Longrightarrow> bits (ds_mask_from i ts w) = bits w \<union> {i + j | j. j < length ts \<and> ts ! j = DoubleStar}"
proof (induction i ts w rule: ds_mask_from.induct)
  case (2 i t ts w)
  have "{i + j | j. j < length (t # ts) \<and> (t # ts) ! j = DoubleStar} =
      (if t = DoubleStar then {i} else {}) \<union> {i + 1 + j | j. j < length ts \<and> ts ! j = DoubleStar}"
    by (auto simp: less_Suc_eq_0_disj)
  then show ?case using 2 by auto
qed simp

lemma rule_ok_new: "length pattern \<le> 127 \<Longrightarrow> rule_ok (glob_new pattern)"
  using ds_mask_bits [of 0 "map compile_component pattern" 0] by (simp add: rule_ok_def glob_new_def Let_def MAX_TOKENS_U128_def)

text \<open>The closure is closed, and adds only what an empty move reaches.\<close>

lemma epsilon_closure_props:
  assumes "rule_ok g"
  shows "closed (gr_tokens g) (bits (epsilon_closure_u128 (gr_ds_mask g) s)) \<and>
    bits s \<subseteq> bits (epsilon_closure_u128 (gr_ds_mask g) s) \<and>
    (\<forall>i\<in>bits (epsilon_closure_u128 (gr_ds_mask g) s). i \<in> bits s \<or>
       (0 < i \<and> i \<le> length (gr_tokens g) \<and> gr_tokens g ! (i - 1) = DoubleStar \<and> i - 1 \<in> bits (epsilon_closure_u128 (gr_ds_mask g) s)))"
proof (induction "gr_ds_mask g" s rule: epsilon_closure_u128.induct)
  case (1 s)
  let ?n = "s OR push_bit 1 (s AND gr_ds_mask g)"
  have len: "length (gr_tokens g) \<le> 127" and ds: "bits (gr_ds_mask g) = {i. i < length (gr_tokens g) \<and> gr_tokens g ! i = DoubleStar}"
    using assms by (simp_all add: rule_ok_def)
  have mem: "i \<in> bits (push_bit 1 (s AND gr_ds_mask g)) \<longleftrightarrow>
      0 < i \<and> i \<le> length (gr_tokens g) \<and> i - 1 \<in> bits s \<and> gr_tokens g ! (i - 1) = DoubleStar" for i
    unfolding bits_shift bits_simps(4) ds using len by auto
  show ?case
  proof (cases "?n = s")
    case True
    then have "epsilon_closure_u128 (gr_ds_mask g) s = s" by (subst epsilon_closure_u128.simps) simp
    moreover have "closed (gr_tokens g) (bits s)"
      unfolding closed_def
    proof (intro ballI impI)
      fix i assume "i \<in> bits s" "i < length (gr_tokens g)" "gr_tokens g ! i = DoubleStar"
      then have "Suc i \<in> bits ?n" unfolding bits_simps(3) using mem [of "Suc i"] by simp
      with True show "Suc i \<in> bits s" by simp
    qed
    ultimately show ?thesis by simp
  next
    case False
    let ?c = "epsilon_closure_u128 (gr_ds_mask g) ?n"
    have eq: "epsilon_closure_u128 (gr_ds_mask g) s = ?c"
      using False by (subst epsilon_closure_u128.simps) (simp only: Let_def if_False)
    have ih: "closed (gr_tokens g) (bits ?c)" "bits ?n \<subseteq> bits ?c"
      "\<forall>i\<in>bits ?c. i \<in> bits ?n \<or> (0 < i \<and> i \<le> length (gr_tokens g) \<and> gr_tokens g ! (i - 1) = DoubleStar \<and> i - 1 \<in> bits ?c)"
      using 1 [OF refl False] by blast+
    have sub: "bits s \<subseteq> bits ?c" using ih(2) by auto
    show ?thesis unfolding eq
    proof (intro conjI ih(1) sub ballI)
      fix i assume i: "i \<in> bits ?c"
      show "i \<in> bits s \<or> (0 < i \<and> i \<le> length (gr_tokens g) \<and> gr_tokens g ! (i - 1) = DoubleStar \<and> i - 1 \<in> bits ?c)"
        using bspec [OF ih(3) i] mem [of i] sub unfolding bits_simps(3) by blast
    qed
  qed
qed

definition moves :: "GlobToken list \<Rightarrow> string \<Rightarrow> nat set \<Rightarrow> nat set" where
  "moves ts c S = {i. i \<in> S \<and> i < length ts \<and> ts ! i = DoubleStar} \<union>
     {Suc i | i mm. i \<in> S \<and> i < length ts \<and> ts ! i = Comp mm \<and> comp_matches mm c}"

lemma moves_insert: "moves ts c (insert i S) = moves ts c {i} \<union> moves ts c S"
  by (auto simp: moves_def)

lemma step_bits_bits:
  assumes "length ts \<le> 127"
  shows "bits (step_bits ts (length ts) c s n) = bits n \<union> moves ts c (bits s)"
proof (induction "unat s" arbitrary: s n rule: less_induct)
  case less
  show ?case
  proof (cases "s = 0")
    case True
    then show ?thesis by (subst step_bits.simps) (simp add: moves_def)
  next
    case False
    let ?i = "trailing_zeros s" and ?s = "s AND (s - 1)"
    have split: "bits s = insert ?i (bits ?s)"
      using bit_clear_trailing [OF False] trailing_zeros_spec [OF False] by (auto simp: bits_def)
    have ih: "bits (step_bits ts (length ts) c ?s n') = bits n' \<union> moves ts c (bits ?s)" for n'
      using less clear_lowest_less [OF False] by blast
    show ?thesis
    proof (cases "?i < length ts")
      case i: True
      show ?thesis
      proof (cases "ts ! ?i")
        case DoubleStar
        then have "moves ts c {?i} = {?i}" using i by (auto simp: moves_def)
        moreover have "step_bits ts (length ts) c s n = step_bits ts (length ts) c ?s (n OR 2 ^ ?i)"
          using False i DoubleStar by (subst step_bits.simps) (simp add: Let_def)
        ultimately show ?thesis using i assms by (simp only: split moves_insert [of _ _ ?i "bits ?s"] ih) auto
      next
        case (Comp mm)
        then have "moves ts c {?i} = (if comp_matches mm c then {Suc ?i} else {})" using i by (auto simp: moves_def)
        moreover have "step_bits ts (length ts) c s n =
            step_bits ts (length ts) c ?s (if comp_matches mm c then n OR 2 ^ Suc ?i else n)"
          using False i Comp by (subst step_bits.simps) (simp add: Let_def)
        ultimately show ?thesis using i assms
          by (simp only: split moves_insert [of _ _ ?i "bits ?s"] ih) (auto simp del: power_Suc)
      qed
    next
      case i: False
      then have "moves ts c {?i} = {}" by (auto simp: moves_def)
      moreover have "step_bits ts (length ts) c s n = step_bits ts (length ts) c ?s n"
        using False i by (subst step_bits.simps) (simp add: Let_def)
      ultimately show ?thesis by (simp only: split moves_insert [of _ _ ?i "bits ?s"] ih) auto
    qed
  qed
qed

text \<open>Acceptance does not change under the closure, and moves with the path.\<close>

locale glob_semantics =
  fixes M :: "GlobToken list \<Rightarrow> path \<Rightarrow> bool"
  assumes M_star: "M (DoubleStar # ts) cs \<longleftrightarrow> M ts cs \<or> (case cs of [] \<Rightarrow> False | c # cs' \<Rightarrow> M (DoubleStar # ts) cs')"
    and M_comp: "M (Comp m # ts) cs \<longleftrightarrow> (case cs of [] \<Rightarrow> False | c # cs' \<Rightarrow> comp_matches m c \<and> M ts cs')"
    and M_empty: "M [] []"
begin

lemma acc_closure:
  assumes "rule_ok g"
  shows "acc M (gr_tokens g) (bits (epsilon_closure_u128 (gr_ds_mask g) s)) cs = acc M (gr_tokens g) (bits s) cs"
proof
  let ?c = "epsilon_closure_u128 (gr_ds_mask g) s"
  note props = epsilon_closure_props [OF assms, of s]
  assume "acc M (gr_tokens g) (bits ?c) cs"
  then obtain i where "i \<in> bits ?c" "i \<le> length (gr_tokens g)" "M (drop i (gr_tokens g)) cs" by (auto simp: acc_def)
  then show "acc M (gr_tokens g) (bits s) cs"
  proof (induction i rule: less_induct)
    case (less i)
    show ?case
    proof (cases "i \<in> bits s")
      case True
      with less.prems show ?thesis by (auto simp: acc_def)
    next
      case False
      with props less.prems have p: "0 < i" "gr_tokens g ! (i - 1) = DoubleStar" "i - 1 \<in> bits ?c" by blast+
      then have "drop (i - 1) (gr_tokens g) = DoubleStar # drop i (gr_tokens g)"
        using less.prems(2) Cons_nth_drop_Suc [of "i - 1" "gr_tokens g"] by simp
      with less.prems(3) have "M (drop (i - 1) (gr_tokens g)) cs" by (simp add: M_star)
      with p less.prems(2) show ?thesis using less.IH [of "i - 1"] by simp
    qed
  qed
next
  assume "acc M (gr_tokens g) (bits s) cs"
  then show "acc M (gr_tokens g) (bits (epsilon_closure_u128 (gr_ds_mask g) s)) cs"
    using epsilon_closure_props [OF assms, of s] by (auto simp: acc_def)
qed

text \<open>A closed state set reads a component with the moves, unless it accepts already.\<close>

lemma acc_step:
  assumes "closed ts S" "\<And>i. i \<in> S \<Longrightarrow> i \<le> length ts" "length ts \<notin> S \<or> \<not> M [] (c # cs)"
  shows "acc M ts S (c # cs) = acc M ts (moves ts c S) cs"
proof
  assume "acc M ts S (c # cs)"
  then obtain i where "i \<in> S" "i \<le> length ts" "M (drop i ts) (c # cs)" by (auto simp: acc_def)
  then show "acc M ts (moves ts c S) cs"
  proof (induction "length ts - i" arbitrary: i rule: less_induct)
    case less
    have lt: "i < length ts" using less.prems assms(3) by (cases "i = length ts") auto
    then have d: "drop i ts = ts ! i # drop (Suc i) ts" by (simp add: Cons_nth_drop_Suc)
    show ?case
    proof (cases "ts ! i")
      case DoubleStar
      have nxt: "Suc i \<in> S" using assms(1) less.prems(1) lt DoubleStar by (auto simp: closed_def)
      have "M (drop (Suc i) ts) (c # cs) \<or> M (drop i ts) cs"
        using less.prems(3) unfolding d DoubleStar M_star [of _ "c # cs"] by simp
      then show ?thesis
      proof
        assume "M (drop (Suc i) ts) (c # cs)"
        with nxt lt show ?thesis using less.hyps [of "Suc i"] by simp
      next
        assume "M (drop i ts) cs"
        moreover have "i \<in> moves ts c S" using less.prems(1) lt DoubleStar by (simp add: moves_def)
        ultimately show ?thesis using lt unfolding acc_def by (meson less_imp_le)
      qed
    next
      case (Comp mm)
      then have "comp_matches mm c" "M (drop (Suc i) ts) cs" using less.prems(3) unfolding d Comp M_comp by simp_all
      moreover from this(1) have "Suc i \<in> moves ts c S" using less.prems(1) lt Comp by (auto simp: moves_def)
      ultimately show ?thesis using lt unfolding acc_def by (meson Suc_leI)
    qed
  qed
next
  assume "acc M ts (moves ts c S) cs"
  then obtain j where j: "j \<in> moves ts c S" "M (drop j ts) cs" by (auto simp: acc_def)
  from j(1) consider (stay) "j \<in> S" "j < length ts" "ts ! j = DoubleStar"
    | (go) i mm where "j = Suc i" "i \<in> S" "i < length ts" "ts ! i = Comp mm" "comp_matches mm c" by (auto simp: moves_def)
  then show "acc M ts S (c # cs)"
  proof cases
    case stay
    then have d: "drop j ts = DoubleStar # drop (Suc j) ts" by (simp add: Cons_nth_drop_Suc [symmetric])
    have "M (drop j ts) (c # cs)" using j(2) unfolding d M_star [of _ "c # cs"] by simp
    with stay show ?thesis unfolding acc_def by (meson less_imp_le)
  next
    case go
    then have "drop i ts = Comp mm # drop (Suc i) ts" by (simp add: Cons_nth_drop_Suc [symmetric])
    with go j(2) have "M (drop i ts) (c # cs)" by (simp add: M_comp)
    with go show ?thesis unfolding acc_def by (meson less_imp_le)
  qed
qed

lemma acc_end:
  assumes "closed ts S" "\<And>i. i \<in> S \<Longrightarrow> i \<le> length ts"
  shows "acc M ts S [] \<longleftrightarrow> length ts \<in> S"
proof
  assume "acc M ts S []"
  then obtain i where "i \<in> S" "i \<le> length ts" "M (drop i ts) []" by (auto simp: acc_def)
  then show "length ts \<in> S"
  proof (induction "length ts - i" arbitrary: i rule: less_induct)
    case less
    show ?case
    proof (cases "i = length ts")
      case False
      then have lt: "i < length ts" and d: "drop i ts = ts ! i # drop (Suc i) ts" using less.prems by (simp_all add: Cons_nth_drop_Suc)
      have star: "ts ! i = DoubleStar" using less.prems(3) unfolding d by (cases "ts ! i") (simp_all add: M_comp)
      then have "Suc i \<in> S" using assms(1) less.prems(1) lt by (auto simp: closed_def)
      moreover have "M (drop (Suc i) ts) []" using less.prems(3) unfolding d star M_star [of _ "[]"] by simp
      ultimately show ?thesis using less.hyps [of "Suc i"] lt by simp
    qed (use less.prems in simp)
  qed
next
  assume "length ts \<in> S"
  then show "acc M ts S []" using M_empty by (auto simp: acc_def)
qed

end

interpretation whole: glob_semantics glob_match
  by unfold_locales (auto split: list.splits)

interpretation pre: glob_semantics glob_prefix
  by unfold_locales (auto split: list.splits)

text \<open>A state set as the loops keep it: closed, and within the positions.\<close>

definition states_ok :: "GlobRule \<Rightarrow> u128 \<Rightarrow> bool" where
  "states_ok g s \<longleftrightarrow> closed (gr_tokens g) (bits s) \<and> (\<forall>i\<in>bits s. i \<le> length (gr_tokens g))"

lemma states_ok_closure:
  assumes "rule_ok g" "\<forall>i\<in>bits s. i \<le> length (gr_tokens g)"
  shows "states_ok g (epsilon_closure_u128 (gr_ds_mask g) s)"
  using epsilon_closure_props [OF assms(1), of s] assms(2) unfolding states_ok_def by blast

lemma moves_le: "i \<in> moves ts c S \<Longrightarrow> i \<le> length ts"
  by (auto simp: moves_def)

lemma rule_step_bits: "rule_ok g \<Longrightarrow> bits (step_bits (gr_tokens g) (gr_len g) c s 0) = moves (gr_tokens g) c (bits s)"
  by (simp add: rule_ok_def step_bits_bits)

lemma step_ok: "rule_ok g \<Longrightarrow> states_ok g (step_u128 g s c)"
  unfolding step_u128_def by (rule states_ok_closure) (auto simp: rule_step_bits moves_le)

lemma accept_iff: "rule_ok g \<Longrightarrow> s AND gr_accept g \<noteq> 0 \<longleftrightarrow> length (gr_tokens g) \<in> bits s"
  using bits_zero_iff [of "s AND gr_accept g"] by (auto simp: rule_ok_def)

context glob_semantics
begin

lemma step_acc:
  assumes "rule_ok g" "states_ok g s" "length (gr_tokens g) \<notin> bits s \<or> \<not> M [] (c # cs)"
  shows "acc M (gr_tokens g) (bits s) (c # cs) = acc M (gr_tokens g) (bits (step_u128 g s c)) cs"
proof -
  have "bits (step_bits (gr_tokens g) (gr_len g) c s 0) = moves (gr_tokens g) c (bits s)"
    by (rule rule_step_bits [OF assms(1)])
  moreover have "acc M (gr_tokens g) (bits s) (c # cs) = acc M (gr_tokens g) (moves (gr_tokens g) c (bits s)) cs"
    using assms(2,3) by (intro acc_step) (auto simp: states_ok_def)
  ultimately show ?thesis unfolding step_u128_def acc_closure [OF assms(1)] by simp
qed

lemma start_acc: "rule_ok g \<Longrightarrow> acc M (gr_tokens g) (bits (epsilon_closure_u128 (gr_ds_mask g) 1)) cs = M (gr_tokens g) cs"
  by (simp add: acc_closure) (simp add: acc_def)

end

lemma acc_zero [simp]: "\<not> acc M ts {} cs"
  by (simp add: acc_def)

lemma prefix_loop_acc:
  assumes "rule_ok g"
  shows "states_ok g s \<Longrightarrow> length (gr_tokens g) \<notin> bits s \<Longrightarrow> prefix_loop g s cs = acc glob_prefix (gr_tokens g) (bits s) cs"
proof (induction cs arbitrary: s)
  case Nil
  then show ?case by (simp add: pre.acc_end states_ok_def)
next
  case (Cons c cs)
  let ?s = "step_u128 g s c"
  have st: "acc glob_prefix (gr_tokens g) (bits s) (c # cs) = acc glob_prefix (gr_tokens g) (bits ?s) cs"
    using pre.step_acc [OF assms Cons.prems(1)] Cons.prems(2) by blast
  consider "?s = 0" | "length (gr_tokens g) \<in> bits ?s" | "?s \<noteq> 0" "length (gr_tokens g) \<notin> bits ?s" by blast
  then show ?case
  proof cases
    case 1
    then show ?thesis unfolding st by simp
  next
    case 2
    then have "?s \<noteq> 0" by auto
    moreover have "acc glob_prefix (gr_tokens g) (bits ?s) cs" using 2 by (auto simp: acc_def)
    ultimately show ?thesis unfolding st using 2 accept_iff [OF assms] by simp
  next
    case 3
    then show ?thesis unfolding st using accept_iff [OF assms] Cons.IH [OF step_ok [OF assms]] by simp
  qed
qed

lemma matches_prefix_spec: "rule_ok g \<Longrightarrow> matches_prefix_u128 g cs = glob_prefix (gr_tokens g) cs"
proof -
  assume g: "rule_ok g"
  let ?s = "epsilon_closure_u128 (gr_ds_mask g) 1"
  have ok: "states_ok g ?s" by (rule states_ok_closure [OF g]) simp
  show ?thesis
  proof (cases "length (gr_tokens g) \<in> bits ?s")
    case True
    then have "acc glob_prefix (gr_tokens g) (bits ?s) cs" by (auto simp: acc_def)
    then show ?thesis using True pre.start_acc [OF g] accept_iff [OF g] by (simp add: matches_prefix_u128_def)
  next
    case False
    then show ?thesis
      using prefix_loop_acc [OF g ok] pre.start_acc [OF g] accept_iff [OF g] by (simp add: matches_prefix_u128_def)
  qed
qed

lemma strict_loop_acc:
  assumes "rule_ok g"
  shows "states_ok g s \<Longrightarrow> strict_loop g s cs = acc glob_match (gr_tokens g) (bits s) cs"
proof (induction cs arbitrary: s)
  case Nil
  then show ?case using accept_iff [OF assms] by (simp add: whole.acc_end states_ok_def)
next
  case (Cons c cs)
  have "acc glob_match (gr_tokens g) (bits s) (c # cs) = acc glob_match (gr_tokens g) (bits (step_u128 g s c)) cs"
    by (rule whole.step_acc [OF assms Cons.prems]) simp
  then show ?case using Cons.IH [OF step_ok [OF assms], of s c] by (auto simp: Let_def)
qed

lemma strict_match_spec: "rule_ok g \<Longrightarrow> is_strict_match g cs = glob_match (gr_tokens g) cs"
  using strict_loop_acc states_ok_closure [of g 1] whole.start_acc by (simp add: is_strict_match_def)

section \<open>The fallback for very deep patterns\<close>

text \<open>Both loops of \<open>match_prefix_components\<close>. The position \<open>p\<close> never passes the end of the pattern. \<open>star\<close> holds the
  position after the last double star and where in the path it starts matching.\<close>

function fb_lead :: "GlobToken list \<Rightarrow> nat \<Rightarrow> (nat \<times> nat) option \<Rightarrow> (nat \<times> (nat \<times> nat) option) option" where
  "fb_lead pattern p star =
     (if p < length pattern \<and> pattern ! p = DoubleStar
      then if p + 1 = length pattern then None else fb_lead pattern (p + 1) (Some (p + 1, 0))
      else Some (p, star))"
  by pat_completeness auto

termination fb_lead
  by (relation "measure (\<lambda>(pattern, p, star). length pattern - p)") auto

declare fb_lead.simps [simp del]

fun fb_tail :: "GlobToken list \<Rightarrow> bool" where
  "fb_tail (DoubleStar # ts) = fb_tail ts"
| "fb_tail ts = (ts = [])"

function fb_loop :: "GlobToken list \<Rightarrow> path \<Rightarrow> nat \<Rightarrow> nat \<Rightarrow> (nat \<times> nat) option \<Rightarrow> bool" where
  "fb_loop pattern cs p t star =
     (if t < length cs then
        if length pattern \<le> p then True
        else case pattern ! p of
            DoubleStar \<Rightarrow> if p + 1 = length pattern then True else fb_loop pattern cs (p + 1) t (Some (p + 1, t))
          | Comp m \<Rightarrow>
              if comp_matches m (cs ! t) then
                if p + 1 = length pattern then True else fb_loop pattern cs (p + 1) (t + 1) star
              else case star of
                  Some (p_after, t_star) \<Rightarrow>
                    if t_star + 1 > length cs then False
                    else fb_loop pattern cs p_after (t_star + 1) (Some (p_after, t_star + 1))
                | None \<Rightarrow> False
      else fb_tail (drop p pattern))"
  by pat_completeness auto

termination fb_loop
  by (relation "measures [\<lambda>(pattern, cs, p, t, star). case star of Some (_, st) \<Rightarrow> if st \<le> t then 0 else 1 | None \<Rightarrow> 0,
    \<lambda>(pattern, cs, p, t, star). case star of Some (_, st) \<Rightarrow> length cs - st | None \<Rightarrow> length cs,
    \<lambda>(pattern, cs, p, t, star). length pattern - p]")
    (auto split: option.splits)

declare fb_loop.simps [simp del]

definition match_prefix_components :: "GlobToken list \<Rightarrow> path \<Rightarrow> bool" where
  "match_prefix_components pattern cs =
     (case fb_lead pattern 0 None of
        None \<Rightarrow> True
      | Some (p, star) \<Rightarrow> fb_loop pattern cs p 0 star)"

definition matches_for_exclude :: "GlobRule \<Rightarrow> path \<Rightarrow> bool" where
  "matches_for_exclude g cs =
     (if length (gr_tokens g) \<le> MAX_TOKENS_U128 then matches_prefix_u128 g cs
      else match_prefix_components (gr_tokens g) cs)"

lemma fb_tail_spec: "fb_tail ts \<longleftrightarrow> glob_prefix ts []"
  by (induction ts rule: fb_tail.induct) simp_all

lemma glob_star_iff: "glob_prefix (DoubleStar # ts) cs \<longleftrightarrow> (\<exists>k\<le>length cs. glob_prefix ts (drop k cs))"
proof (induction cs)
  case (Cons c cs)
  then show ?case unfolding list.size add_Suc_right add_0_right ex_le_Suc by simp
qed simp

lemma glob_star_drop_iff:
  assumes "t \<le> length cs"
  shows "glob_prefix (DoubleStar # ts) (drop t cs) \<longleftrightarrow> (\<exists>k. t \<le> k \<and> k \<le> length cs \<and> glob_prefix ts (drop k cs))"
proof
  assume "glob_prefix (DoubleStar # ts) (drop t cs)"
  then obtain k where "k \<le> length cs - t" "glob_prefix ts (drop (k + t) cs)" unfolding glob_star_iff by auto
  with assms show "\<exists>k. t \<le> k \<and> k \<le> length cs \<and> glob_prefix ts (drop k cs)" by (intro exI [of _ "k + t"]) auto
next
  assume "\<exists>k. t \<le> k \<and> k \<le> length cs \<and> glob_prefix ts (drop k cs)"
  then obtain k where "t \<le> k" "k \<le> length cs" "glob_prefix ts (drop k cs)" by blast
  then have "k - t \<le> length (drop t cs) \<and> glob_prefix ts (drop (k - t) (drop t cs))" by simp
  then show "glob_prefix (DoubleStar # ts) (drop t cs)" unfolding glob_star_iff by blast
qed

lemma glob_segment:
  assumes "glob_prefix (seg @ ts) cs" "DoubleStar \<notin> set seg"
  shows "length seg \<le> length cs \<and> glob_prefix ts (drop (length seg) cs)"
  using assms
proof (induction seg arbitrary: cs)
  case (Cons x seg)
  then show ?case by (cases x; cases cs) auto
qed simp

lemma fb_loop_spec:
  assumes "t \<le> length cs" "p \<le> length pattern"
    "\<And>pa st. star = Some (pa, st) \<Longrightarrow> pa \<le> p \<and> st \<le> t \<and> p - pa = t - st \<and> DoubleStar \<notin> set (slice pa p pattern)"
  shows "fb_loop pattern cs p t star \<longleftrightarrow>
    glob_prefix (drop p pattern) (drop t cs) \<or>
    (\<exists>pa st k. star = Some (pa, st) \<and> st < k \<and> k \<le> length cs \<and> glob_prefix (drop pa pattern) (drop k cs))"
  using assms
proof (induction pattern cs p t star rule: fb_loop.induct)
  case (1 pattern cs p t star)
  note inv = 1(6)
  let ?later = "\<exists>pa st k. star = Some (pa, st) \<and> st < k \<and> k \<le> length cs \<and> glob_prefix (drop pa pattern) (drop k cs)"
  have seg: "drop pa pattern = slice pa p pattern @ drop p pattern \<and> length (slice pa p pattern) = t - st"
    if "star = Some (pa, st)" for pa st
    using inv [OF that] 1(5) split_at [of pa p pattern] unfolding slice_def by (auto simp: min_def)
  have moved: "t - st \<le> length cs - k \<and> glob_prefix (drop p pattern) (drop (t - st + k) cs)"
    if "star = Some (pa, st)" "st < k" "k \<le> length cs" "glob_prefix (drop pa pattern) (drop k cs)" for pa st k
    using glob_segment [of "slice pa p pattern" "drop p pattern" "drop k cs"] that seg [OF that(1)] inv [OF that(1)] by auto
  show ?case
  proof (cases "t < length cs")
    case False
    have "\<not> ?later"
    proof
      assume ?later
      then obtain pa st k where k: "star = Some (pa, st)" "st < k" "k \<le> length cs" "glob_prefix (drop pa pattern) (drop k cs)" by blast
      from moved [OF this] inv [OF k(1)] k 1(4) False show False by linarith
    qed
    then show ?thesis using False 1(4) by (subst fb_loop.simps) (auto simp: fb_tail_spec)
  next
    case t: True
    then have dt: "drop t cs = cs ! t # drop (t + 1) cs" by (simp add: Cons_nth_drop_Suc [symmetric])
    show ?thesis
    proof (cases "p < length pattern")
      case False
      then show ?thesis using t by (subst fb_loop.simps) simp
    next
      case p: True
      then have dp: "drop p pattern = pattern ! p # drop (p + 1) pattern" by (simp add: Cons_nth_drop_Suc [symmetric])
      show ?thesis
      proof (cases "pattern ! p")
        case DoubleStar
        have all: "glob_prefix (drop p pattern) (drop t cs)" if ?later
        proof -
          from that obtain pa st k where k: "star = Some (pa, st)" "st < k" "k \<le> length cs" "glob_prefix (drop pa pattern) (drop k cs)" by blast
          from moved [OF this] have m: "t - st \<le> length cs - k" "glob_prefix (drop p pattern) (drop (t - st + k) cs)" by blast+
          have le: "t - st + k \<le> length cs" "t \<le> t - st + k" using m(1) k inv [OF k(1)] by linarith+
          from m(2) [unfolded dp DoubleStar glob_star_drop_iff [OF le(1)]] obtain j where
            "t - st + k \<le> j" "j \<le> length cs" "glob_prefix (drop (p + 1) pattern) (drop j cs)" by blast
          with le(2) show ?thesis unfolding dp DoubleStar glob_star_drop_iff [OF 1(4)] by (meson order_trans)
        qed
        show ?thesis
        proof (cases "p + 1 = length pattern")
          case True
          then show ?thesis using t p DoubleStar dp by (subst fb_loop.simps) simp
        next
          case False
          have "fb_loop pattern cs p t star = fb_loop pattern cs (p + 1) t (Some (p + 1, t))"
            using t p DoubleStar False by (subst fb_loop.simps) simp
          also have "\<dots> = (glob_prefix (drop (p + 1) pattern) (drop t cs) \<or>
              (\<exists>k. t < k \<and> k \<le> length cs \<and> glob_prefix (drop (p + 1) pattern) (drop k cs)))"
            using 1(1) [OF t _ DoubleStar False] t p by (simp add: slice_def)
          also have "\<dots> = glob_prefix (drop p pattern) (drop t cs)"
            unfolding dp DoubleStar glob_star_drop_iff [OF 1(4)] using 1(4) by (auto simp: le_less)
          finally show ?thesis using all by blast
        qed
      next
        case (Comp m)
        show ?thesis
        proof (cases "comp_matches m (cs ! t)")
          case yes: True
          show ?thesis
          proof (cases "p + 1 = length pattern")
            case True
            then show ?thesis using t p Comp yes dp dt by (subst fb_loop.simps) simp
          next
            case False
            have inv': "pa \<le> p + 1 \<and> st \<le> t + 1 \<and> p + 1 - pa = t + 1 - st \<and> DoubleStar \<notin> set (slice pa (p + 1) pattern)"
              if "star = Some (pa, st)" for pa st
              using inv [OF that] p Comp slice_snoc [of pa p pattern] by (auto simp: Suc_diff_le)
            have "fb_loop pattern cs p t star = fb_loop pattern cs (p + 1) (t + 1) star"
              using t p Comp yes False by (subst fb_loop.simps) simp
            also have "\<dots> = (glob_prefix (drop (p + 1) pattern) (drop (t + 1) cs) \<or> ?later)"
              using 1(2) [OF t _ Comp yes False _ _ inv'] t p by simp
            also have "glob_prefix (drop (p + 1) pattern) (drop (t + 1) cs) = glob_prefix (drop p pattern) (drop t cs)"
              unfolding dp dt Comp using yes by simp
            finally show ?thesis .
          qed
        next
          case no: False
          have miss: "\<not> glob_prefix (drop p pattern) (drop t cs)" unfolding dp dt Comp using no by simp
          show ?thesis
          proof (cases star)
            case None
            then show ?thesis using t p Comp no miss by (subst fb_loop.simps) simp
          next
            case (Some ps)
            then obtain pa st where ps: "ps = (pa, st)" "star = Some (pa, st)" by (cases ps) auto
            have lt: "\<not> st + 1 > length cs" using inv [OF ps(2)] t by simp
            have "fb_loop pattern cs p t star = fb_loop pattern cs pa (st + 1) (Some (pa, st + 1))"
              using t p Comp no ps(2) lt by (subst fb_loop.simps) simp
            also have "\<dots> = (glob_prefix (drop pa pattern) (drop (st + 1) cs) \<or>
                (\<exists>k. st + 1 < k \<and> k \<le> length cs \<and> glob_prefix (drop pa pattern) (drop k cs)))"
              using 1(3) [OF t _ Comp no Some ps(1) [symmetric] lt] inv [OF ps(2)] 1(5) lt p by (simp add: slice_def)
            also have "\<dots> = ?later"
              using ps(2) lt later_split [of st "length cs" "\<lambda>k. glob_prefix (drop pa pattern) (drop k cs)"] by auto
            finally show ?thesis using miss by simp
          qed
        qed
      qed
    qed
  qed
qed

lemma fb_lead_spec:
  "\<forall>j<p. pattern ! j = DoubleStar \<Longrightarrow> p < length pattern \<or> pattern = [] \<Longrightarrow>
   (case fb_lead pattern p star of
      None \<Rightarrow> \<forall>j<length pattern. pattern ! j = DoubleStar
    | Some (q, star') \<Rightarrow> p \<le> q \<and> (q < length pattern \<or> pattern = [] \<and> q = p) \<and> (\<forall>j<q. pattern ! j = DoubleStar) \<and>
        star' = (if p < q then Some (q, 0) else star))"
proof (induction pattern p star rule: fb_lead.induct)
  case (1 pattern p star)
  show ?case
  proof (cases "p < length pattern \<and> pattern ! p = DoubleStar")
    case True
    show ?thesis
    proof (cases "p + 1 = length pattern")
      case last: True
      have "pattern ! j = DoubleStar" if "j < length pattern" for j using that True 1(2) last by (cases "j = p") auto
      then show ?thesis using True last by (subst fb_lead.simps) simp
    next
      case False
      have "fb_lead pattern p star = fb_lead pattern (p + 1) (Some (p + 1, 0))"
        using True False by (subst fb_lead.simps) simp
      then show ?thesis using 1(1) [OF True False] 1(2) True False by (auto simp: less_Suc_eq split: option.splits if_splits)
    qed
  next
    case False
    then show ?thesis using 1(2,3) by (subst fb_lead.simps) auto
  qed
qed

lemma glob_all_stars: "\<forall>t\<in>set ts. t = DoubleStar \<Longrightarrow> glob_prefix ts cs"
  by (induction ts) auto

lemma glob_lead_stars:
  "\<forall>t\<in>set seg. t = DoubleStar \<Longrightarrow> seg \<noteq> [] \<Longrightarrow> glob_prefix (seg @ ts) cs \<longleftrightarrow> glob_prefix (DoubleStar # ts) cs"
proof (induction seg arbitrary: cs)
  case (Cons x seg)
  show ?case
  proof (cases "seg = []")
    case False
    have twice: "glob_prefix (DoubleStar # DoubleStar # ts) cs \<longleftrightarrow> glob_prefix (DoubleStar # ts) cs" for cs
      by (induction cs) auto
    have "glob_prefix (DoubleStar # seg @ ts) cs \<longleftrightarrow> glob_prefix (DoubleStar # DoubleStar # ts) cs"
      unfolding glob_star_iff [of "seg @ ts"] glob_star_iff [of "DoubleStar # ts"] using Cons False by simp
    then show ?thesis using Cons.prems twice by simp
  qed (use Cons in simp)
qed simp

lemma match_prefix_components_spec: "match_prefix_components pattern cs = glob_prefix pattern cs"
proof -
  have spec: "case fb_lead pattern 0 None of
      None \<Rightarrow> \<forall>j<length pattern. pattern ! j = DoubleStar
    | Some (q, star') \<Rightarrow> 0 \<le> q \<and> (q < length pattern \<or> pattern = [] \<and> q = 0) \<and> (\<forall>j<q. pattern ! j = DoubleStar) \<and>
        star' = (if 0 < q then Some (q, 0) else None)"
    by (rule fb_lead_spec) auto
  show ?thesis
  proof (cases "fb_lead pattern 0 None")
    case None
    with spec have "\<forall>t\<in>set pattern. t = DoubleStar" by (auto simp: in_set_conv_nth)
    with None show ?thesis by (simp add: match_prefix_components_def glob_all_stars)
  next
    case (Some r)
    then obtain q st where r: "fb_lead pattern 0 None = Some (q, st)" by (cases r) auto
    with spec have q: "q \<le> length pattern" "\<forall>j<q. pattern ! j = DoubleStar" "st = (if 0 < q then Some (q, 0) else None)" by auto
    have "fb_loop pattern cs q 0 st = glob_prefix pattern cs"
    proof (cases "0 < q")
      case True
      then have st: "st = Some (q, 0)" using q(3) by simp
      have "fb_loop pattern cs q 0 (Some (q, 0)) \<longleftrightarrow> glob_prefix (drop q pattern) cs \<or>
          (\<exists>k. 0 < k \<and> k \<le> length cs \<and> glob_prefix (drop q pattern) (drop k cs))"
        using fb_loop_spec [of 0 cs q pattern "Some (q, 0)"] q(1) by (simp add: slice_def)
      also have "\<dots> \<longleftrightarrow> (\<exists>k. 0 \<le> k \<and> k \<le> length cs \<and> glob_prefix (drop q pattern) (drop k cs))"
        by (metis drop0 gr0I zero_le)
      also have "\<dots> \<longleftrightarrow> glob_prefix (DoubleStar # drop q pattern) cs"
        using glob_star_drop_iff [of 0 cs "drop q pattern"] by (simp only: drop0)
      also have "\<dots> \<longleftrightarrow> glob_prefix (take q pattern @ drop q pattern) cs"
      proof (rule glob_lead_stars [symmetric])
        show "\<forall>t\<in>set (take q pattern). t = DoubleStar"
        proof
          fix x assume "x \<in> set (take q pattern)"
          then obtain j where "j < q" "x = pattern ! j" by (auto simp: in_set_conv_nth)
          with q(2) show "x = DoubleStar" by blast
        qed
        show "take q pattern \<noteq> []" using True q(1) by auto
      qed
      finally show ?thesis unfolding st append_take_drop_id .
    next
      case False
      then show ?thesis using fb_loop_spec [of 0 cs 0 pattern None] q(3) by simp
    qed
    then show ?thesis using r by (simp add: match_prefix_components_def)
  qed
qed

lemma glob_exclude_spec:
  "matches_for_exclude (glob_new pattern) cs \<longleftrightarrow> (\<exists>k\<le>length cs. glob_match (map compile_component pattern) (take k cs))"
proof -
  have ts: "gr_tokens (glob_new pattern) = map compile_component pattern" by (simp add: glob_new_def Let_def)
  have "matches_for_exclude (glob_new pattern) cs = glob_prefix (map compile_component pattern) cs"
    using rule_ok_new [of pattern] matches_prefix_spec [of "glob_new pattern" cs] match_prefix_components_spec
    by (simp add: matches_for_exclude_def ts MAX_TOKENS_U128_def)
  then show ?thesis by (simp add: glob_prefix_match)
qed

lemma glob_strict_exact:
  "length pattern \<le> MAX_TOKENS_U128 \<Longrightarrow> is_strict_match (glob_new pattern) cs = glob_match (map compile_component pattern) cs"
  using rule_ok_new [of pattern] strict_match_spec [of "glob_new pattern" cs]
  by (simp add: MAX_TOKENS_U128_def) (simp add: glob_new_def Let_def)

section \<open>The path trie\<close>

record TrieNode =
  tn_children :: "(string \<times> nat) list"
  tn_terminal :: bool
  tn_subtree_has_terminal :: bool

definition tn_default :: TrieNode where
  "tn_default = \<lparr>tn_children = [], tn_terminal = False, tn_subtree_has_terminal = False\<rparr>"

type_synonym PathTrie = "TrieNode list"

definition trie_with_capacity :: PathTrie where
  "trie_with_capacity = [tn_default]"

fun trie_walk_insert :: "PathTrie \<Rightarrow> nat \<Rightarrow> path \<Rightarrow> PathTrie \<times> nat" where
  "trie_walk_insert t cur [] = (t, cur)"
| "trie_walk_insert t cur (key # cs) =
     (case hm_get (tn_children (t ! cur)) key of
        Some nxt \<Rightarrow> trie_walk_insert t nxt cs
      | None \<Rightarrow>
          let next_idx = length t;
              t = t @ [tn_default];
              t = t[cur := (t ! cur)\<lparr>tn_children := hm_insert key next_idx (tn_children (t ! cur))\<rparr>]
          in trie_walk_insert t next_idx cs)"

definition trie_insert :: "PathTrie \<Rightarrow> path \<Rightarrow> PathTrie" where
  "trie_insert t p = (case trie_walk_insert t 0 p of (t, cur) \<Rightarrow> t[cur := (t ! cur)\<lparr>tn_terminal := True\<rparr>])"

text \<open>\<open>finalize\<close> visits the nodes from the last to the first.\<close>

definition finalize_node :: "PathTrie \<Rightarrow> nat \<Rightarrow> PathTrie" where
  "finalize_node t i =
     t[i := (t ! i)\<lparr>tn_subtree_has_terminal :=
        tn_terminal (t ! i) \<or> list_ex (\<lambda>(k, child_idx). tn_subtree_has_terminal (t ! child_idx)) (tn_children (t ! i))\<rparr>]"

definition trie_finalize :: "PathTrie \<Rightarrow> PathTrie" where
  "trie_finalize t = foldl finalize_node t (rev [0..<length t])"

fun prefix_walk :: "PathTrie \<Rightarrow> nat \<Rightarrow> path \<Rightarrow> bool" where
  "prefix_walk t cur [] = False"
| "prefix_walk t cur (c # cs) =
     (case hm_get (tn_children (t ! cur)) c of
        Some nxt \<Rightarrow> if tn_terminal (t ! nxt) then True else prefix_walk t nxt cs
      | None \<Rightarrow> False)"

definition contains_prefix_of :: "PathTrie \<Rightarrow> path \<Rightarrow> bool" where
  "contains_prefix_of t p = (if tn_terminal (t ! 0) then True else prefix_walk t 0 p)"

fun include_walk :: "PathTrie \<Rightarrow> nat \<Rightarrow> path \<Rightarrow> bool" where
  "include_walk t cur [] = tn_subtree_has_terminal (t ! cur)"
| "include_walk t cur (c # cs) =
     (case hm_get (tn_children (t ! cur)) c of
        Some nxt \<Rightarrow> if tn_terminal (t ! nxt) then True else include_walk t nxt cs
      | None \<Rightarrow> False)"

definition matches_include_semantics :: "PathTrie \<Rightarrow> path \<Rightarrow> bool" where
  "matches_include_semantics t p = (if tn_terminal (t ! 0) then True else include_walk t 0 p)"

text \<open>Where a path leads from a node. Children come after their parent, and a node is reached by one path only.\<close>

fun walk :: "PathTrie \<Rightarrow> nat \<Rightarrow> path \<Rightarrow> nat option" where
  "walk t cur [] = Some cur"
| "walk t cur (c # cs) = (case hm_get (tn_children (t ! cur)) c of Some nxt \<Rightarrow> walk t nxt cs | None \<Rightarrow> None)"

definition trie_ok :: "PathTrie \<Rightarrow> bool" where
  "trie_ok t \<longleftrightarrow> t \<noteq> [] \<and>
     (\<forall>i<length t. \<forall>k j. hm_get (tn_children (t ! i)) k = Some j \<longrightarrow> i < j \<and> j < length t) \<and>
     (\<forall>i<length t. hm_ok (tn_children (t ! i))) \<and>
     (\<forall>p q i. walk t 0 p = Some i \<longrightarrow> walk t 0 q = Some i \<longrightarrow> p = q)"

definition trie_paths :: "PathTrie \<Rightarrow> path set" where
  "trie_paths t = {p. \<exists>i. walk t 0 p = Some i \<and> tn_terminal (t ! i)}"

lemma walk_append: "walk t i (p @ q) = (case walk t i p of Some j \<Rightarrow> walk t j q | None \<Rightarrow> None)"
  by (induction p arbitrary: i) (auto split: option.splits)

lemma trie_ok_child: "trie_ok t \<Longrightarrow> i < length t \<Longrightarrow> hm_get (tn_children (t ! i)) k = Some j \<Longrightarrow> i < j \<and> j < length t"
  unfolding trie_ok_def by blast

lemma trie_ok_inj: "trie_ok t \<Longrightarrow> walk t 0 p = Some i \<Longrightarrow> walk t 0 q = Some i \<Longrightarrow> p = q"
  unfolding trie_ok_def by blast

lemma trie_ok_root: "trie_ok t \<Longrightarrow> 0 < length t"
  unfolding trie_ok_def by blast

lemma trie_ok_hm: "trie_ok t \<Longrightarrow> i < length t \<Longrightarrow> hm_ok (tn_children (t ! i))"
  unfolding trie_ok_def by blast

lemma walk_bound: "trie_ok t \<Longrightarrow> i < length t \<Longrightarrow> walk t i p = Some j \<Longrightarrow> j < length t"
  by (induction p arbitrary: i) (auto split: option.splits dest: trie_ok_child)

definition add_leaf :: "PathTrie \<Rightarrow> nat \<Rightarrow> string \<Rightarrow> PathTrie" where
  "add_leaf t cur key = (t @ [tn_default])[cur := ((t @ [tn_default]) ! cur)\<lparr>tn_children := hm_insert key (length t) (tn_children ((t @ [tn_default]) ! cur))\<rparr>]"

lemma add_leaf_nth:
  assumes "cur < length t"
  shows "length (add_leaf t cur key) = Suc (length t)"
    "i < length t \<Longrightarrow> tn_children (add_leaf t cur key ! i) = (if i = cur then hm_insert key (length t) (tn_children (t ! i)) else tn_children (t ! i))"
    "i < length t \<Longrightarrow> tn_terminal (add_leaf t cur key ! i) = tn_terminal (t ! i)"
    "add_leaf t cur key ! length t = tn_default"
  using assms by (auto simp: add_leaf_def nth_append nth_list_update)

lemma add_leaf_walk:
  assumes "trie_ok t" "cur < length t" "hm_get (tn_children (t ! cur)) key = None" "i < length t"
  shows "walk (add_leaf t cur key) i p = Some j \<longleftrightarrow>
    walk t i p = Some j \<or> (j = length t \<and> (\<exists>r. p = r @ [key] \<and> walk t i r = Some cur))"
  using assms(4)
proof (induction p arbitrary: i)
  case Nil
  then show ?case by auto
next
  case (Cons c cs)
  show ?case
  proof (cases "i = cur \<and> c = key")
    case True
    have "walk (add_leaf t cur key) i (c # cs) = walk (add_leaf t cur key) (length t) cs"
      using True add_leaf_nth(2) [OF assms(2), of i key] Cons.prems by (simp add: hm_get_insert)
    also have "\<dots> = (if cs = [] then Some (length t) else None)"
      using add_leaf_nth(4) [OF assms(2)] by (cases cs) (simp_all add: tn_default_def)
    finally have l: "walk (add_leaf t cur key) i (c # cs) = (if cs = [] then Some (length t) else None)" .
    have r: "(\<exists>r. c # cs = r @ [key] \<and> walk t i r = Some cur) \<longleftrightarrow> cs = []"
    proof
      assume "\<exists>r. c # cs = r @ [key] \<and> walk t i r = Some cur"
      then obtain r where "c # cs = r @ [key]" "walk t i r = Some cur" by blast
      then show "cs = []" using True assms(3) by (cases r) auto
    next
      assume "cs = []"
      then show "\<exists>r. c # cs = r @ [key] \<and> walk t i r = Some cur" using True by (intro exI [of _ "[]"]) simp
    qed
    show ?thesis unfolding l r using True assms(3) by auto
  next
    case False
    have ch: "hm_get (tn_children (add_leaf t cur key ! i)) c = hm_get (tn_children (t ! i)) c"
      using add_leaf_nth(2) [OF assms(2), of i key] Cons.prems False by (auto simp: hm_get_insert)
    have r: "(\<exists>r. c # cs = r @ [key] \<and> walk t i r = Some cur) \<longleftrightarrow> (\<exists>r. cs = r @ [key] \<and> walk t i (c # r) = Some cur)"
    proof
      assume "\<exists>r. c # cs = r @ [key] \<and> walk t i r = Some cur"
      then obtain r where "c # cs = r @ [key]" "walk t i r = Some cur" by blast
      then show "\<exists>r. cs = r @ [key] \<and> walk t i (c # r) = Some cur" using False by (cases r) auto
    next
      assume "\<exists>r. cs = r @ [key] \<and> walk t i (c # r) = Some cur"
      then obtain r where "cs = r @ [key]" "walk t i (c # r) = Some cur" by blast
      then show "\<exists>r. c # cs = r @ [key] \<and> walk t i r = Some cur" by (intro exI [of _ "c # r"]) simp
    qed
    show ?thesis unfolding r
    proof (cases "hm_get (tn_children (t ! i)) c")
      case None
      then show "walk (add_leaf t cur key) i (c # cs) = Some j \<longleftrightarrow>
          walk t i (c # cs) = Some j \<or> (j = length t \<and> (\<exists>r. cs = r @ [key] \<and> walk t i (c # r) = Some cur))" using ch by simp
    next
      case (Some k)
      then have "k < length t" using trie_ok_child [OF assms(1) Cons.prems] by blast
      from Cons.IH [OF this] show "walk (add_leaf t cur key) i (c # cs) = Some j \<longleftrightarrow>
          walk t i (c # cs) = Some j \<or> (j = length t \<and> (\<exists>r. cs = r @ [key] \<and> walk t i (c # r) = Some cur))" using ch Some by simp
    qed
  qed
qed

lemma add_leaf_props:
  assumes "trie_ok t" "walk t 0 p = Some cur" "hm_get (tn_children (t ! cur)) key = None"
  shows "trie_ok (add_leaf t cur key)" "trie_paths (add_leaf t cur key) = trie_paths t"
    "walk (add_leaf t cur key) 0 (p @ [key]) = Some (length t)"
proof -
  have cur: "cur < length t" by (rule walk_bound [OF assms(1) trie_ok_root [OF assms(1)] assms(2)])
  note walk' = add_leaf_walk [OF assms(1) cur assms(3) trie_ok_root [OF assms(1)]]
  have old: "j < length t" if "walk t 0 q = Some j" for q j by (rule walk_bound [OF assms(1) trie_ok_root [OF assms(1)] that])
  show "walk (add_leaf t cur key) 0 (p @ [key]) = Some (length t)" unfolding walk' using assms(2) by blast
  show "trie_paths (add_leaf t cur key) = trie_paths t"
  proof (rule set_eqI)
    fix q
    have "walk (add_leaf t cur key) 0 q = Some j \<and> tn_terminal (add_leaf t cur key ! j) \<longleftrightarrow> walk t 0 q = Some j \<and> tn_terminal (t ! j)" for j
    proof (cases "j < length t")
      case True
      then show ?thesis unfolding walk' add_leaf_nth(3) [OF cur True] by auto
    next
      case False
      moreover have "\<not> tn_terminal (add_leaf t cur key ! length t)" unfolding add_leaf_nth(4) [OF cur] by (simp add: tn_default_def)
      ultimately show ?thesis unfolding walk' using old by auto
    qed
    then show "q \<in> trie_paths (add_leaf t cur key) \<longleftrightarrow> q \<in> trie_paths t" by (simp add: trie_paths_def)
  qed
  show "trie_ok (add_leaf t cur key)"
    unfolding trie_ok_def
  proof (intro conjI allI impI)
    show "add_leaf t cur key \<noteq> []" using add_leaf_nth(1) [OF cur, of key] by auto
    fix i
    show "hm_ok (tn_children (add_leaf t cur key ! i))" if "i < length (add_leaf t cur key)"
    proof (cases "i < length t")
      case True
      with trie_ok_hm [OF assms(1) True] add_leaf_nth(2) [OF cur True] show ?thesis by (cases "i = cur") auto
    next
      case False
      with that have "i = length t" using add_leaf_nth(1) [OF cur] by simp
      then show ?thesis using add_leaf_nth(4) [OF cur] by (simp add: tn_default_def)
    qed
    fix k j assume i: "i < length (add_leaf t cur key)" and g: "hm_get (tn_children (add_leaf t cur key ! i)) k = Some j"
    have "i < length t" using i g add_leaf_nth(1,4) [OF cur] by (cases "i = length t") (auto simp: tn_default_def)
    then have "i < j \<and> j < Suc (length t)"
      using g add_leaf_nth(2) [OF cur] trie_ok_child [OF assms(1), of i k j] by (auto simp: hm_get_insert split: if_splits)
    then show "i < j" "j < length (add_leaf t cur key)" using add_leaf_nth(1) [OF cur] by simp_all
  next
    fix q r i assume qr: "walk (add_leaf t cur key) 0 q = Some i" "walk (add_leaf t cur key) 0 r = Some i"
    show "q = r"
    proof (cases "i < length t")
      case True
      with qr show ?thesis unfolding walk' using trie_ok_inj [OF assms(1), of q i r] by auto
    next
      case False
      with qr old obtain q' r' where "q = q' @ [key]" "walk t 0 q' = Some cur" "r = r' @ [key]" "walk t 0 r' = Some cur"
        unfolding walk' by blast
      then show ?thesis using trie_ok_inj [OF assms(1), of q' cur r'] by simp
    qed
  qed
qed

lemma trie_walk_insert_props:
  "trie_ok t \<Longrightarrow> walk t 0 p = Some cur \<Longrightarrow> trie_walk_insert t cur cs = (t', cur') \<Longrightarrow>
   trie_ok t' \<and> walk t' 0 (p @ cs) = Some cur' \<and> trie_paths t' = trie_paths t"
proof (induction t cur cs arbitrary: p rule: trie_walk_insert.induct)
  case (2 t cur key cs)
  show ?case
  proof (cases "hm_get (tn_children (t ! cur)) key")
    case None
    then have "trie_walk_insert (add_leaf t cur key) (length t) cs = (t', cur')" using 2(5) by (simp add: add_leaf_def Let_def)
    with 2(1) [OF None refl refl refl] add_leaf_props [OF 2(3,4) None] show ?thesis
      unfolding add_leaf_def by (metis append.assoc append_Cons append_Nil)
  next
    case (Some nxt)
    have "walk t 0 (p @ [key]) = Some nxt" using 2(4) Some by (simp add: walk_append)
    with 2(2) [OF Some 2(3) this] 2(5) Some show ?thesis by simp
  qed
qed auto

lemma walk_cong: "length t' = length t \<Longrightarrow> \<forall>i<length t. tn_children (t' ! i) = tn_children (t ! i) \<Longrightarrow> trie_ok t \<Longrightarrow> i < length t \<Longrightarrow>
  walk t' i p = walk t i p"
  by (induction p arbitrary: i) (auto split: option.splits dest: trie_ok_child)

lemma trie_ok_cong:
  assumes "length t' = length t" "\<forall>i<length t. tn_children (t' ! i) = tn_children (t ! i)" "trie_ok t"
  shows "trie_ok t'"
proof -
  note w = walk_cong [OF assms trie_ok_root [OF assms(3)]]
  have "\<forall>i<length t. \<forall>k j. hm_get (tn_children (t' ! i)) k = Some j \<longrightarrow> i < j \<and> j < length t"
    using assms(2) trie_ok_child [OF assms(3)] by metis
  moreover have "\<forall>i<length t. hm_ok (tn_children (t' ! i))" using assms(2) trie_ok_hm [OF assms(3)] by simp
  moreover have "t' \<noteq> []" using assms(1) trie_ok_root [OF assms(3)] by auto
  moreover have "\<forall>p q i. walk t' 0 p = Some i \<longrightarrow> walk t' 0 q = Some i \<longrightarrow> p = q" unfolding w using trie_ok_inj [OF assms(3)] by blast
  ultimately show ?thesis unfolding trie_ok_def assms(1) by blast
qed

lemma trie_insert_props:
  assumes "trie_ok t"
  shows "trie_ok (trie_insert t p) \<and> trie_paths (trie_insert t p) = insert p (trie_paths t)"
proof -
  obtain t' cur where r: "trie_walk_insert t 0 p = (t', cur)" by fastforce
  from trie_walk_insert_props [OF assms _ r, of "[]"] have t': "trie_ok t'" "walk t' 0 p = Some cur" "trie_paths t' = trie_paths t" by simp_all
  let ?t = "t'[cur := (t' ! cur)\<lparr>tn_terminal := True\<rparr>]"
  have cur: "cur < length t'" by (rule walk_bound [OF t'(1) trie_ok_root [OF t'(1)] t'(2)])
  have ch: "length ?t = length t'" "\<forall>i<length t'. tn_children (?t ! i) = tn_children (t' ! i)" using cur by (auto simp: nth_list_update)
  note w = walk_cong [OF ch t'(1) trie_ok_root [OF t'(1)]]
  have "trie_paths ?t = insert p (trie_paths t')"
  proof (rule set_eqI)
    fix q
    show "q \<in> trie_paths ?t \<longleftrightarrow> q \<in> insert p (trie_paths t')"
    proof -
      have "walk t' 0 q = Some i \<and> tn_terminal (?t ! i) \<longleftrightarrow> walk t' 0 q = Some i \<and> (q = p \<or> tn_terminal (t' ! i))" for i
        using cur t'(2) trie_ok_inj [OF t'(1), of q cur p] by (cases "i = cur") auto
      then show ?thesis unfolding trie_paths_def w mem_Collect_eq insert_iff using t'(2) by blast
    qed
  qed
  then show ?thesis using trie_ok_cong [OF ch t'(1)] t'(3) r by (simp add: trie_insert_def)
qed

text \<open>Lookups.\<close>

definition hits :: "PathTrie \<Rightarrow> nat \<Rightarrow> path \<Rightarrow> bool" where
  "hits t i p \<longleftrightarrow> (\<exists>j. walk t i p = Some j \<and> tn_terminal (t ! j))"

lemma trie_paths_hits: "trie_paths t = {p. hits t 0 p}"
  by (simp add: trie_paths_def hits_def)

lemma hits_Nil [simp]: "hits t i [] = tn_terminal (t ! i)"
  by (simp add: hits_def)

lemma hits_Cons: "hits t i (c # cs) = (case hm_get (tn_children (t ! i)) c of Some j \<Rightarrow> hits t j cs | None \<Rightarrow> False)"
  by (auto simp: hits_def split: option.splits)

lemma prefix_ex_Cons: "(\<exists>q. prefix q (c # cs) \<and> P q) \<longleftrightarrow> P [] \<or> (\<exists>q. prefix q cs \<and> P (c # q))"
  by (auto simp: prefix_Cons)

lemma prefix_walk_spec:
  "(tn_terminal (t ! i) \<or> prefix_walk t i p) \<longleftrightarrow> (\<exists>q. prefix q p \<and> hits t i q)"
proof (induction p arbitrary: i)
  case (Cons c cs)
  show ?case unfolding prefix_ex_Cons
  proof (cases "hm_get (tn_children (t ! i)) c")
    case None
    then show "(tn_terminal (t ! i) \<or> prefix_walk t i (c # cs)) = (hits t i [] \<or> (\<exists>q. prefix q cs \<and> hits t i (c # q)))"
      by (simp add: hits_Cons)
  next
    case (Some j)
    then show "(tn_terminal (t ! i) \<or> prefix_walk t i (c # cs)) = (hits t i [] \<or> (\<exists>q. prefix q cs \<and> hits t i (c # q)))"
      using Cons.IH [of j] by (auto simp: hits_Cons)
  qed
qed simp

lemma contains_prefix_spec: "contains_prefix_of t p \<longleftrightarrow> (\<exists>q\<in>trie_paths t. prefix q p)"
  using prefix_walk_spec [of t 0 p] by (auto simp: contains_prefix_of_def trie_paths_hits)

text \<open>After \<open>finalize\<close> the flag of a node says that a terminal can be reached from it.\<close>

definition flags_from :: "nat \<Rightarrow> PathTrie \<Rightarrow> bool" where
  "flags_from m t \<longleftrightarrow> (\<forall>i. m \<le> i \<longrightarrow> i < length t \<longrightarrow> tn_subtree_has_terminal (t ! i) = (\<exists>q. hits t i q))"

lemma reach_step:
  assumes "trie_ok t" "i < length t"
  shows "(\<exists>q. hits t i q) \<longleftrightarrow> tn_terminal (t ! i) \<or> (\<exists>(k, j)\<in>set (tn_children (t ! i)). \<exists>q. hits t j q)"
proof
  assume "\<exists>q. hits t i q"
  then obtain q where q: "hits t i q" by blast
  show "tn_terminal (t ! i) \<or> (\<exists>(k, j)\<in>set (tn_children (t ! i)). \<exists>q. hits t j q)"
  proof (cases q)
    case Nil
    with q show ?thesis by simp
  next
    case (Cons c cs)
    with q obtain j where "hm_get (tn_children (t ! i)) c = Some j" "hits t j cs" by (auto simp: hits_Cons split: option.splits)
    then show ?thesis by (auto dest!: map_of_SomeD)
  qed
next
  assume "tn_terminal (t ! i) \<or> (\<exists>(k, j)\<in>set (tn_children (t ! i)). \<exists>q. hits t j q)"
  then show "\<exists>q. hits t i q"
  proof
    assume "tn_terminal (t ! i)"
    then show ?thesis by (intro exI [of _ "[]"]) simp
  next
    assume "\<exists>(k, j)\<in>set (tn_children (t ! i)). \<exists>q. hits t j q"
    then obtain k j q where "(k, j) \<in> set (tn_children (t ! i))" "hits t j q" by blast
    moreover from this(1) have "hm_get (tn_children (t ! i)) k = Some j" using hm_get_set [OF trie_ok_hm [OF assms]] by blast
    ultimately have "hits t i (k # q)" by (simp add: hits_Cons)
    then show ?thesis by blast
  qed
qed

lemma hits_cong:
  assumes "length t' = length t" "\<forall>i<length t. tn_children (t' ! i) = tn_children (t ! i) \<and> tn_terminal (t' ! i) = tn_terminal (t ! i)"
    "trie_ok t" "i < length t"
  shows "hits t' i q = hits t i q"
proof -
  have "walk t' i q = walk t i q" using walk_cong [of t' t i q] assms by blast
  then show ?thesis using walk_bound [OF assms(3,4)] assms(2) unfolding hits_def by metis
qed

lemma finalize_node_same:
  "length (finalize_node t i) = length t"
  "j < length t \<Longrightarrow> tn_children (finalize_node t i ! j) = tn_children (t ! j) \<and> tn_terminal (finalize_node t i ! j) = tn_terminal (t ! j)"
  by (simp add: finalize_node_def) (cases "i = j", simp_all add: finalize_node_def)

lemma finalize_node_flags:
  assumes "trie_ok t" "flags_from (Suc m) t" "m < length t"
  shows "trie_ok (finalize_node t m) \<and> flags_from m (finalize_node t m)"
proof -
  let ?t = "finalize_node t m"
  have same: "length ?t = length t" "\<forall>i<length t. tn_children (?t ! i) = tn_children (t ! i) \<and> tn_terminal (?t ! i) = tn_terminal (t ! i)"
    using finalize_node_same by blast+
  have ok: "trie_ok ?t" by (rule trie_ok_cong [OF same(1) _ assms(1)]) (use same(2) in blast)
  have hit: "hits ?t i q = hits t i q" if "i < length t" for i q by (rule hits_cong [OF same assms(1) that])
  have kids: "tn_subtree_has_terminal (t ! j) = (\<exists>q. hits t j q)" if "(k, j) \<in> set (tn_children (t ! m))" for k j
  proof -
    have "m < j \<and> j < length t"
      using that hm_get_set [OF trie_ok_hm [OF assms(1,3)]] trie_ok_child [OF assms(1,3)] by blast
    then show ?thesis using assms(2) by (simp add: flags_from_def)
  qed
  have "flags_from m ?t" unfolding flags_from_def
  proof (intro allI impI)
    fix i assume i: "m \<le> i" "i < length ?t"
    show "tn_subtree_has_terminal (?t ! i) = (\<exists>q. hits ?t i q)"
    proof (cases "i = m")
      case True
      have "tn_subtree_has_terminal (?t ! m) = (tn_terminal (t ! m) \<or> (\<exists>(k, j)\<in>set (tn_children (t ! m)). tn_subtree_has_terminal (t ! j)))"
        using assms(3) by (auto simp: finalize_node_def list_ex_iff)
      also have "\<dots> = (\<exists>q. hits t m q)" unfolding reach_step [OF assms(1,3)] using kids by blast
      finally show ?thesis using True hit [OF assms(3)] by simp
    next
      case False
      then have "?t ! i = t ! i" by (simp add: finalize_node_def)
      with False i same(1) assms(2) hit [of i] show ?thesis by (simp add: flags_from_def)
    qed
  qed
  with ok show ?thesis by blast
qed

lemma foldl_finalize:
  "trie_ok t \<Longrightarrow> m \<le> length t \<Longrightarrow>
   let t' = foldl finalize_node t (rev [m..<length t]) in
     length t' = length t \<and> trie_ok t' \<and> flags_from m t' \<and> trie_paths t' = trie_paths t"
proof (induction "length t - m" arbitrary: m)
  case 0
  then show ?case by (simp add: flags_from_def)
next
  case (Suc n)
  let ?t = "foldl finalize_node t (rev [Suc m..<length t])"
  from Suc have m: "m < length t" by simp
  with Suc have ih: "length ?t = length t" "trie_ok ?t" "flags_from (Suc m) ?t" "trie_paths ?t = trie_paths t"
    using Suc.hyps(1) [of "Suc m"] by (simp_all add: Let_def)
  have eq: "foldl finalize_node t (rev [m..<length t]) = finalize_node ?t m" using m by (simp add: upt_conv_Cons)
  have m': "m < length ?t" using m ih(1) by simp
  have "trie_paths (finalize_node ?t m) = trie_paths ?t"
    unfolding trie_paths_hits using hits_cong [OF finalize_node_same(1) _ ih(2) trie_ok_root [OF ih(2)]] finalize_node_same(2) by blast
  then show ?case unfolding eq Let_def using finalize_node_flags [OF ih(2,3) m'] finalize_node_same(1) ih(1,4) by simp
qed

lemma trie_finalize_props:
  assumes "trie_ok t"
  shows "trie_ok (trie_finalize t) \<and> flags_from 0 (trie_finalize t) \<and> trie_paths (trie_finalize t) = trie_paths t"
  using foldl_finalize [OF assms, of 0] by (simp add: trie_finalize_def Let_def)

lemma include_walk_spec:
  assumes "trie_ok t" "flags_from 0 t"
  shows "i < length t \<Longrightarrow>
    (tn_terminal (t ! i) \<or> include_walk t i p) \<longleftrightarrow> (\<exists>q. hits t i q \<and> (prefix q p \<or> prefix p q))"
proof (induction p arbitrary: i)
  case Nil
  have "tn_terminal (t ! i) \<Longrightarrow> \<exists>q. hits t i q" by (intro exI [of _ "[]"]) simp
  then show ?case using Nil assms(2) by (auto simp: flags_from_def)
next
  case (Cons c cs)
  have ex: "(\<exists>q. hits t i q \<and> (prefix q (c # cs) \<or> prefix (c # cs) q)) \<longleftrightarrow>
      hits t i [] \<or> (\<exists>q. hits t i (c # q) \<and> (prefix q cs \<or> prefix cs q))"
  proof -
    have iff: "(prefix q (c # cs) \<or> prefix (c # cs) q) \<longleftrightarrow> q = [] \<or> (\<exists>r. q = c # r \<and> (prefix r cs \<or> prefix cs r))" for q
      by (cases q) auto
    show ?thesis unfolding iff by blast
  qed
  show ?case unfolding ex
  proof (cases "hm_get (tn_children (t ! i)) c")
    case None
    then show "(tn_terminal (t ! i) \<or> include_walk t i (c # cs)) =
        (hits t i [] \<or> (\<exists>q. hits t i (c # q) \<and> (prefix q cs \<or> prefix cs q)))" by (simp add: hits_Cons)
  next
    case (Some j)
    then have "j < length t" using trie_ok_child [OF assms(1) Cons.prems] by blast
    with Some Cons.IH [of j] show "(tn_terminal (t ! i) \<or> include_walk t i (c # cs)) =
        (hits t i [] \<or> (\<exists>q. hits t i (c # q) \<and> (prefix q cs \<or> prefix cs q)))" by (auto simp: hits_Cons)
  qed
qed

lemma matches_include_spec:
  assumes "trie_ok t" "flags_from 0 t"
  shows "matches_include_semantics t p \<longleftrightarrow> (\<exists>q\<in>trie_paths t. prefix q p \<or> prefix p q)"
  using include_walk_spec [OF assms trie_ok_root [OF assms(1)], of p] by (auto simp: matches_include_semantics_def trie_paths_hits)

section \<open>The filter\<close>

record PathFilter =
  include_trie :: "PathTrie option"
  exclude_trie :: "PathTrie option"
  exclude_globs :: "GlobRule list"

definition build_trie :: "path list \<Rightarrow> PathTrie" where
  "build_trie ps = trie_finalize (foldl trie_insert trie_with_capacity ps)"

definition filter_new :: "path list option \<Rightarrow> path list option \<Rightarrow> PathFilter" where
  "filter_new incl excl =
     (let include_trie = map_option build_trie incl;
          (trie, globs) =
            (case excl of
               None \<Rightarrow> (None, [])
             | Some ps \<Rightarrow>
                 let globs = map glob_new (filter has_meta ps);
                     literals = filter (\<lambda>p. \<not> has_meta p) ps
                 in (if literals \<noteq> [] then Some (build_trie literals) else None, globs))
      in \<lparr>include_trie = include_trie, exclude_trie = trie, exclude_globs = globs\<rparr>)"

definition allow :: "PathFilter \<Rightarrow> path \<Rightarrow> bool" where
  "allow f p =
     (if (case exclude_trie f of Some t \<Rightarrow> contains_prefix_of t p | None \<Rightarrow> False) then False
      else if list_ex (\<lambda>g. matches_for_exclude g p) (exclude_globs f) then False
      else case include_trie f of None \<Rightarrow> True | Some inc \<Rightarrow> matches_include_semantics inc p)"

lemma trie_new_props: "trie_ok trie_with_capacity \<and> trie_paths trie_with_capacity = {}"
proof -
  have "walk trie_with_capacity 0 p = (if p = [] then Some 0 else None)" for p
    by (cases p) (simp_all add: trie_with_capacity_def tn_default_def)
  then show ?thesis by (auto simp: trie_ok_def trie_paths_def trie_with_capacity_def tn_default_def)
qed

lemma foldl_insert_props:
  "trie_ok t \<Longrightarrow> trie_ok (foldl trie_insert t ps) \<and> trie_paths (foldl trie_insert t ps) = set ps \<union> trie_paths t"
proof (induction ps arbitrary: t)
  case (Cons p ps)
  then show ?case using trie_insert_props [OF Cons.prems, of p] by auto
qed simp

lemma build_trie_props: "trie_ok (build_trie ps) \<and> flags_from 0 (build_trie ps) \<and> trie_paths (build_trie ps) = set ps"
  using trie_finalize_props [of "foldl trie_insert trie_with_capacity ps"] foldl_insert_props [of trie_with_capacity ps] trie_new_props
  by (simp add: build_trie_def)

text \<open>What a filter means: a pattern without wildcards excludes everything below it.\<close>

definition excluded :: "path \<Rightarrow> path \<Rightarrow> bool" where
  "excluded pattern p \<longleftrightarrow>
     (if has_meta pattern then \<exists>k\<le>length p. glob_match (map compile_component pattern) (take k p) else prefix pattern p)"

lemma allow_spec:
  "allow (filter_new incl excl) p \<longleftrightarrow>
     (\<forall>e\<in>set (case excl of None \<Rightarrow> [] | Some ps \<Rightarrow> ps). \<not> excluded e p) \<and>
     (case incl of None \<Rightarrow> True | Some is \<Rightarrow> \<exists>i\<in>set is. prefix i p \<or> prefix p i)"
proof -
  have inc: "(case include_trie (filter_new incl excl) of None \<Rightarrow> True | Some inc \<Rightarrow> matches_include_semantics inc p) \<longleftrightarrow>
      (case incl of None \<Rightarrow> True | Some is \<Rightarrow> \<exists>i\<in>set is. prefix i p \<or> prefix p i)"
    using build_trie_props matches_include_spec by (cases incl) (simp_all add: filter_new_def Let_def split: prod.splits)
  show ?thesis
  proof (cases excl)
    case None
    then show ?thesis using inc by (simp add: allow_def filter_new_def Let_def)
  next
    case (Some ps)
    let ?lit = "filter (\<lambda>p. \<not> has_meta p) ps"
    have t: "exclude_trie (filter_new incl excl) = (if ?lit \<noteq> [] then Some (build_trie ?lit) else None)"
      "exclude_globs (filter_new incl excl) = map glob_new (filter has_meta ps)"
      using Some by (simp_all add: filter_new_def Let_def)
    have "(case exclude_trie (filter_new incl excl) of Some t \<Rightarrow> contains_prefix_of t p | None \<Rightarrow> False) \<longleftrightarrow>
        (\<exists>e\<in>set ps. \<not> has_meta e \<and> excluded e p)"
      unfolding t using build_trie_props [of ?lit] contains_prefix_spec [of "build_trie ?lit" p]
      by (auto simp: excluded_def filter_empty_conv)
    moreover have "list_ex (\<lambda>g. matches_for_exclude g p) (exclude_globs (filter_new incl excl)) \<longleftrightarrow>
        (\<exists>e\<in>set ps. has_meta e \<and> excluded e p)"
      unfolding t by (auto simp: list_ex_iff excluded_def glob_exclude_spec)
    ultimately show ?thesis using inc Some unfolding allow_def by auto
  qed
qed

text \<open>C32: The filter allows exactly the paths that no exclude pattern excludes and that, when there are include
  paths, lie inside an included path or on the way to one.\<close>

theorem filter_allow_exact:
  "allow (filter_new incl excl) p \<longleftrightarrow>
     (\<nexists>e. e \<in> set (case excl of None \<Rightarrow> [] | Some ps \<Rightarrow> ps) \<and> excluded e p) \<and>
     (case incl of None \<Rightarrow> True | Some is \<Rightarrow> \<exists>i. i \<in> set is \<and> (prefix i p \<or> prefix p i))"
  unfolding allow_spec by (auto split: option.splits)

text \<open>A directory that is not allowed has nothing allowed below it, so that a traversal may skip it.\<close>

lemma excluded_below: "excluded e p \<Longrightarrow> prefix p q \<Longrightarrow> excluded e q"
proof -
  assume e: "excluded e p" and "prefix p q"
  then obtain r where q: "q = p @ r" by (auto simp: prefix_def)
  show ?thesis
  proof (cases "has_meta e")
    case True
    with e obtain k where "k \<le> length p" "glob_match (map compile_component e) (take k p)" by (auto simp: excluded_def)
    with True q show ?thesis by (auto simp: excluded_def intro!: exI [of _ k])
  next
    case False
    with e q show ?thesis by (auto simp: excluded_def)
  qed
qed

lemma allow_prefix:
  assumes "allow (filter_new incl excl) q" "prefix p q"
  shows "allow (filter_new incl excl) p"
proof -
  have "prefix i p \<or> prefix p i" if "prefix i q \<or> prefix q i" for i
    using that assms(2) prefix_same_cases [of i q p] prefix_order.trans by blast
  with assms excluded_below show ?thesis unfolding allow_spec by (auto split: option.splits) blast+
qed

end
