(* ===== verification/FsTree.thy ===== *)
theory FsTree
  imports Repository FsFilter
begin

unbundle bit_operations_syntax

text \<open>
  Nodes and trees (\<open>fs/node.rs\<close>, \<open>fs/tree.rs\<close>): the metadata of a node, saving and loading a tree object, the
  depth-first streams over stored trees, the difference of two streams, the reader of a file's content and the
  lookup of a path.

  A stream is the function that computes its next item; \<open>load\<close> is \<open>Tree::load_from_repo\<close> on a repository that does
  not change while the stream is read. Times are nanoseconds since the epoch. \<open>forest\<close> is the directory tree that a
  stored tree stands for; the streams are proved against it.
\<close>

section \<open>Nodes\<close>

datatype NodeType = FileNode | Directory | Symlink | BlockDevice | CharDevice | Fifo | Socket

record Metadata =
  md_size :: u64
  md_accessed_time :: "int option"
  md_created_time :: "int option"
  md_modified_time :: "int option"
  md_mode :: "u32 option"
  md_owner_uid :: "u32 option"
  md_owner_gid :: "u32 option"
  md_inode :: "u64 option"
  md_dev :: "u64 option"
  md_nlink :: "u64 option"
  md_rdev :: "u64 option"
  md_extended_attributes :: "(string \<times> bytes) list option"
  md_windows_attributes :: "u32 option"
  md_linux_flags :: "u32 option"

record SymlinkInfo =
  sl_target_path :: path
  sl_target_type :: "NodeType option"

record Node =
  nd_name :: string
  nd_type :: NodeType
  nd_metadata :: Metadata
  nd_symlink_info :: "SymlinkInfo option"
  nd_blobs :: "ID list option"
  nd_tree :: "ID option"

definition is_dir :: "Node \<Rightarrow> bool" where "is_dir n \<longleftrightarrow> nd_type n = Directory"
definition is_file :: "Node \<Rightarrow> bool" where "is_file n \<longleftrightarrow> nd_type n = FileNode"
definition is_symlink :: "Node \<Rightarrow> bool" where "is_symlink n \<longleftrightarrow> nd_type n = Symlink"

subsection \<open>Metadata from \<open>statx\<close>\<close>

record statx_timestamp =
  tv_sec :: "64 word"
  tv_nsec :: u32

record statx =
  stx_mask :: u32
  stx_attributes :: u64
  stx_nlink :: u32
  stx_uid :: u32
  stx_gid :: u32
  stx_mode :: u16
  stx_ino :: u64
  stx_size :: u64
  stx_atime :: statx_timestamp
  stx_btime :: statx_timestamp
  stx_mtime :: statx_timestamp
  stx_rdev_major :: u32
  stx_rdev_minor :: u32
  stx_dev_major :: u32
  stx_dev_minor :: u32

definition NANOS :: int where "NANOS = 1000000000"

text \<open>\<open>tv_sec\<close> is signed; its absolute value is taken as unsigned.\<close>

definition statx_to_system_time :: "statx_timestamp \<Rightarrow> int" where
  "statx_to_system_time ts =
     (if sint (tv_sec ts) \<ge> 0
      then 0 + (sint (tv_sec ts) * NANOS + int (unat (tv_nsec ts)))
      else 0 - (abs (sint (tv_sec ts)) * NANOS + int (unat (tv_nsec ts))))"

definition makedev :: "u32 \<Rightarrow> u32 \<Rightarrow> u64" where
  "makedev major minor =
     ucast (minor AND 0xff)
     OR push_bit 8 (ucast (major AND 0xfff))
     OR push_bit 12 (ucast (minor AND NOT 0xff))
     OR push_bit 32 (ucast (major AND NOT 0xfff))"

definition STATX_ATIME :: u32 where "STATX_ATIME = 0x0020"
definition STATX_BTIME :: u32 where "STATX_BTIME = 0x0800"

definition SUPPORTED_FLAGS_MASK :: u64 where
  "SUPPORTED_FLAGS_MASK = 0x0004 OR 0x0010 OR 0x0020 OR 0x0040 OR 0x0080 OR 0x0800 OR 0x100000 OR 0x200000"

definition from_statx :: "statx \<Rightarrow> bool \<Rightarrow> Metadata" where
  "from_statx sx with_atime =
     \<lparr>md_size = stx_size sx,
      md_accessed_time =
        (if with_atime \<and> stx_mask sx AND STATX_ATIME \<noteq> 0 then Some (statx_to_system_time (stx_atime sx)) else None),
      md_created_time = (if stx_mask sx AND STATX_BTIME \<noteq> 0 then Some (statx_to_system_time (stx_btime sx)) else None),
      md_modified_time = Some (statx_to_system_time (stx_mtime sx)),
      md_mode = Some (ucast (stx_mode sx)),
      md_owner_uid = Some (stx_uid sx), md_owner_gid = Some (stx_gid sx), md_inode = Some (stx_ino sx),
      md_dev = Some (makedev (stx_dev_major sx) (stx_dev_minor sx)),
      md_nlink = Some (ucast (stx_nlink sx)),
      md_rdev = (if stx_mask sx AND 0x0400 \<noteq> 0 then Some (makedev (stx_rdev_major sx) (stx_rdev_minor sx)) else None),
      md_extended_attributes = None, md_windows_attributes = None,
      md_linux_flags = Some (ucast (stx_attributes sx AND SUPPORTED_FLAGS_MASK))\<rparr>"

text \<open>The file type bits of a mode, with the values of \<open>libc\<close>.\<close>

definition node_type_of_mode :: "u16 \<Rightarrow> NodeType result" where
  "node_type_of_mode m =
     (let fmt = (ucast m :: u32) AND 0xf000
      in if fmt = 0x4000 then Ok Directory
         else if fmt = 0x8000 then Ok FileNode
         else if fmt = 0xa000 then Ok Symlink
         else if fmt = 0x6000 then Ok BlockDevice
         else if fmt = 0x2000 then Ok CharDevice
         else if fmt = 0x1000 then Ok Fifo
         else if fmt = 0xc000 then Ok Socket
         else Err Repo)"

definition times_match_exact :: "int option \<Rightarrow> int option \<Rightarrow> bool" where
  "times_match_exact t1 t2 \<longleftrightarrow> t1 = t2"

definition is_modified_hint :: "Node \<Rightarrow> Node \<Rightarrow> bool" where
  "is_modified_hint a b \<longleftrightarrow>
     md_size (nd_metadata a) \<noteq> md_size (nd_metadata b) \<or>
     \<not> times_match_exact (md_modified_time (nd_metadata a)) (md_modified_time (nd_metadata b)) \<or>
     \<not> times_match_exact (md_created_time (nd_metadata a)) (md_created_time (nd_metadata b)) \<or>
     md_inode (nd_metadata a) \<noteq> md_inode (nd_metadata b)"

section \<open>Tree objects\<close>

record TreeObject =
  tr_nodes :: "Node list"

text \<open>\<open>sort_unstable_by\<close> on distinct names has one result, the sorted list.\<close>

definition save_to_store :: "(TreeObject \<Rightarrow> bytes option) \<Rightarrow> (BlobType \<Rightarrow> bytes \<Rightarrow> SaveID \<Rightarrow> 's \<Rightarrow> 'r result \<times> 's) \<Rightarrow>
    TreeObject \<Rightarrow> 's \<Rightarrow> ('r \<times> TreeObject) result \<times> 's" where
  "save_to_store to_json save_blob t s =
     (let t = \<lparr>tr_nodes = sort_key nd_name (tr_nodes t)\<rparr>
      in case to_json t of
           None \<Rightarrow> (Err Serialization, s)
         | Some bs \<Rightarrow>
             (case save_blob Tree bs CalculateID s of
                (Inl e, s') \<Rightarrow> (Err e, s')
              | (Inr i, s') \<Rightarrow> (Ok (i, t), s')))"

definition load_from_repo :: "'b StorageBackend \<Rightarrow> crypto \<Rightarrow> (bytes \<Rightarrow> TreeObject option) \<Rightarrow> ID \<Rightarrow> 'b Repository \<Rightarrow>
    TreeObject result \<times> 'b Repository" where
  "load_from_repo B cr from_json i rp =
     (case repo_load_blob B cr i rp of
        (Inl e, rp') \<Rightarrow> (Err e, rp')
      | (Inr bs, rp') \<Rightarrow> (ok_or (from_json bs) Format, rp'))"

section \<open>Streams of stored nodes\<close>

record StreamNode =
  sn_node :: Node
  sn_num_children :: nat

text \<open>The stack of \<open>SerializedNodeStream\<close>, its top first: pushing the children in reverse order puts them in
  order on top. After an error the stream ends.\<close>

type_synonym node_stack = "(path \<times> Node) list"

definition allowed_children :: "(path \<Rightarrow> bool) \<Rightarrow> path \<Rightarrow> Node list \<Rightarrow> node_stack" where
  "allowed_children allowed parent nodes = map (Pair parent) (filter (\<lambda>n. allowed (parent @ [nd_name n])) nodes)"

definition sns_new :: "(ID \<Rightarrow> TreeObject result) \<Rightarrow> (path \<Rightarrow> bool) \<Rightarrow> ID option \<Rightarrow> path \<Rightarrow> node_stack result" where
  "sns_new load allowed root_id base_path =
     (case root_id of
        None \<Rightarrow> Ok []
      | Some i \<Rightarrow>
          (case load i of
             Inl e \<Rightarrow> Err Repo
           | Inr t \<Rightarrow> Ok (allowed_children allowed base_path (tr_nodes t))))"

fun sns_next :: "(ID \<Rightarrow> TreeObject result) \<Rightarrow> (path \<Rightarrow> bool) \<Rightarrow> node_stack \<Rightarrow> (path \<times> StreamNode) option result \<times> node_stack" where
  "sns_next load allowed [] = (Ok None, [])"
| "sns_next load allowed ((parent, node) # stack) =
     (let path = parent @ [nd_name node]
      in if \<not> allowed path then sns_next load allowed stack
         else case nd_tree node of
             None \<Rightarrow> (Ok (Some (path, \<lparr>sn_node = node, sn_num_children = 0\<rparr>)), stack)
           | Some subtree_id \<Rightarrow>
               (case load subtree_id of
                  Inl e \<Rightarrow> (Err e, [])
                | Inr subtree \<Rightarrow>
                    let kids = allowed_children allowed path (tr_nodes subtree)
                    in (Ok (Some (path, \<lparr>sn_node = node, sn_num_children = length kids\<rparr>)), kids @ stack)))"

text \<open>All items of the stream, and the error it ended with. The traversal of a cyclic store would not end.\<close>

partial_function (option) sns_run :: "(ID \<Rightarrow> TreeObject result) \<Rightarrow> (path \<Rightarrow> bool) \<Rightarrow> node_stack \<Rightarrow>
    ((path \<times> StreamNode) list \<times> MapacheError option) option" where
  "sns_run load allowed stack =
     (case sns_next load allowed stack of
        (Inl e, _) \<Rightarrow> Some ([], Some e)
      | (Inr None, _) \<Rightarrow> Some ([], None)
      | (Inr (Some item), stack') \<Rightarrow> Option.bind (sns_run load allowed stack') (\<lambda>(items, e). Some (item # items, e)))"

subsection \<open>What a stored tree stands for\<close>

datatype forest = Leaf | Branch Node forest forest

text \<open>A forest is empty, or a first node with the forest below it and the forest of its siblings.\<close>

fun roots :: "forest \<Rightarrow> Node list" where
  "roots Leaf = []"
| "roots (Branch n sub rest) = n # roots rest"

text \<open>The store holds the forest below every node of it.\<close>

fun stored_below :: "(ID \<Rightarrow> TreeObject result) \<Rightarrow> forest \<Rightarrow> bool" where
  "stored_below load Leaf = True"
| "stored_below load (Branch n sub rest) =
     ((case nd_tree n of None \<Rightarrow> sub = Leaf | Some i \<Rightarrow> load i = Ok \<lparr>tr_nodes = roots sub\<rparr>) \<and>
      stored_below load sub \<and> stored_below load rest)"

definition stored :: "(ID \<Rightarrow> TreeObject result) \<Rightarrow> ID \<Rightarrow> forest \<Rightarrow> bool" where
  "stored load i f \<longleftrightarrow> load i = Ok \<lparr>tr_nodes = roots f\<rparr> \<and> stored_below load f"

text \<open>The allowed nodes of a forest in depth-first order, each with its allowed children counted.\<close>

fun preorder :: "(path \<Rightarrow> bool) \<Rightarrow> path \<Rightarrow> forest \<Rightarrow> (path \<times> StreamNode) list" where
  "preorder allowed base Leaf = []"
| "preorder allowed base (Branch n sub rest) =
     (let path = base @ [nd_name n]
      in if allowed path
         then (path, \<lparr>sn_node = n, sn_num_children = length (allowed_children allowed path (roots sub))\<rparr>) #
              preorder allowed path sub @ preorder allowed base rest
         else preorder allowed base rest)"

lemma sns_run_forest:
  assumes "stored_below load f" "sns_run load allowed stack = Some (items, e)"
  shows "sns_run load allowed (allowed_children allowed base (roots f) @ stack) = Some (preorder allowed base f @ items, e)"
  using assms
proof (induction f arbitrary: base stack items e)
  case Leaf
  then show ?case by (simp add: allowed_children_def)
next
  case (Branch n sub rest)
  let ?p = "base @ [nd_name n]" and ?rest = "allowed_children allowed base (roots rest) @ stack"
  have rest: "sns_run load allowed ?rest = Some (preorder allowed base rest @ items, e)"
    using Branch.IH(2) [OF _ Branch.prems(2)] Branch.prems(1) by simp
  show ?case
  proof (cases "allowed ?p")
    case False
    then show ?thesis using rest by (simp add: allowed_children_def Let_def)
  next
    case True
    let ?kids = "allowed_children allowed ?p (roots sub)"
    have "sns_next load allowed ((base, n) # ?rest) = (Ok (Some (?p, \<lparr>sn_node = n, sn_num_children = length ?kids\<rparr>)), ?kids @ ?rest)"
      using True Branch.prems(1) by (cases "nd_tree n") (auto simp: Let_def allowed_children_def)
    moreover have "sns_run load allowed (?kids @ ?rest) = Some (preorder allowed ?p sub @ preorder allowed base rest @ items, e)"
      using Branch.IH(1) [OF _ rest] Branch.prems(1) by simp
    moreover have "allowed_children allowed base (roots (Branch n sub rest)) @ stack = (base, n) # ?rest"
      using True by (simp add: allowed_children_def)
    ultimately show ?thesis using True by (subst sns_run.simps) (simp add: Let_def)
  qed
qed

lemma sns_run_Nil: "sns_run load allowed [] = Some ([], None)"
  by (subst sns_run.simps) simp

lemma node_stream_run:
  assumes "stored load i f"
  shows "\<exists>stack. sns_new load allowed (Some i) base = Ok stack \<and> sns_run load allowed stack = Some (preorder allowed base f, None)"
  using assms sns_run_forest [of load f allowed "[]" "[]" None base] by (simp add: stored_def sns_new_def sns_run_Nil)

subsection \<open>The order of the stream\<close>

text \<open>Trees are saved with their nodes sorted by name.\<close>

fun names_sorted :: "forest \<Rightarrow> bool" where
  "names_sorted Leaf = True"
| "names_sorted (Branch n sub rest) =
     (list_all (\<lambda>m. nd_name n < nd_name m) (roots rest) \<and> names_sorted sub \<and> names_sorted rest)"

lemma append_less_same [simp]: "(xs @ ys < xs @ zs) = (ys < zs)" for xs :: "'a::linorder list"
  by (induction xs) simp_all

lemma preorder_below:
  "(p, x) \<in> set (preorder allowed base f) \<Longrightarrow> \<exists>n\<in>set (roots f). \<exists>q. p = base @ nd_name n # q"
proof (induction f arbitrary: base)
  case (Branch n sub rest)
  show ?case
  proof (cases "allowed (base @ [nd_name n]) \<and> (p, x) \<in> set (preorder allowed (base @ [nd_name n]) sub)")
    case True
    with Branch.IH(1) [of "base @ [nd_name n]"] show ?thesis by auto
  next
    case False
    with Branch.prems Branch.IH(2) [of base] show ?thesis by (auto simp: Let_def split: if_splits)
  qed
qed simp

lemma preorder_sorted:
  "names_sorted f \<Longrightarrow> sorted_wrt (<) (map fst (preorder allowed base f))"
proof (induction f arbitrary: base)
  case (Branch n sub rest)
  let ?p = "base @ [nd_name n]"
  have sub: "?p < q \<and> (\<exists>r. q = ?p @ r)" if "(q, x) \<in> set (preorder allowed ?p sub)" for q x
    using preorder_below [OF that] by auto
  have rest: "?p @ r < q" if "(q, x) \<in> set (preorder allowed base rest)" for q x r
  proof -
    from preorder_below [OF that] obtain m r' where m: "m \<in> set (roots rest)" "q = base @ nd_name m # r'" by blast
    moreover have "nd_name n < nd_name m" using Branch.prems m(1) by (auto simp: list_all_iff)
    ultimately show ?thesis by simp
  qed
  have "sorted_wrt (<) (map fst (preorder allowed ?p sub))" "sorted_wrt (<) (map fst (preorder allowed base rest))"
    using Branch by simp_all
  then show ?case using sub rest [of _ _ "[]"] rest by (fastforce simp: Let_def sorted_wrt_append)
qed simp

section \<open>The difference of two streams\<close>

datatype NodeDiff = DiffNew | DiffDeleted | DiffChanged | DiffUnchanged

type_synonym StreamNodeInfo = "path \<times> StreamNode result"
type_synonym DiffTuple = "path \<times> StreamNode result option \<times> StreamNode result option \<times> NodeDiff"

text \<open>One poll, with the items that both streams still have. The message added by \<open>with_ctx\<close> does not change the kind of
  an error.\<close>

fun diff_poll :: "StreamNodeInfo result list \<Rightarrow> StreamNodeInfo result list \<Rightarrow>
    DiffTuple result option \<times> StreamNodeInfo result list \<times> StreamNodeInfo result list" where
  "diff_poll [] [] = (None, [], [])"
| "diff_poll (Inl e # ps) ns = (Some (Err e), ps, ns)"
| "diff_poll [] (Inl e # ns) = (Some (Err e), [], ns)"
| "diff_poll (Inr p # ps) (Inl e # ns) = (Some (Err e), Inr p # ps, ns)"
| "diff_poll (Inr (path_p, node_p) # ps) (Inr (path_n, node_n) # ns) =
     (if path_p < path_n then (Some (Ok (path_p, Some node_p, None, DiffDeleted)), ps, Inr (path_n, node_n) # ns)
      else if path_n < path_p then (Some (Ok (path_n, None, Some node_n, DiffNew)), Inr (path_p, node_p) # ps, ns)
      else
        let diff = (case (node_p, node_n) of
            (Inr a, Inr b) \<Rightarrow> if is_modified_hint (sn_node a) (sn_node b) then DiffChanged else DiffUnchanged
          | _ \<Rightarrow> DiffChanged)
        in (Some (Ok (path_p, Some node_p, Some node_n, diff)), ps, ns))"
| "diff_poll (Inr (path, node) # ps) [] = (Some (Ok (path, Some node, None, DiffDeleted)), ps, [])"
| "diff_poll [] (Inr (path, node) # ns) = (Some (Ok (path, None, Some node, DiffNew)), [], ns)"

lemma diff_poll_consumes: "diff_poll ps ns = (Some r, ps', ns') \<Longrightarrow> length ps' + length ns' < length ps + length ns"
  by (induction ps ns rule: diff_poll.induct) (auto simp: Let_def split: if_splits)

function diff_run :: "StreamNodeInfo result list \<Rightarrow> StreamNodeInfo result list \<Rightarrow> DiffTuple result list" where
  "diff_run ps ns = (case diff_poll ps ns of (None, _, _) \<Rightarrow> [] | (Some r, ps', ns') \<Rightarrow> r # diff_run ps' ns')"
  by pat_completeness auto

termination diff_run
  by (relation "measure (\<lambda>(ps, ns). length ps + length ns)") (auto dest: diff_poll_consumes [OF sym])

declare diff_run.simps [simp del]

text \<open>What the difference should be: one entry per path of either side, in order.\<close>

definition diff_kind :: "StreamNode result option \<Rightarrow> StreamNode result option \<Rightarrow> NodeDiff" where
  "diff_kind a b =
     (case (a, b) of
        (_, None) \<Rightarrow> DiffDeleted
      | (None, _) \<Rightarrow> DiffNew
      | (Some (Inr x), Some (Inr y)) \<Rightarrow> if is_modified_hint (sn_node x) (sn_node y) then DiffChanged else DiffUnchanged
      | _ \<Rightarrow> DiffChanged)"

definition diff_entry :: "StreamNodeInfo list \<Rightarrow> StreamNodeInfo list \<Rightarrow> path \<Rightarrow> DiffTuple" where
  "diff_entry ps ns p = (p, map_of ps p, map_of ns p, diff_kind (map_of ps p) (map_of ns p))"

definition diff_spec :: "StreamNodeInfo list \<Rightarrow> StreamNodeInfo list \<Rightarrow> DiffTuple list" where
  "diff_spec ps ns = map (diff_entry ps ns) (sorted_list_of_set (fst ` set ps \<union> fst ` set ns))"

lemma sorted_list_min:
  assumes "finite A" "\<forall>y\<in>A. x < y"
  shows "sorted_list_of_set (insert x A) = x # sorted_list_of_set A"
proof -
  have "A - {x} = A" using assms(2) by auto
  then show ?thesis using assms by (simp add: sorted_list_of_set_insert_remove insort_is_Cons less_imp_le)
qed

lemma map_of_below: "\<forall>y\<in>fst ` set xs. x < y \<Longrightarrow> map_of xs x = None" for x :: "'a::order"
  by (auto simp: map_of_eq_None_iff)

lemma diff_kind_simps [simp]: "diff_kind a None = DiffDeleted" "diff_kind None (Some b) = DiffNew"
  by (simp_all add: diff_kind_def split: option.splits sum.splits)

lemma diff_spec_step:
  assumes "\<forall>y\<in>fst ` set ps \<union> fst ` set ns. x < y"
    "fst ` set ps' \<union> fst ` set ns' = insert x (fst ` set ps \<union> fst ` set ns)"
    "\<And>y. y \<noteq> x \<Longrightarrow> map_of ps' y = map_of ps y" "\<And>y. y \<noteq> x \<Longrightarrow> map_of ns' y = map_of ns y"
  shows "diff_spec ps' ns' = diff_entry ps' ns' x # diff_spec ps ns"
proof -
  let ?A = "fst ` set ps \<union> fst ` set ns"
  have "map (diff_entry ps' ns') (sorted_list_of_set ?A) = map (diff_entry ps ns) (sorted_list_of_set ?A)"
  proof (rule map_cong [OF refl])
    fix y assume "y \<in> set (sorted_list_of_set ?A)"
    with assms(1) have "y \<noteq> x" by auto
    then show "diff_entry ps' ns' y = diff_entry ps ns y" by (simp add: diff_entry_def assms(3,4))
  qed
  then show ?thesis unfolding diff_spec_def assms(2) using sorted_list_min [OF _ assms(1)] by simp
qed

lemma diff_spec_prev:
  assumes "\<forall>y\<in>fst ` set ps \<union> fst ` set ns. x < y"
  shows "diff_spec ((x, a) # ps) ns = (x, Some a, None, DiffDeleted) # diff_spec ps ns"
proof -
  have "map_of ns x = None" using assms by (intro map_of_below) blast
  then show ?thesis using diff_spec_step [OF assms, of "(x, a) # ps" ns] by (simp add: diff_entry_def)
qed

lemma diff_spec_next:
  assumes "\<forall>y\<in>fst ` set ps \<union> fst ` set ns. x < y"
  shows "diff_spec ps ((x, b) # ns) = (x, None, Some b, DiffNew) # diff_spec ps ns"
proof -
  have "map_of ps x = None" using assms by (intro map_of_below) blast
  then show ?thesis using diff_spec_step [OF assms, of ps "(x, b) # ns"] by (simp add: diff_entry_def)
qed

lemma diff_spec_both:
  assumes "\<forall>y\<in>fst ` set ps \<union> fst ` set ns. x < y"
  shows "diff_spec ((x, a) # ps) ((x, b) # ns) = (x, Some a, Some b, diff_kind (Some a) (Some b)) # diff_spec ps ns"
  using diff_spec_step [OF assms, of "(x, a) # ps" "(x, b) # ns"] by (simp add: diff_entry_def)

lemma diff_run_spec:
  "sorted_wrt (<) (map fst ps) \<Longrightarrow> sorted_wrt (<) (map fst ns) \<Longrightarrow> diff_run (map Inr ps) (map Inr ns) = map Ok (diff_spec ps ns)"
proof (induction "length ps + length ns" arbitrary: ps ns rule: less_induct)
  case less
  show ?case
  proof (cases ps)
    case pNil: Nil
    show ?thesis
    proof (cases ns)
      case Nil
      then show ?thesis using pNil by (subst diff_run.simps) (simp add: diff_spec_def)
    next
      case (Cons n ns')
      obtain q b where n: "n = (q, b)" by fastforce
      have min: "\<forall>y\<in>fst ` set ns'. q < y" using less.prems(2) Cons n by auto
      have "diff_run [] (map Inr ns') = map Ok (diff_spec [] ns')" using less.hyps [of "[]" ns'] less.prems Cons pNil by simp
      moreover have "diff_spec [] ((q, b) # ns') = (q, None, Some b, DiffNew) # diff_spec [] ns'"
        using min by (intro diff_spec_next) simp
      ultimately show ?thesis using pNil Cons n by (subst diff_run.simps) simp
    qed
  next
    case (Cons p ps')
    obtain pa a where p: "p = (pa, a)" by fastforce
    have pmin: "\<forall>y\<in>fst ` set ps'. pa < y" and ps': "sorted_wrt (<) (map fst ps')" using less.prems(1) Cons p by auto
    show ?thesis
    proof (cases ns)
      case Nil
      have "diff_run (map Inr ps') [] = map Ok (diff_spec ps' [])" using less.hyps [of ps' "[]"] less.prems Cons Nil by simp
      moreover have "diff_spec ((pa, a) # ps') [] = (pa, Some a, None, DiffDeleted) # diff_spec ps' []"
        using pmin by (intro diff_spec_prev) simp
      ultimately show ?thesis using Nil Cons p by (subst diff_run.simps) simp
    next
      case ns: (Cons n ns')
      obtain q b where n: "n = (q, b)" by fastforce
      have nmin: "\<forall>y\<in>fst ` set ns'. q < y" and ns': "sorted_wrt (<) (map fst ns')" using less.prems(2) ns n by auto
      consider "pa < q" | "q < pa" | "pa = q" by fastforce
      then show ?thesis
      proof cases
        case 1
        let ?A = "fst ` set ps' \<union> fst ` set ((q, b) # ns')"
        have min: "\<forall>y\<in>?A. pa < y" using 1 pmin nmin by auto
        have "diff_run (map Inr ps') (map Inr ((q, b) # ns')) = map Ok (diff_spec ps' ((q, b) # ns'))"
          using less.hyps [of ps' "(q, b) # ns'"] less.prems Cons ns n ps' by simp
        moreover have "diff_spec ((pa, a) # ps') ((q, b) # ns') = (pa, Some a, None, DiffDeleted) # diff_spec ps' ((q, b) # ns')"
          by (rule diff_spec_prev [OF min])
        ultimately show ?thesis using 1 Cons ns p n by (subst diff_run.simps) simp
      next
        case 2
        let ?A = "fst ` set ((pa, a) # ps') \<union> fst ` set ns'"
        have min: "\<forall>y\<in>?A. q < y" using 2 pmin nmin by auto
        have "diff_run (map Inr ((pa, a) # ps')) (map Inr ns') = map Ok (diff_spec ((pa, a) # ps') ns')"
          using less.hyps [of "(pa, a) # ps'" ns'] less.prems Cons ns p ns' by simp
        moreover have "diff_spec ((pa, a) # ps') ((q, b) # ns') = (q, None, Some b, DiffNew) # diff_spec ((pa, a) # ps') ns'"
          by (rule diff_spec_next [OF min])
        ultimately show ?thesis using 2 Cons ns p n by (subst diff_run.simps) simp
      next
        case 3
        let ?A = "fst ` set ps' \<union> fst ` set ns'"
        have min: "\<forall>y\<in>?A. pa < y" using 3 pmin nmin by auto
        have "diff_run (map Inr ps') (map Inr ns') = map Ok (diff_spec ps' ns')"
          using less.hyps [of ps' ns'] Cons ns ps' ns' by simp
        moreover have "diff_spec ((pa, a) # ps') ((pa, b) # ns') = (pa, Some a, Some b, diff_kind (Some a) (Some b)) # diff_spec ps' ns'"
          by (rule diff_spec_both [OF min])
        ultimately show ?thesis using 3 Cons ns p n
          by (subst diff_run.simps) (simp add: Let_def diff_kind_def split: sum.splits)
      qed
    qed
  qed
qed

text \<open>\<open>create_diff_stream\<close> and what its consumer sees: the items of a stream, then the error it ended with.\<close>

definition stream_items :: "(path \<times> StreamNode) list \<times> MapacheError option \<Rightarrow> StreamNodeInfo result list" where
  "stream_items r = map (\<lambda>(p, n). Inr (p, Ok n)) (fst r) @ (case snd r of None \<Rightarrow> [] | Some e \<Rightarrow> [Inl e])"

definition create_diff_stream :: "(ID \<Rightarrow> TreeObject result) \<Rightarrow> ID \<Rightarrow> ID \<Rightarrow> (node_stack \<times> node_stack) result" where
  "create_diff_stream load src_tree tgt_tree =
     bind_result (sns_new load (allow (filter_new None None)) (Some src_tree) []) (\<lambda>src.
     bind_result (sns_new load (allow (filter_new None None)) (Some tgt_tree) []) (\<lambda>tgt. Ok (src, tgt)))"

definition diff_collect :: "(ID \<Rightarrow> TreeObject result) \<Rightarrow> node_stack \<times> node_stack \<Rightarrow> DiffTuple result list option" where
  "diff_collect load st =
     Option.bind (sns_run load (allow (filter_new None None)) (fst st)) (\<lambda>ps.
     Option.bind (sns_run load (allow (filter_new None None)) (snd st)) (\<lambda>ns.
     Some (diff_run (stream_items ps) (stream_items ns))))"

definition nodes_of :: "forest \<Rightarrow> StreamNodeInfo list" where
  "nodes_of f = map (\<lambda>(p, n). (p, Ok n)) (preorder (\<lambda>p. True) [] f)"

lemma allow_everything [simp]: "allow (filter_new None None) = (\<lambda>p. True)"
  by (rule ext) (simp add: allow_spec)

lemma tree_diff_run:
  assumes "stored load src f" "stored load tgt g" "names_sorted f" "names_sorted g"
  shows "\<exists>st. create_diff_stream load src tgt = Ok st \<and> diff_collect load st = Some (map Ok (diff_spec (nodes_of f) (nodes_of g)))"
proof -
  obtain a b where new: "sns_new load (\<lambda>p. True) (Some src) [] = Ok a" "sns_new load (\<lambda>p. True) (Some tgt) [] = Ok b"
    and run: "sns_run load (\<lambda>p. True) a = Some (preorder (\<lambda>p. True) [] f, None)"
      "sns_run load (\<lambda>p. True) b = Some (preorder (\<lambda>p. True) [] g, None)"
    using node_stream_run [OF assms(1)] node_stream_run [OF assms(2)] by metis
  have items: "stream_items (preorder (\<lambda>p. True) [] h, None) = map Inr (nodes_of h)" for h
    by (simp add: stream_items_def nodes_of_def case_prod_unfold)
  have "map fst (nodes_of h) = map fst (preorder (\<lambda>p. True) [] h)" for h by (simp add: nodes_of_def case_prod_unfold)
  then have "diff_run (map Inr (nodes_of f)) (map Inr (nodes_of g)) = map Ok (diff_spec (nodes_of f) (nodes_of g))"
    using preorder_sorted [OF assms(3)] preorder_sorted [OF assms(4)] by (intro diff_run_spec) simp_all
  with run items have "diff_collect load (a, b) = Some (map Ok (diff_spec (nodes_of f) (nodes_of g)))"
    by (simp add: diff_collect_def)
  with new show ?thesis by (simp add: create_diff_stream_def)
qed

text \<open>C34: The difference of two stored trees terminates and lists every path of either tree exactly once and in order:
  deleted if only the source has it, new if only the target has it, and otherwise changed exactly if the
  metadata hint differs.\<close>

theorem tree_diff_exact:
  assumes "stored load src f" "stored load tgt g" "names_sorted f" "names_sorted g"
  shows "\<exists>st. create_diff_stream load src tgt = Ok st \<and>
    diff_collect load st = Some (map Ok (map (diff_entry (nodes_of f) (nodes_of g))
      (sorted_list_of_set (fst ` set (nodes_of f) \<union> fst ` set (nodes_of g)))))"
  using tree_diff_run [OF assms] by (simp add: diff_spec_def)

section \<open>Streams of stored trees\<close>

definition subtree_entries :: "(path \<Rightarrow> bool) \<Rightarrow> path \<Rightarrow> Node list \<Rightarrow> (path \<times> ID) list" where
  "subtree_entries allowed parent nodes =
     List.map_filter (\<lambda>n. case nd_tree n of
        Some i \<Rightarrow> if allowed (parent @ [nd_name n]) then Some (parent @ [nd_name n], i) else None
      | None \<Rightarrow> None) nodes"

fun sts_next :: "(ID \<Rightarrow> TreeObject result) \<Rightarrow> (path \<Rightarrow> bool) \<Rightarrow> (path \<times> ID) list \<Rightarrow>
    (path \<times> TreeObject) option result \<times> (path \<times> ID) list" where
  "sts_next load allowed [] = (Ok None, [])"
| "sts_next load allowed ((current_path, tree_id) # stack) =
     (if \<not> allowed current_path then sts_next load allowed stack
      else case load tree_id of
          Inl e \<Rightarrow> (Err e, [])
        | Inr t \<Rightarrow> (Ok (Some (current_path, t)), subtree_entries allowed current_path (tr_nodes t) @ stack))"

partial_function (option) sts_run :: "(ID \<Rightarrow> TreeObject result) \<Rightarrow> (path \<Rightarrow> bool) \<Rightarrow> (path \<times> ID) list \<Rightarrow>
    ((path \<times> TreeObject) list \<times> MapacheError option) option" where
  "sts_run load allowed stack =
     (case sts_next load allowed stack of
        (Inl e, _) \<Rightarrow> Some ([], Some e)
      | (Inr None, _) \<Rightarrow> Some ([], None)
      | (Inr (Some item), stack') \<Rightarrow> Option.bind (sts_run load allowed stack') (\<lambda>(items, e). Some (item # items, e)))"

text \<open>The directories of a forest with their trees.\<close>

fun directories :: "(path \<Rightarrow> bool) \<Rightarrow> path \<Rightarrow> forest \<Rightarrow> (path \<times> TreeObject) list" where
  "directories allowed base Leaf = []"
| "directories allowed base (Branch n sub rest) =
     (let path = base @ [nd_name n]
      in (if nd_tree n \<noteq> None \<and> allowed path then (path, \<lparr>tr_nodes = roots sub\<rparr>) # directories allowed path sub else []) @
         directories allowed base rest)"

lemma sts_run_forest:
  assumes "stored_below load f" "sts_run load allowed stack = Some (items, e)"
  shows "sts_run load allowed (subtree_entries allowed base (roots f) @ stack) = Some (directories allowed base f @ items, e)"
  using assms
proof (induction f arbitrary: base stack items e)
  case Leaf
  then show ?case by (simp add: subtree_entries_def List.map_filter_def)
next
  case (Branch n sub rest)
  let ?p = "base @ [nd_name n]" and ?rest = "subtree_entries allowed base (roots rest) @ stack"
  have rest: "sts_run load allowed ?rest = Some (directories allowed base rest @ items, e)"
    using Branch.IH(2) [OF _ Branch.prems(2)] Branch.prems(1) by simp
  show ?case
  proof (cases "nd_tree n")
    case None
    then have "subtree_entries allowed base (roots (Branch n sub rest)) = subtree_entries allowed base (roots rest)"
      by (simp add: subtree_entries_def List.map_filter_def)
    then show ?thesis using rest None by (simp add: Let_def)
  next
    case (Some i)
    show ?thesis
    proof (cases "allowed ?p")
      case False
      then have "subtree_entries allowed base (roots (Branch n sub rest)) = subtree_entries allowed base (roots rest)"
        using Some by (simp add: subtree_entries_def List.map_filter_def)
      then show ?thesis using rest False by (simp add: Let_def)
    next
      case True
      have load: "load i = Ok \<lparr>tr_nodes = roots sub\<rparr>" "stored_below load sub" using Branch.prems(1) Some by simp_all
      have "subtree_entries allowed base (roots (Branch n sub rest)) @ stack = (?p, i) # ?rest"
        using Some True by (simp add: subtree_entries_def List.map_filter_def)
      moreover have "sts_next load allowed ((?p, i) # ?rest) =
          (Ok (Some (?p, \<lparr>tr_nodes = roots sub\<rparr>)), subtree_entries allowed ?p (roots sub) @ ?rest)"
        using True load by simp
      moreover have "sts_run load allowed (subtree_entries allowed ?p (roots sub) @ ?rest) =
          Some (directories allowed ?p sub @ directories allowed base rest @ items, e)"
        using Branch.IH(1) [OF load(2) rest] by simp
      ultimately show ?thesis using True Some by (subst sts_run.simps) (simp add: Let_def)
    qed
  qed
qed

lemma tree_stream_exact:
  assumes "stored load i f" "allowed base"
  shows "sts_run load allowed [(base, i)] = Some ((base, \<lparr>tr_nodes = roots f\<rparr>) # directories allowed base f, None)"
proof -
  have "sts_run load allowed [] = Some ([], None)" by (subst sts_run.simps) simp
  from sts_run_forest [OF _ this, of f base] assms show ?thesis by (subst sts_run.simps) (simp add: stored_def)
qed

section \<open>Looking up a path\<close>

text \<open>\<open>utf8\<close> says whether a component is valid UTF-8.\<close>

fun find_loop_node :: "(ID \<Rightarrow> TreeObject result) \<Rightarrow> (string \<Rightarrow> bool) \<Rightarrow> ID \<Rightarrow> path \<Rightarrow> Node option result" where
  "find_loop_node load utf8 current_tree_id [] = Ok None"
| "find_loop_node load utf8 current_tree_id (c # cs) =
     (if \<not> utf8 c then Err Format
      else case load current_tree_id of
          Inl e \<Rightarrow> Err e
        | Inr t \<Rightarrow>
            (case binary_search (map nd_name (tr_nodes t)) c of
               Inr idx \<Rightarrow>
                 let node = tr_nodes t ! idx
                 in if cs = [] then Ok (Some node)
                    else (case nd_tree node of
                        None \<Rightarrow> Err Integrity
                      | Some i \<Rightarrow> find_loop_node load utf8 i cs)
             | Inl _ \<Rightarrow> Ok None))"

definition find_serialized_node :: "(ID \<Rightarrow> TreeObject result) \<Rightarrow> (string \<Rightarrow> bool) \<Rightarrow> ID \<Rightarrow> path \<Rightarrow> Node option result" where
  "find_serialized_node load utf8 base_tree_id p =
     (if p = [] then Ok None else find_loop_node load utf8 base_tree_id p)"

fun find_root :: "string \<Rightarrow> forest \<Rightarrow> (Node \<times> forest) option" where
  "find_root c Leaf = None"
| "find_root c (Branch n sub rest) = (if nd_name n = c then Some (n, sub) else find_root c rest)"

lemma find_root_None: "find_root c f = None \<longleftrightarrow> c \<notin> nd_name ` set (roots f)"
  by (induction f) auto

lemma find_root_stored:
  "find_root c f = Some (n, sub) \<Longrightarrow> stored_below load f \<Longrightarrow>
     n \<in> set (roots f) \<and> nd_name n = c \<and> stored_below load sub \<and> (case nd_tree n of None \<Rightarrow> sub = Leaf | Some i \<Rightarrow> load i = Ok \<lparr>tr_nodes = roots sub\<rparr>)"
  by (induction f) (auto split: if_splits)

lemma find_root_sorted: "find_root c f = Some (n, sub) \<Longrightarrow> names_sorted f \<Longrightarrow> names_sorted sub"
  by (induction f) (auto split: if_splits)

lemma roots_sorted: "names_sorted f \<Longrightarrow> sorted_wrt (<) (map nd_name (roots f))"
  by (induction f) (auto simp: list_all_iff)

lemma search_root:
  assumes "names_sorted f"
  shows "case find_root c f of
      None \<Rightarrow> \<exists>i. binary_search (map nd_name (roots f)) c = Inl i
    | Some (n, sub) \<Rightarrow> \<exists>i. binary_search (map nd_name (roots f)) c = Inr i \<and> roots f ! i = n"
proof -
  have strict: "sorted_wrt (<) (map nd_name (roots f))" by (rule roots_sorted [OF assms])
  then have sorted: "sorted (map nd_name (roots f))" and dist: "distinct (map nd_name (roots f))" by (simp_all add: strict_sorted_iff)
  show ?thesis
  proof (cases "find_root c f")
    case None
    then have "c \<notin> set (map nd_name (roots f))" by (simp add: find_root_None)
    then show ?thesis using None bsearch.search_hit [of "map nd_name (roots f)" c]
      by (cases "binary_search (map nd_name (roots f)) c") (auto dest: nth_mem)
  next
    case (Some ns)
    then obtain n sub where n: "find_root c f = Some (n, sub)" by (cases ns) auto
    have mem: "n \<in> set (roots f)" "nd_name n = c" using n by (induction f) (auto split: if_splits)
    then have "c \<in> set (map nd_name (roots f))" by auto
    with sorted obtain i where i: "binary_search (map nd_name (roots f)) c = Inr i"
      using bsearch.search_iff by blast
    have "roots f ! i = n"
      using bsearch.search_hit [OF i] mem dist by (auto simp: distinct_map inj_on_def)
    with i n show ?thesis by auto
  qed
qed

lemma preorder_root:
  "names_sorted f \<Longrightarrow> (base @ c # cs, x) \<in> set (preorder (\<lambda>p. True) base f) \<longleftrightarrow>
    (case find_root c f of
       None \<Rightarrow> False
     | Some (n, sub) \<Rightarrow> if cs = [] then x = \<lparr>sn_node = n, sn_num_children = length (roots sub)\<rparr>
         else ((base @ [c]) @ cs, x) \<in> set (preorder (\<lambda>p. True) (base @ [c]) sub))"
proof (induction f)
  case (Branch n sub rest)
  let ?p = "base @ [nd_name n]"
  have sub: "\<exists>r. p = ?p @ r \<and> r \<noteq> []" if "(p, y) \<in> set (preorder (\<lambda>p. True) ?p sub)" for p y
    using preorder_below [OF that] by auto
  have len: "length (allowed_children (\<lambda>p. True) ?p (roots sub)) = length (roots sub)" by (simp add: allowed_children_def)
  show ?case
  proof (cases "nd_name n = c")
    case True
    have "(base @ c # cs, x) \<notin> set (preorder (\<lambda>p. True) base rest)"
    proof
      assume "(base @ c # cs, x) \<in> set (preorder (\<lambda>p. True) base rest)"
      from preorder_below [OF this] obtain m where m: "m \<in> set (roots rest)" "nd_name m = c" by auto
      with Branch.prems have "nd_name n < nd_name m" by (auto simp: list_all_iff)
      with m True show False by simp
    qed
    then show ?thesis using True sub [of "base @ [c]" x] len by (auto simp: Let_def)
  next
    case False
    have "(base @ c # cs, x) \<notin> set (preorder (\<lambda>p. True) ?p sub)" using sub [of "base @ c # cs" x] False by auto
    then show ?thesis using False Branch by (auto simp: Let_def)
  qed
qed simp

lemma find_loop_exact:
  assumes "\<forall>c\<in>set cs. utf8 c" "stored load i f" "names_sorted f" "cs \<noteq> []"
  shows "find_loop_node load utf8 i cs = Ok (Some n) \<longleftrightarrow>
    (\<exists>k. (base @ cs, \<lparr>sn_node = n, sn_num_children = k\<rparr>) \<in> set (preorder (\<lambda>p. True) base f))"
  using assms
proof (induction cs arbitrary: i f base)
  case (Cons c cs)
  have ld: "load i = Ok \<lparr>tr_nodes = roots f\<rparr>" "stored_below load f" using Cons.prems(2) by (simp_all add: stored_def)
  note pre = preorder_root [OF Cons.prems(3), of base c cs]
  show ?case
  proof (cases "find_root c f")
    case None
    then obtain j where "binary_search (map nd_name (roots f)) c = Inl j" using search_root [OF Cons.prems(3), of c] by auto
    then show ?thesis unfolding pre using None Cons.prems(1) ld by simp
  next
    case (Some ms)
    then obtain m sub where m: "find_root c f = Some (m, sub)" by (cases ms) auto
    then obtain j where j: "binary_search (map nd_name (roots f)) c = Inr j" "roots f ! j = m"
      using search_root [OF Cons.prems(3), of c] by auto
    note st = find_root_stored [OF m ld(2)]
    show ?thesis
    proof (cases "cs = []")
      case True
      then show ?thesis unfolding pre using m j Cons.prems(1) ld by auto
    next
      case False
      show ?thesis
      proof (cases "nd_tree m")
        case None
        then have "sub = Leaf" using st by simp
        then show ?thesis unfolding pre using None m j Cons.prems(1) ld False by simp
      next
        case (Some i')
        then have "stored load i' sub" using st by (simp add: stored_def)
        from Cons.IH [OF _ this find_root_sorted [OF m Cons.prems(3)] False, of "base @ [c]"]
        show ?thesis unfolding pre using Some m j Cons.prems(1) ld False by simp
      qed
    qed
  qed
qed simp

text \<open>C35: Looking up a path in a stored tree finds exactly the nodes that the stream of the tree lists, each at its own
  path.\<close>

theorem find_serialized_exact:
  assumes "stored load i f" "names_sorted f" "\<forall>c\<in>set p. utf8 c"
  shows "find_serialized_node load utf8 i p = Ok (Some n) \<longleftrightarrow>
    (\<exists>k. (p, \<lparr>sn_node = n, sn_num_children = k\<rparr>) \<in> set (preorder (\<lambda>q. True) [] f))"
proof (cases "p = []")
  case True
  then show ?thesis using preorder_below [of "[]" _ "\<lambda>q. True" "[]" f] by (auto simp: find_serialized_node_def)
next
  case False
  then show ?thesis using find_loop_exact [OF assms(3,1,2) False, of n "[]"] by (simp add: find_serialized_node_def)
qed

section \<open>Reading a file\<close>

record DataReader =
  rd_blob_ids :: "ID list"
  rd_blob_prefix :: "nat list"
  rd_total_length :: nat
  rd_pos :: nat
  rd_current_blob_idx :: nat
  rd_current_blob :: bytes

definition USIZE_MAX :: nat where "USIZE_MAX = 2 ^ 64 - 1"

text \<open>The prefix sums of the raw lengths in the index.\<close>

fun reader_prefix :: "(ID \<Rightarrow> nat option) \<Rightarrow> ID list \<Rightarrow> nat \<Rightarrow> (nat list \<times> nat) result" where
  "reader_prefix raw_length [] n0 = Ok ([n0], n0)"
| "reader_prefix raw_length (i # ids) n0 =
     (case raw_length i of
        None \<Rightarrow> Err (NotInIndex i)
      | Some l \<Rightarrow> bind_result (reader_prefix raw_length ids (n0 + l)) (\<lambda>(pre, len). Ok (n0 # pre, len)))"

definition reader_new :: "(ID \<Rightarrow> nat option) \<Rightarrow> Node \<Rightarrow> DataReader result" where
  "reader_new raw_length node =
     bind_result (ok_or (nd_blobs node) Integrity) (\<lambda>blobs.
     bind_result (reader_prefix raw_length blobs 0) (\<lambda>(pre, len).
     Ok \<lparr>rd_blob_ids = blobs, rd_blob_prefix = pre, rd_total_length = len, rd_pos = 0,
         rd_current_blob_idx = USIZE_MAX, rd_current_blob = []\<rparr>))"

definition reader_blob_at :: "DataReader \<Rightarrow> nat \<Rightarrow> nat" where
  "reader_blob_at rd pos = (case binary_search (rd_blob_prefix rd) pos of Inr i \<Rightarrow> i | Inl i \<Rightarrow> i - 1)"

text \<open>The last part of \<open>poll_read\<close>; \<open>None\<close> is the panic of the subtraction when the blob is shorter than the index says.\<close>

definition reader_copy :: "DataReader \<Rightarrow> nat \<Rightarrow> (bytes \<times> DataReader) option" where
  "reader_copy rd remaining =
     (let blob_start = rd_blob_prefix rd ! rd_current_blob_idx rd;
          offset = rd_pos rd - blob_start
      in if length (rd_current_blob rd) < offset then None
         else
           let to_copy = min (length (rd_current_blob rd) - offset) remaining
           in Some (slice offset (offset + to_copy) (rd_current_blob rd), rd\<lparr>rd_pos := rd_pos rd + to_copy\<rparr>))"

definition poll_read :: "(ID \<Rightarrow> bytes result) \<Rightarrow> nat \<Rightarrow> DataReader \<Rightarrow> (bytes \<times> DataReader) result option" where
  "poll_read fetch remaining rd =
     (if rd_pos rd \<ge> rd_total_length rd \<or> remaining = 0 then Some (Ok ([], rd))
      else
        let target_idx = reader_blob_at rd (rd_pos rd)
        in if rd_current_blob_idx rd \<noteq> target_idx
           then case fetch (rd_blob_ids rd ! target_idx) of
               Inl e \<Rightarrow> Some (Err Io)
             | Inr data \<Rightarrow>
                 map_option Ok (reader_copy (rd\<lparr>rd_current_blob := data, rd_current_blob_idx := target_idx\<rparr>) remaining)
           else map_option Ok (reader_copy rd remaining))"

text \<open>Where a missing key belongs.\<close>

lemma bsearch_loop_split:
  assumes "sorted ks"
  shows "base + sz \<le> length ks \<Longrightarrow> sz > 0 \<Longrightarrow> (\<forall>j<length ks. base + sz \<le> j \<longrightarrow> k < ks ! j) \<Longrightarrow> base = 0 \<or> ks ! base \<le> k \<Longrightarrow>
    (\<forall>j<length ks. bsearch_loop ks k base sz < j \<longrightarrow> k < ks ! j) \<and> (bsearch_loop ks k base sz = 0 \<or> ks ! bsearch_loop ks k base sz \<le> k)"
  using assms
proof (induction ks k base sz rule: bsearch_loop.induct)
  case (1 ks k base sz)
  show ?case
  proof (cases "sz \<le> 1")
    case True
    with 1(3) have "sz = 1" by simp
    then have "bsearch_loop ks k base sz = base" by (simp add: bsearch_loop.simps)
    with 1(4,5) \<open>sz = 1\<close> show ?thesis by auto
  next
    case False
    let ?mid = "base + sz div 2"
    let ?b = "if ks ! ?mid > k then base else ?mid"
    have step: "bsearch_loop ks k base sz = bsearch_loop ks k ?b (sz - sz div 2)"
      using False by (subst bsearch_loop.simps) (simp add: Let_def)
    have up: "\<forall>j<length ks. ?b + (sz - sz div 2) \<le> j \<longrightarrow> k < ks ! j"
    proof (intro allI impI)
      fix j assume j: "j < length ks" "?b + (sz - sz div 2) \<le> j"
      show "k < ks ! j"
      proof (cases "ks ! ?mid > k")
        case True
        have "?mid \<le> j"
        proof (cases "even sz")
          case True
          then show ?thesis using j(2) \<open>ks ! ?mid > k\<close> by auto
        next
          case False
          then show ?thesis using j(2) \<open>ks ! ?mid > k\<close> by auto
        qed
        then have "ks ! ?mid \<le> ks ! j" using j(1) 1(6) by (intro sorted_nth_mono)
        with True show ?thesis by simp
      next
        case False
        then show ?thesis using j 1(4) by simp
      qed
    qed
    have "?b + (sz - sz div 2) \<le> length ks" "sz - sz div 2 > 0" "?b = 0 \<or> ks ! ?b \<le> k"
      using False 1(2,5) by (auto simp: not_less)
    with 1(1) [OF False refl refl] up 1(6) show ?thesis unfolding step by blast
  qed
qed

lemma binary_search_miss:
  assumes "sorted ks" "binary_search ks k = Inl i"
  shows "i \<le> length ks \<and> (\<forall>j<i. ks ! j < k) \<and> (\<forall>j<length ks. i \<le> j \<longrightarrow> k < ks ! j)"
proof (cases "ks = []")
  case True
  then show ?thesis using assms(2) by (simp add: binary_search_def)
next
  case False
  let ?b = "bsearch_loop ks k 0 (length ks)"
  have b: "?b < length ks" using bsearch_loop_bounds [of 0 "length ks" ks k] False by auto
  have sp: "\<forall>j<length ks. ?b < j \<longrightarrow> k < ks ! j" "?b = 0 \<or> ks ! ?b \<le> k"
    using bsearch_loop_split [OF assms(1), of 0 "length ks" k] False by auto
  from assms(2) False have ne: "ks ! ?b \<noteq> k" and i: "i = (if ks ! ?b < k then ?b + 1 else ?b)"
    by (auto simp: binary_search_def Let_def split: if_splits)
  have low: "ks ! j \<le> ks ! ?b" if "j \<le> ?b" for j using that b assms(1) by (intro sorted_nth_mono)
  show ?thesis
  proof (cases "ks ! ?b < k")
    case True
    then show ?thesis using i b sp(1) low by (auto simp: less_Suc_eq_le intro: le_less_trans)
  next
    case False
    with ne sp(2) have "?b = 0" "k < ks ! ?b" by auto
    then have "i = 0" "\<forall>j<length ks. k < ks ! j" using i False sp(1) by (simp, metis neq0_conv)
    then show ?thesis by simp
  qed
qed

text \<open>The reader stands for a cursor over the concatenated blobs.\<close>

definition reader_ok :: "(ID \<Rightarrow> bytes result) \<Rightarrow> bytes list \<Rightarrow> DataReader \<Rightarrow> bool" where
  "reader_ok fetch ds rd \<longleftrightarrow>
     length ds = length (rd_blob_ids rd) \<and> length ds < USIZE_MAX \<and>
     (\<forall>i<length ds. fetch (rd_blob_ids rd ! i) = Ok (ds ! i) \<and> ds ! i \<noteq> []) \<and>
     rd_blob_prefix rd = map (\<lambda>i. length (concat (take i ds))) [0..<Suc (length ds)] \<and>
     rd_total_length rd = length (concat ds) \<and>
     (rd_current_blob_idx rd = USIZE_MAX \<or> rd_current_blob_idx rd < length ds \<and> rd_current_blob rd = ds ! rd_current_blob_idx rd)"

lemma reader_okD:
  assumes "reader_ok fetch ds rd"
  shows "rd_total_length rd = length (concat ds)" "length ds < USIZE_MAX"
    "i < length ds \<Longrightarrow> fetch (rd_blob_ids rd ! i) = Ok (ds ! i)" "i < length ds \<Longrightarrow> ds ! i \<noteq> []"
    "rd_blob_prefix rd = map (\<lambda>i. length (concat (take i ds))) [0..<Suc (length ds)]"
    "rd_current_blob_idx rd \<noteq> USIZE_MAX \<Longrightarrow> rd_current_blob rd = ds ! rd_current_blob_idx rd"
  using assms unfolding reader_ok_def by blast+

lemma reader_ok_load: "reader_ok fetch ds rd \<Longrightarrow> t < length ds \<Longrightarrow> reader_ok fetch ds (rd\<lparr>rd_current_blob := ds ! t, rd_current_blob_idx := t\<rparr>)"
  by (cases rd) (simp add: reader_ok_def del: upt_Suc)

lemma reader_ok_pos: "reader_ok fetch ds rd \<Longrightarrow> reader_ok fetch ds (rd\<lparr>rd_pos := p\<rparr>)"
  by (cases rd) (auto simp: reader_ok_def simp del: upt_Suc)

lemma reader_prefix_sums:
  assumes "\<forall>i<length ds. raw_length (ids ! i) = Some (length (ds ! i))" "length ds = length ids"
  shows "reader_prefix raw_length ids n0 = Ok (map (\<lambda>i. n0 + length (concat (take i ds))) [0..<Suc (length ds)], n0 + length (concat ds))"
  using assms
proof (induction ids arbitrary: n0 ds)
  case Nil
  then show ?case by simp
next
  case (Cons a ids)
  then obtain d ds' where ds: "ds = d # ds'" by (cases ds) auto
  have h: "raw_length a = Some (length d)" "\<forall>i<length ds'. raw_length (ids ! i) = Some (length (ds' ! i))"
    using Cons.prems ds by (auto dest: spec [of _ "Suc _"])
  have "map (\<lambda>i. n0 + length (concat (take i ds))) [0..<Suc (length ds)] =
      n0 # map (\<lambda>i. n0 + length d + length (concat (take i ds'))) [0..<Suc (length ds')]"
    unfolding ds by (subst upt_conv_Cons) (simp_all add: map_Suc_upt [symmetric] del: upt_Suc)
  then show ?case using Cons.IH [of ds' "n0 + length d"] Cons.prems(2) h ds by simp
qed

lemma reader_new_ok:
  assumes "nd_blobs node = Some ids" "length ds = length ids" "length ds < USIZE_MAX"
    "\<forall>i<length ds. fetch (ids ! i) = Ok (ds ! i) \<and> ds ! i \<noteq> []" "\<forall>i<length ds. raw_length (ids ! i) = Some (length (ds ! i))"
  shows "\<exists>rd. reader_new raw_length node = Ok rd \<and> reader_ok fetch ds rd \<and> rd_pos rd = 0"
  using assms reader_prefix_sums [OF assms(5,2), of 0] by (simp add: reader_new_def reader_ok_def)

lemma concat_split: "t < length ds \<Longrightarrow> concat ds = concat (take t ds) @ ds ! t @ concat (drop (Suc t) ds)"
  by (metis concat.simps(2) concat_append id_take_nth_drop)

lemma prefix_sums_strict:
  assumes "\<forall>i<length ds. ds ! i \<noteq> []"
  shows "sorted_wrt (<) (map (\<lambda>i. length (concat (take i ds))) [0..<Suc (length ds)])"
proof -
  have "length (concat (take i ds)) < length (concat (take j ds))" if "i < j" "j \<le> length ds" for i j
    using that
  proof (induction j)
    case (Suc j)
    have "concat (take (Suc j) ds) = concat (take j ds) @ ds ! j" using Suc.prems(2) by (simp add: take_Suc_conv_app_nth)
    moreover have "ds ! j \<noteq> []" using assms Suc.prems(2) by simp
    ultimately show ?case using Suc by (cases "i = j") auto
  qed simp
  then show ?thesis by (auto simp: sorted_wrt_iff_nth_less simp del: upt_Suc)
qed

lemma reader_blob_at_spec:
  assumes "reader_ok fetch ds rd" "pos < length (concat ds)"
  shows "reader_blob_at rd pos < length ds \<and> length (concat (take (reader_blob_at rd pos) ds)) \<le> pos \<and>
    pos < length (concat (take (Suc (reader_blob_at rd pos)) ds))"
proof -
  let ?P = "map (\<lambda>i. length (concat (take i ds))) [0..<Suc (length ds)]"
  have P: "rd_blob_prefix rd = ?P" by (rule reader_okD(5) [OF assms(1)])
  have strict: "sorted_wrt (<) ?P" using reader_okD(4) [OF assms(1)] by (intro prefix_sums_strict) blast
  then have sorted: "sorted ?P" by (simp only: strict_sorted_iff)
  have nth: "?P ! i = length (concat (take i ds))" if "i \<le> length ds" for i using that by (simp del: upt_Suc)
  have len: "length ?P = Suc (length ds)" by simp
  have last: "?P ! length ds = length (concat ds)" using nth by simp
  show ?thesis
  proof (cases "binary_search ?P pos")
    case (Inr i)
    from bsearch.search_hit [OF this] have i: "i \<le> length ds" "?P ! i = pos" unfolding len by auto
    with assms(2) last have lt: "i < length ds" by (metis le_neq_implies_less less_irrefl)
    then have "?P ! i < ?P ! Suc i" using strict unfolding sorted_wrt_iff_nth_less len by simp
    with i lt nth [of i] nth [of "Suc i"] show ?thesis using Inr P by (simp add: reader_blob_at_def del: upt_Suc)
  next
    case (Inl i)
    from binary_search_miss [OF sorted this] have m: "i \<le> Suc (length ds)" "\<forall>j<i. ?P ! j < pos" "\<forall>j<Suc (length ds). i \<le> j \<longrightarrow> pos < ?P ! j"
      unfolding len by blast+
    have "i \<noteq> 0"
    proof
      assume "i = 0"
      with m(3) have "pos < ?P ! 0" by blast
      then show False using nth [of 0] by simp
    qed
    moreover have "i \<le> length ds"
    proof (rule ccontr)
      assume "\<not> i \<le> length ds"
      then have "?P ! length ds < pos" using m(2) by simp
      then show False using last assms(2) by simp
    qed
    ultimately obtain t where t: "i = Suc t" "t < length ds" by (cases i) auto
    have "?P ! t < pos" "pos < ?P ! Suc t" using m(2,3) t by auto
    with t nth [of t] nth [of "Suc t"] show ?thesis using Inl P by (simp add: reader_blob_at_def del: upt_Suc)
  qed
qed

lemma reader_copy_spec:
  assumes "reader_ok fetch ds rd" "rd_current_blob_idx rd = t" "t < length ds" "rd_current_blob rd = ds ! t"
    "length (concat (take t ds)) \<le> rd_pos rd" "rd_pos rd < length (concat (take (Suc t) ds))" "0 < n"
  shows "\<exists>bs. reader_copy rd n = Some (bs, rd\<lparr>rd_pos := rd_pos rd + length bs\<rparr>) \<and> 0 < length bs \<and> length bs \<le> n \<and>
    bs = take (length bs) (drop (rd_pos rd) (concat ds))"
proof -
  let ?s = "length (concat (take t ds))"
  let ?o = "rd_pos rd - ?s"
  let ?k = "min (length (ds ! t) - ?o) n"
  have start: "rd_blob_prefix rd ! t = ?s" using assms(3) reader_okD(5) [OF assms(1)] by (simp del: upt_Suc)
  have "length (concat (take (Suc t) ds)) = ?s + length (ds ! t)" using assms(3) by (simp add: take_Suc_conv_app_nth)
  then have o: "?o < length (ds ! t)" using assms(5,6) by linarith
  then have k: "0 < ?k" "?k \<le> n" "?o + ?k \<le> length (ds ! t)" using assms(7) by auto
  have "drop (rd_pos rd) (concat ds) = drop ?o (ds ! t) @ concat (drop (Suc t) ds)"
    using assms(5) o by (subst concat_split [OF assms(3)]) simp
  then have content: "slice ?o (?o + ?k) (ds ! t) = take ?k (drop (rd_pos rd) (concat ds))" using k(3) by (simp add: slice_def)
  let ?bs = "slice ?o (?o + ?k) (ds ! t)"
  have l: "length ?bs = ?k" using k(3) by simp
  have run: "reader_copy rd n = Some (?bs, rd\<lparr>rd_pos := rd_pos rd + ?k\<rparr>)"
    using o assms(2,4) start by (simp add: reader_copy_def Let_def)
  show ?thesis
  proof (intro exI conjI)
    show "reader_copy rd n = Some (?bs, rd\<lparr>rd_pos := rd_pos rd + length ?bs\<rparr>)" unfolding l by (fact run)
    show "0 < length ?bs" "length ?bs \<le> n" unfolding l by (fact k(1), fact k(2))
    show "?bs = take (length ?bs) (drop (rd_pos rd) (concat ds))" unfolding l by (fact content)
  qed
qed

text \<open>C36: A reader of a stored file is a cursor over the concatenation of the file's blobs: before the end every read
  into a non-empty buffer returns at least one and at most as many bytes as the buffer holds, the next ones of
  the file, and advances by them; at the end it returns nothing. It never fails on blobs that load and are as
  long as the index says.\<close>

theorem reader_refines_cursor:
  assumes "reader_ok fetch ds rd" "0 < n"
  shows "\<exists>bs rd'. poll_read fetch n rd = Some (Ok (bs, rd')) \<and> reader_ok fetch ds rd' \<and>
    rd_pos rd' = rd_pos rd + length bs \<and> bs = take (length bs) (drop (rd_pos rd) (concat ds)) \<and> length bs \<le> n \<and>
    (bs = [] \<longleftrightarrow> length (concat ds) \<le> rd_pos rd)"
proof (cases "rd_pos rd < length (concat ds)")
  case False
  then have "poll_read fetch n rd = Some (Ok ([], rd))" using reader_okD(1) [OF assms(1)] by (simp add: poll_read_def)
  then show ?thesis using assms(1) False by simp
next
  case True
  let ?t = "reader_blob_at rd (rd_pos rd)"
  note at = reader_blob_at_spec [OF assms(1) True]
  let ?rd = "rd\<lparr>rd_current_blob := ds ! ?t, rd_current_blob_idx := ?t\<rparr>"
  have ok: "reader_ok fetch ds ?rd" using at by (intro reader_ok_load [OF assms(1)]) blast
  have busy: "\<not> (rd_pos rd \<ge> rd_total_length rd \<or> n = 0)" using True assms(2) reader_okD(1) [OF assms(1)] by simp
  from reader_copy_spec [OF ok _ _ _ _ _ assms(2), of ?t] at obtain bs where
    bs: "reader_copy ?rd n = Some (bs, ?rd\<lparr>rd_pos := rd_pos rd + length bs\<rparr>)" "0 < length bs" "length bs \<le> n"
      "bs = take (length bs) (drop (rd_pos rd) (concat ds))" by auto
  have "poll_read fetch n rd = map_option Ok (reader_copy ?rd n)"
  proof (cases "rd_current_blob_idx rd = ?t")
    case same: True
    have "?t \<noteq> USIZE_MAX" using at reader_okD(2) [OF assms(1)] by linarith
    then have "rd_current_blob rd = ds ! ?t" using same reader_okD(6) [OF assms(1)] by simp
    then have "?rd = rd" using same by simp
    then show ?thesis using busy same by (simp add: poll_read_def Let_def)
  next
    case False
    have "fetch (rd_blob_ids rd ! ?t) = Ok (ds ! ?t)" using at reader_okD(3) [OF assms(1)] by blast
    then show ?thesis using busy False by (simp add: poll_read_def Let_def)
  qed
  moreover note reader_ok_pos [OF ok, of "rd_pos rd + length bs"]
  ultimately show ?thesis using bs(1,2,3) bs(4) True
    by (intro exI [of _ bs] exI [of _ "?rd\<lparr>rd_pos := rd_pos rd + length bs\<rparr>"] conjI) simp_all
qed

section \<open>Include patterns\<close>

text \<open>The components of a Unix path string: the root, and the parts between slashes that are neither empty nor a
  dot, a leading dot excepted.\<close>

fun split_slash :: "string \<Rightarrow> string list" where
  "split_slash [] = [[]]"
| "split_slash (c # cs) =
     (if c = CHR ''/'' then [] # split_slash cs
      else case split_slash cs of [] \<Rightarrow> [[c]] | p # ps \<Rightarrow> (c # p) # ps)"

definition components :: "string \<Rightarrow> path" where
  "components s =
     (let parts = split_slash s; proper = filter (\<lambda>p. p \<noteq> [] \<and> p \<noteq> ''.'')
      in case parts of
           [] \<Rightarrow> []
         | p # ps \<Rightarrow>
             if p = [] \<and> ps \<noteq> [] then ''/'' # proper ps
             else if p = ''.'' then p # proper ps
             else proper parts)"

definition is_glob :: "string \<Rightarrow> bool" where
  "is_glob path_str \<longleftrightarrow> CHR ''*'' \<in> set path_str \<or> CHR ''?'' \<in> set path_str"

definition normalized_exclude_paths :: "(path \<Rightarrow> path result) \<Rightarrow> string list option \<Rightarrow> path list option result" where
  "normalized_exclude_paths absolute epaths =
     (case epaths of
        None \<Rightarrow> Ok None
      | Some strs \<Rightarrow>
          foldl (\<lambda>r s. bind_result r (\<lambda>ps.
            if is_glob s then Ok (map_option (\<lambda>l. l @ [components s]) ps)
            else case absolute (components s) of
                Inl e \<Rightarrow> Err Config
              | Inr p \<Rightarrow> Ok (map_option (\<lambda>l. l @ [p]) ps))) (Ok (Some [])) strs)"

definition parse_relative_filter_paths :: "string list option \<Rightarrow> path list option" where
  "parse_relative_filter_paths iepaths = map_option (map components) iepaths"

text \<open>\<open>sort\<close> followed by \<open>dedup\<close> is \<open>remdups_adj\<close> of the sorted list.\<close>

definition expand_include_paths :: "(ID \<Rightarrow> TreeObject result) \<Rightarrow> ID \<Rightarrow> string list option \<Rightarrow> path list option \<Rightarrow>
    path list option result option" where
  "expand_include_paths load tree_id includes excludes =
     (case includes of
        None \<Rightarrow> Some (Ok None)
      | Some incs \<Rightarrow>
          let include_rules = map (\<lambda>s. glob_new (components s)) (filter is_glob incs);
              fixed_includes = map components (filter (\<lambda>s. \<not> is_glob s) incs)
          in if include_rules = [] then Some (Ok (Some (remdups_adj (sort fixed_includes))))
             else case sns_new load (allow (filter_new None excludes)) (Some tree_id) [] of
                 Inl e \<Rightarrow> Some (Err e)
               | Inr stack \<Rightarrow>
                   Option.bind (sns_run load (allow (filter_new None excludes)) stack) (\<lambda>(items, e).
                     case e of
                       Some e \<Rightarrow> Some (Err e)
                     | None \<Rightarrow>
                         let found = filter (\<lambda>(p, n). is_file (sn_node n) \<and> list_ex (\<lambda>g. is_strict_match g p) include_rules) items
                         in Some (Ok (Some (remdups_adj (sort (fixed_includes @ map fst found)))))))"

lemma distinct_dedup: "sorted xs \<Longrightarrow> distinct (remdups_adj xs)" for xs :: "'a::linorder list"
proof (induction xs rule: remdups_adj.induct)
  case (3 x y xs)
  then show ?case by (cases "x = y") (auto dest: antisym)
qed simp_all

text \<open>The expansion is sorted without duplicates, and consists of the literal paths and of the files of the tree that
  are not excluded and match a pattern completely.\<close>

lemma expand_include_exact:
  assumes "stored load i f" "\<forall>s\<in>set incs. is_glob s \<longrightarrow> length (components s) \<le> MAX_TOKENS_U128"
  shows "\<exists>ps. expand_include_paths load i (Some incs) excl = Some (Ok (Some ps)) \<and> sorted ps \<and> distinct ps \<and>
    (\<forall>p. p \<in> set ps \<longleftrightarrow> (\<exists>s\<in>set incs. \<not> is_glob s \<and> p = components s) \<or>
       (\<exists>n k. (p, \<lparr>sn_node = n, sn_num_children = k\<rparr>) \<in> set (preorder (allow (filter_new None excl)) [] f) \<and> is_file n \<and>
          (\<exists>s\<in>set incs. is_glob s \<and> glob_match (map compile_component (components s)) p)))"
proof -
  let ?fixed = "map components (filter (\<lambda>s. \<not> is_glob s) incs)"
  let ?rules = "map (\<lambda>s. glob_new (components s)) (filter is_glob incs)"
  let ?A = "allow (filter_new None excl)"
  let ?found = "filter (\<lambda>(p, n). is_file (sn_node n) \<and> list_ex (\<lambda>g. is_strict_match g p) ?rules) (preorder ?A [] f)"
  have nice: "sorted (remdups_adj (sort l))" "distinct (remdups_adj (sort l))" "set (remdups_adj (sort l)) = set l" for l :: "path list"
    by (simp_all add: distinct_dedup sorted_remdups_adj)
  have strict: "list_ex (\<lambda>g. is_strict_match g p) ?rules \<longleftrightarrow> (\<exists>s\<in>set incs. is_glob s \<and> glob_match (map compile_component (components s)) p)" for p
    using assms(2) by (auto simp: list_ex_iff glob_strict_exact)
  have found: "p \<in> fst ` set ?found \<longleftrightarrow> (\<exists>n k. (p, \<lparr>sn_node = n, sn_num_children = k\<rparr>) \<in> set (preorder ?A [] f) \<and> is_file n \<and>
      list_ex (\<lambda>g. is_strict_match g p) ?rules)" for p
  proof
    assume "p \<in> fst ` set ?found"
    then obtain x where "(p, x) \<in> set (preorder ?A [] f)" "is_file (sn_node x)" "list_ex (\<lambda>g. is_strict_match g p) ?rules" by auto
    then show "\<exists>n k. (p, \<lparr>sn_node = n, sn_num_children = k\<rparr>) \<in> set (preorder ?A [] f) \<and> is_file n \<and> list_ex (\<lambda>g. is_strict_match g p) ?rules"
      by (metis StreamNode.surjective old.unit.exhaust)
  qed force
  show ?thesis
  proof (cases "?rules = []")
    case True
    then have "expand_include_paths load i (Some incs) excl = Some (Ok (Some (remdups_adj (sort ?fixed))))"
      by (simp add: expand_include_paths_def Let_def)
    moreover have "\<not> (\<exists>s\<in>set incs. is_glob s \<and> P s)" for P using True by (auto simp: filter_empty_conv)
    ultimately show ?thesis using nice [of ?fixed] by (intro exI [of _ "remdups_adj (sort ?fixed)"]) auto
  next
    case False
    obtain stack where st: "sns_new load ?A (Some i) [] = Ok stack" "sns_run load ?A stack = Some (preorder ?A [] f, None)"
      using node_stream_run [OF assms(1)] by blast
    let ?ps = "remdups_adj (sort (?fixed @ map fst ?found))"
    have "expand_include_paths load i (Some incs) excl = Some (Ok (Some ?ps))"
      using False st by (simp add: expand_include_paths_def Let_def)
    moreover have "p \<in> set ?ps \<longleftrightarrow> (\<exists>s\<in>set incs. \<not> is_glob s \<and> p = components s) \<or>
       (\<exists>n k. (p, \<lparr>sn_node = n, sn_num_children = k\<rparr>) \<in> set (preorder ?A [] f) \<and> is_file n \<and>
          (\<exists>s\<in>set incs. is_glob s \<and> glob_match (map compile_component (components s)) p))" for p
    proof -
      have "p \<in> set ?ps \<longleftrightarrow> p \<in> set ?fixed \<or> p \<in> fst ` set ?found" unfolding nice by simp
      moreover have "p \<in> set ?fixed \<longleftrightarrow> (\<exists>s\<in>set incs. \<not> is_glob s \<and> p = components s)" by auto
      moreover note found [of p, unfolded strict [of p]]
      ultimately show ?thesis by blast
    qed
    ultimately show ?thesis using nice(1,2) [of "?fixed @ map fst ?found"] by blast
  qed
qed

section \<open>Concrete instances\<close>

definition demo_meta :: "u64 \<Rightarrow> Metadata" where
  "demo_meta sz = \<lparr>md_size = sz, md_accessed_time = None, md_created_time = None, md_modified_time = Some 5, md_mode = None,
     md_owner_uid = None, md_owner_gid = None, md_inode = Some 1, md_dev = None, md_nlink = None, md_rdev = None,
     md_extended_attributes = None, md_windows_attributes = None, md_linux_flags = None\<rparr>"

definition demo_file :: "string \<Rightarrow> u64 \<Rightarrow> ID list \<Rightarrow> Node" where
  "demo_file name sz blobs = \<lparr>nd_name = name, nd_type = FileNode, nd_metadata = demo_meta sz, nd_symlink_info = None,
     nd_blobs = Some blobs, nd_tree = None\<rparr>"

definition demo_dir :: "string \<Rightarrow> ID \<Rightarrow> Node" where
  "demo_dir name i = \<lparr>nd_name = name, nd_type = Directory, nd_metadata = demo_meta 0, nd_symlink_info = None,
     nd_blobs = None, nd_tree = Some i\<rparr>"

definition demo_src :: forest where
  "demo_src = Branch (demo_dir ''a'' (ID [2])) (Branch (demo_file ''x'' 3 []) Leaf Leaf) (Branch (demo_file ''b'' 1 []) Leaf Leaf)"

definition demo_tgt :: forest where
  "demo_tgt = Branch (demo_dir ''a'' (ID [4])) (Branch (demo_file ''x'' 9 []) Leaf Leaf) (Branch (demo_file ''c'' 1 []) Leaf Leaf)"

definition demo_load :: "ID \<Rightarrow> TreeObject result" where
  "demo_load i =
     (if i = ID [1] then Ok \<lparr>tr_nodes = [demo_dir ''a'' (ID [2]), demo_file ''b'' 1 []]\<rparr>
      else if i = ID [2] then Ok \<lparr>tr_nodes = [demo_file ''x'' 3 []]\<rparr>
      else if i = ID [3] then Ok \<lparr>tr_nodes = [demo_dir ''a'' (ID [4]), demo_file ''c'' 1 []]\<rparr>
      else if i = ID [4] then Ok \<lparr>tr_nodes = [demo_file ''x'' 9 []]\<rparr>
      else Err (NotInIndex i))"

lemma demo_stored: "stored demo_load (ID [1]) demo_src" "stored demo_load (ID [3]) demo_tgt"
  by (simp_all add: stored_def demo_load_def demo_src_def demo_tgt_def demo_dir_def demo_file_def)

lemma demo_sorted: "names_sorted demo_src" "names_sorted demo_tgt"
  by (simp_all add: demo_src_def demo_tgt_def demo_dir_def demo_file_def less_char_def)

theorem tree_diff_exact_witness:
  "\<exists>st ds. create_diff_stream demo_load (ID [1]) (ID [3]) = Ok st \<and> diff_collect demo_load st = Some (map Ok ds) \<and>
     map (\<lambda>(p, _, _, d). (p, d)) ds =
       [([''a''], DiffUnchanged), ([''a'', ''x''], DiffChanged), ([''b''], DiffDeleted), ([''c''], DiffNew)]"
proof -
  let ?ds = "map (diff_entry (nodes_of demo_src) (nodes_of demo_tgt))
      (sorted_list_of_set (fst ` set (nodes_of demo_src) \<union> fst ` set (nodes_of demo_tgt)))"
  have "fst ` set (nodes_of demo_src) \<union> fst ` set (nodes_of demo_tgt) = set [[''a''], [''a'', ''x''], [''b''], [''c'']]"
    by (auto simp: nodes_of_def demo_src_def demo_tgt_def demo_dir_def demo_file_def Let_def)
  moreover have "sorted_list_of_set (set [[''a''], [''a'', ''x''], [''b''], [''c'']]) = [[''a''], [''a'', ''x''], [''b''], [''c'']]"
    by (rule sorted_list_of_set.idem_if_sorted_distinct) (simp_all add: less_char_def)
  ultimately have "map (\<lambda>(p, _, _, d). (p, d)) ?ds =
      [([''a''], DiffUnchanged), ([''a'', ''x''], DiffChanged), ([''b''], DiffDeleted), ([''c''], DiffNew)]"
    by (simp add: diff_entry_def diff_kind_def nodes_of_def demo_src_def demo_tgt_def demo_dir_def demo_file_def is_modified_hint_def
      times_match_exact_def demo_meta_def Let_def)
  with tree_diff_exact [OF demo_stored demo_sorted] show ?thesis by metis
qed

theorem find_serialized_exact_witness:
  "find_serialized_node demo_load (\<lambda>c. True) (ID [1]) [''a'', ''x''] = Ok (Some (demo_file ''x'' 3 []))"
proof -
  have "([''a'', ''x''], \<lparr>sn_node = demo_file ''x'' 3 [], sn_num_children = 0\<rparr>) \<in> set (preorder (\<lambda>q. True) [] demo_src)"
    by (simp add: demo_src_def demo_dir_def demo_file_def allowed_children_def)
  then show ?thesis
    using find_serialized_exact [OF demo_stored(1) demo_sorted(1), of "[''a'', ''x'']" "\<lambda>c. True" "demo_file ''x'' 3 []"] by auto
qed

definition demo_blobs :: "ID \<Rightarrow> bytes result" where
  "demo_blobs i = (if i = ID [7] then Ok [1, 2, 3] else if i = ID [8] then Ok [4, 5] else Err (NotInIndex i))"

definition demo_reader :: DataReader where
  "demo_reader = \<lparr>rd_blob_ids = [ID [7], ID [8]], rd_blob_prefix = [0, 3, 5], rd_total_length = 5, rd_pos = 2,
     rd_current_blob_idx = USIZE_MAX, rd_current_blob = []\<rparr>"

theorem reader_refines_cursor_witness:
  "\<exists>bs rd'. poll_read demo_blobs 8 demo_reader = Some (Ok (bs, rd')) \<and> bs \<noteq> [] \<and> bs = take (length bs) [3, 4, 5]"
proof -
  have "reader_ok demo_blobs [[1, 2, 3], [4, 5]] demo_reader"
    by (auto simp: reader_ok_def demo_reader_def demo_blobs_def USIZE_MAX_def less_Suc_eq upt_rec)
  from reader_refines_cursor [OF this, of 8] show ?thesis by (auto simp: demo_reader_def)
qed

text \<open>A time before the epoch with a fraction of a second comes out wrong: the fraction is subtracted instead of
  added.\<close>

lemma statx_time_before_epoch:
  "sint (tv_sec ts) < 0 \<Longrightarrow> 0 < uint (tv_nsec ts) \<Longrightarrow>
     statx_to_system_time ts < sint (tv_sec ts) * NANOS + int (unat (tv_nsec ts))"
  by (simp add: statx_to_system_time_def)

lemma statx_time_after_epoch:
  "0 \<le> sint (tv_sec ts) \<Longrightarrow> statx_to_system_time ts = sint (tv_sec ts) * NANOS + int (unat (tv_nsec ts))"
  by (simp add: statx_to_system_time_def)

end
