(* ===== verification/Snapshot.thy ===== *)
theory Snapshot
  imports FsTree
begin

text \<open>
  Snapshots (\<open>repository/snapshot.rs\<close>): the record, the tag test, the difference counters and the stream of
  snapshots with its consumers. A timestamp is an instant (nanoseconds); \<open>load\<close> is \<open>Repository::load_snapshot\<close> with
  the extension of the stream.
\<close>

section \<open>Snapshots\<close>

record DiffCounts =
  dc_new_files :: u64
  dc_deleted_files :: u64
  dc_changed_files :: u64
  dc_new_dirs :: u64
  dc_deleted_dirs :: u64
  dc_changed_dirs :: u64
  dc_unchanged_files :: u64
  dc_unchanged_dirs :: u64

record SnapshotSummary =
  su_processed_items_count :: u64
  su_processed_bytes :: u64
  su_raw_bytes :: u64
  su_encoded_bytes :: u64
  su_meta_raw_bytes :: u64
  su_meta_encoded_bytes :: u64
  su_total_raw_bytes :: u64
  su_total_encoded_bytes :: u64
  su_data_blobs :: u64
  su_meta_blobs :: u64
  su_diff_counts :: DiffCounts
  su_amends :: "ID option"

record Snapshot =
  snap_timestamp :: int
  snap_parent :: "ID option"
  snap_tree :: ID
  snap_root :: path
  snap_paths :: "path list"
  snap_hostname :: "string option"
  snap_username :: "string option"
  snap_version :: "string option"
  snap_tags :: "string set"
  snap_description :: "string option"
  snap_summary :: SnapshotSummary

record SnapshotEntry =
  se_id :: ID
  se_snapshot :: Snapshot
  se_active :: bool

definition snapshot_size :: "Snapshot \<Rightarrow> u64" where
  "snapshot_size s = su_processed_bytes (snap_summary s)"

definition EMPTY_TAG_MARK :: string where "EMPTY_TAG_MARK = ''[]''"

definition has_tags :: "Snapshot \<Rightarrow> string set \<Rightarrow> bool" where
  "has_tags s tags =
     (if EMPTY_TAG_MARK \<in> tags \<and> snap_tags s = {} then True
      else \<exists>tag\<in>snap_tags s. tag \<in> tags)"

section \<open>Difference counters\<close>

definition dc_zero :: DiffCounts where
  "dc_zero = \<lparr>dc_new_files = 0, dc_deleted_files = 0, dc_changed_files = 0, dc_new_dirs = 0, dc_deleted_dirs = 0,
     dc_changed_dirs = 0, dc_unchanged_files = 0, dc_unchanged_dirs = 0\<rparr>"

text \<open>The atomic counters do the same additions.\<close>

definition dc_increment :: "bool \<Rightarrow> NodeDiff \<Rightarrow> DiffCounts \<Rightarrow> DiffCounts" where
  "dc_increment dir diff_type c =
     (case diff_type of
        DiffNew \<Rightarrow> if dir then c\<lparr>dc_new_dirs := dc_new_dirs c + 1\<rparr> else c\<lparr>dc_new_files := dc_new_files c + 1\<rparr>
      | DiffDeleted \<Rightarrow> if dir then c\<lparr>dc_deleted_dirs := dc_deleted_dirs c + 1\<rparr> else c\<lparr>dc_deleted_files := dc_deleted_files c + 1\<rparr>
      | DiffChanged \<Rightarrow> if dir then c\<lparr>dc_changed_dirs := dc_changed_dirs c + 1\<rparr> else c\<lparr>dc_changed_files := dc_changed_files c + 1\<rparr>
      | DiffUnchanged \<Rightarrow>
          if dir then c\<lparr>dc_unchanged_dirs := dc_unchanged_dirs c + 1\<rparr> else c\<lparr>dc_unchanged_files := dc_unchanged_files c + 1\<rparr>)"

fun dc_get :: "DiffCounts \<Rightarrow> bool \<Rightarrow> NodeDiff \<Rightarrow> u64" where
  "dc_get c dir DiffNew = (if dir then dc_new_dirs c else dc_new_files c)"
| "dc_get c dir DiffDeleted = (if dir then dc_deleted_dirs c else dc_deleted_files c)"
| "dc_get c dir DiffChanged = (if dir then dc_changed_dirs c else dc_changed_files c)"
| "dc_get c dir DiffUnchanged = (if dir then dc_unchanged_dirs c else dc_unchanged_files c)"

lemma dc_get_increment: "dc_get (dc_increment dir d c) dir' d' = dc_get c dir' d' + (if dir = dir' \<and> d = d' then 1 else 0)"
  by (cases d; cases d') (auto simp: dc_increment_def)

text \<open>Whatever the order of the increments, each counter is the number of its events.\<close>

lemma dc_counts:
  "dc_get (fold (\<lambda>(dir, d). dc_increment dir d) evs dc_zero) dir d = word_of_nat (count_list evs (dir, d))"
proof -
  have "dc_get (fold (\<lambda>(dir, d). dc_increment dir d) evs c) dir d = dc_get c dir d + word_of_nat (count_list evs (dir, d))" for c
    by (induction evs arbitrary: c) (auto simp: dc_get_increment split: if_splits)
  moreover have "dc_get dc_zero dir d = 0" by (cases d) (simp_all add: dc_zero_def)
  ultimately show ?thesis by simp
qed

section \<open>The stream of snapshots\<close>

text \<open>The ids are taken from the end of the list; the counter of remaining snapshots goes down whether the load
  succeeds or not.\<close>

record SnapshotStream =
  ss_ids :: "ID list"
  ss_num_snapshots :: nat
  ss_remaining :: nat

definition make_stream :: "ID list \<Rightarrow> SnapshotStream" where
  "make_stream ids = \<lparr>ss_ids = ids, ss_num_snapshots = length ids, ss_remaining = length ids\<rparr>"

definition stream_next_snapshot :: "(ID \<Rightarrow> Snapshot result) \<Rightarrow> SnapshotStream \<Rightarrow> (ID \<times> Snapshot) result option \<times> SnapshotStream" where
  "stream_next_snapshot load s =
     (if ss_ids s = [] then (None, s)
      else
        let i = last (ss_ids s);
            s = s\<lparr>ss_ids := butlast (ss_ids s), ss_remaining := ss_remaining s - 1\<rparr>
        in case load i of Inr snap \<Rightarrow> (Some (Ok (i, snap)), s) | Inl e \<Rightarrow> (Some (Err e), s))"

function collect_loop :: "(ID \<Rightarrow> Snapshot result) \<Rightarrow> bool \<Rightarrow> SnapshotStream \<Rightarrow> SnapshotEntry list \<Rightarrow> SnapshotEntry list result" where
  "collect_loop load active s entries =
     (case stream_next_snapshot load s of
        (None, _) \<Rightarrow> Ok entries
      | (Some (Inl e), _) \<Rightarrow> Err e
      | (Some (Inr (i, snap)), s') \<Rightarrow>
          collect_loop load active s' (entries @ [\<lparr>se_id = i, se_snapshot = snap, se_active = active\<rparr>]))"
  by pat_completeness auto

lemma stream_next_consumes: "stream_next_snapshot load s = (Some r, s') \<Longrightarrow> length (ss_ids s') < length (ss_ids s)"
  by (auto simp: stream_next_snapshot_def Let_def split: if_splits sum.splits)

termination collect_loop
  by (relation "measure (\<lambda>(load, active, s, entries). length (ss_ids s))") (auto dest: stream_next_consumes [OF sym])

declare collect_loop.simps [simp del]

definition collect_entries :: "(ID \<Rightarrow> Snapshot result) \<Rightarrow> bool \<Rightarrow> SnapshotStream \<Rightarrow> SnapshotEntry list result" where
  "collect_entries load active s = collect_loop load active s []"

definition latest_step :: "(ID \<times> Snapshot) option result \<Rightarrow> (ID \<times> Snapshot) result \<Rightarrow> (ID \<times> Snapshot) option result" where
  "latest_step latest res =
     bind_result res (\<lambda>(i, snap).
     bind_result latest (\<lambda>l.
       case l of
         Some (lid, lsnap) \<Rightarrow> if snap_timestamp lsnap > snap_timestamp snap then Ok (Some (lid, lsnap)) else Ok (Some (i, snap))
       | None \<Rightarrow> Ok (Some (i, snap))))"

function latest_loop :: "(ID \<Rightarrow> Snapshot result) \<Rightarrow> SnapshotStream \<Rightarrow> (ID \<times> Snapshot) option result \<Rightarrow> (ID \<times> Snapshot) option result" where
  "latest_loop load s latest =
     (case stream_next_snapshot load s of
        (None, _) \<Rightarrow> latest
      | (Some res, s') \<Rightarrow> latest_loop load s' (latest_step latest res))"
  by pat_completeness auto

termination latest_loop
  by (relation "measure (\<lambda>(load, s, latest). length (ss_ids s))") (auto dest: stream_next_consumes [OF sym])

declare latest_loop.simps [simp del]

definition latest_snapshot :: "(ID \<Rightarrow> Snapshot result) \<Rightarrow> SnapshotStream \<Rightarrow> (ID \<times> Snapshot) option result" where
  "latest_snapshot load s = latest_loop load s (Ok None)"

lemma stream_next_ids:
  "ss_ids s \<noteq> [] \<Longrightarrow> \<exists>s'. stream_next_snapshot load s = (Some (map_sum id (Pair (last (ss_ids s))) (load (last (ss_ids s)))), s') \<and> ss_ids s' = butlast (ss_ids s)"
  by (cases "load (last (ss_ids s))") (auto simp: stream_next_snapshot_def Let_def)

text \<open>With no failing load the stream yields every listed snapshot once, last id first.\<close>

lemma collect_loop_ok:
  assumes "\<forall>i\<in>set ids. load i = Ok (snap i)" "ss_ids s = ids"
  shows "collect_loop load active s entries =
    Ok (entries @ map (\<lambda>i. \<lparr>se_id = i, se_snapshot = snap i, se_active = active\<rparr>) (rev ids))"
  using assms
proof (induction ids arbitrary: s entries rule: rev_induct)
  case Nil
  then show ?case by (subst collect_loop.simps) (simp add: stream_next_snapshot_def)
next
  case (snoc i ids)
  from stream_next_ids [of s load] snoc.prems obtain s' where
    "stream_next_snapshot load s = (Some (Ok (i, snap i)), s')" "ss_ids s' = ids" by auto
  with snoc.IH [of s'] snoc.prems show ?case by (subst collect_loop.simps) simp
qed

definition newest :: "(ID \<Rightarrow> Snapshot) \<Rightarrow> ID set \<Rightarrow> (ID \<times> Snapshot) option \<Rightarrow> bool" where
  "newest snap seen l \<longleftrightarrow>
     (case l of
        None \<Rightarrow> seen = {}
      | Some (i, sn) \<Rightarrow> i \<in> seen \<and> sn = snap i \<and> (\<forall>j\<in>seen. snap_timestamp (snap j) \<le> snap_timestamp sn))"

lemma latest_step_newest:
  assumes "newest snap seen l"
  shows "\<exists>l'. latest_step (Ok l) (Ok (i, snap i)) = Ok l' \<and> newest snap (insert i seen) l'"
proof (cases l)
  case None
  then show ?thesis using assms by (simp add: latest_step_def newest_def)
next
  case (Some p)
  then obtain j where j: "l = Some (j, snap j)" using assms by (cases p) (auto simp: newest_def)
  show ?thesis
  proof (cases "snap_timestamp (snap j) > snap_timestamp (snap i)")
    case True
    then show ?thesis using j assms by (simp add: latest_step_def newest_def)
  next
    case False
    then have "newest snap (insert i seen) (Some (i, snap i))" using j assms by (auto simp: newest_def)
    then show ?thesis using j False by (simp add: latest_step_def)
  qed
qed

lemma latest_loop_ok:
  assumes "\<forall>i\<in>set ids. load i = Ok (snap i)" "ss_ids s = ids" "newest snap seen l"
  shows "\<exists>l'. latest_loop load s (Ok l) = Ok l' \<and> newest snap (seen \<union> set ids) l'"
  using assms
proof (induction ids arbitrary: s l seen rule: rev_induct)
  case Nil
  then have "latest_loop load s (Ok l) = Ok l" by (subst latest_loop.simps) (simp add: stream_next_snapshot_def)
  with Nil show ?case by simp
next
  case (snoc i ids)
  from stream_next_ids [of s load] snoc.prems obtain s' where s':
    "stream_next_snapshot load s = (Some (Ok (i, snap i)), s')" "ss_ids s' = ids" by auto
  from latest_step_newest [OF snoc.prems(3)] obtain l2 where l2:
    "latest_step (Ok l) (Ok (i, snap i)) = Ok l2" "newest snap (insert i seen) l2" by blast
  have "latest_loop load s (Ok l) = latest_loop load s' (Ok l2)" using s' l2(1) by (subst latest_loop.simps) simp
  with snoc.IH [OF _ s'(2) l2(2)] snoc.prems(1) show ?case by simp
qed

text \<open>The latest snapshot is one of the repository's snapshots and none is newer; there is none exactly if the
  repository has no snapshots.\<close>

theorem latest_is_newest:
  assumes "\<forall>i\<in>set ids. load i = Ok (snap i)"
  shows "\<exists>l. latest_snapshot load (make_stream ids) = Ok l \<and>
    (case l of None \<Rightarrow> ids = []
     | Some (i, sn) \<Rightarrow> i \<in> set ids \<and> sn = snap i \<and> (\<forall>j\<in>set ids. snap_timestamp (snap j) \<le> snap_timestamp sn))"
proof -
  have "newest snap {} None" by (simp add: newest_def)
  from latest_loop_ok [OF assms _ this, of "make_stream ids"] obtain l where
    "latest_loop load (make_stream ids) (Ok None) = Ok l" "newest snap (set ids) l" by (auto simp: make_stream_def)
  then show ?thesis unfolding latest_snapshot_def newest_def by (intro exI [of _ l]) (cases l, auto)
qed

definition demo_snapshot :: "int \<Rightarrow> Snapshot" where
  "demo_snapshot t = \<lparr>snap_timestamp = t, snap_parent = None, snap_tree = ID [1], snap_root = [], snap_paths = [],
     snap_hostname = None, snap_username = None, snap_version = None, snap_tags = {}, snap_description = None,
     snap_summary = \<lparr>su_processed_items_count = 0, su_processed_bytes = 0, su_raw_bytes = 0, su_encoded_bytes = 0,
       su_meta_raw_bytes = 0, su_meta_encoded_bytes = 0, su_total_raw_bytes = 0, su_total_encoded_bytes = 0,
       su_data_blobs = 0, su_meta_blobs = 0, su_diff_counts = dc_zero, su_amends = None\<rparr>\<rparr>"

definition demo_snap :: "ID \<Rightarrow> Snapshot" where
  "demo_snap i = demo_snapshot (if i = ID [1] then 10 else if i = ID [2] then 30 else 20)"

theorem latest_is_newest_witness:
  "\<exists>i. latest_snapshot (\<lambda>i. Ok (demo_snap i)) (make_stream [ID [1], ID [2], ID [3]]) = Ok (Some (i, demo_snap i)) \<and> i = ID [2]"
proof -
  let ?ids = "[ID [1], ID [2], ID [3]]"
  have "\<forall>i\<in>set ?ids. Ok (demo_snap i) = Ok (demo_snap i)" by simp
  from latest_is_newest [OF this] obtain l where l: "latest_snapshot (\<lambda>i. Ok (demo_snap i)) (make_stream ?ids) = Ok l"
    "case l of None \<Rightarrow> ?ids = []
     | Some (i, sn) \<Rightarrow> i \<in> set ?ids \<and> sn = demo_snap i \<and> (\<forall>j\<in>set ?ids. snap_timestamp (demo_snap j) \<le> snap_timestamp sn)" by blast
  then show ?thesis by (cases l) (auto simp: demo_snap_def demo_snapshot_def)
qed

end
