(* ===== verification/RepoFiles.thy ===== *)
theory RepoFiles
  imports Repository
begin

text \<open>
  Deleting and renaming repository files (\<open>delete_file\<close> and \<open>set_extension\<close> of \<open>repository/repo.rs\<close>) over any backend: what
  happens to the file itself, and that no other file of the repository is affected. The interface is
  \<open>stat_backend\<close>, the storage backend with the law of \<open>lstat\<close>.
\<close>

lemma length_get_path: "length (with_extension (get_path t i) e) = (if t = PackFile then 3 else 2)"
  unfolding with_extension_path by (cases t) (simp_all add: get_path_def get_object_path_def)

lemma hd_get_path: "hd (with_extension (get_path t i) e) =
  (case t of PackFile \<Rightarrow> OBJECTS_DIR | SnapshotFile \<Rightarrow> SNAPSHOTS_DIR | IndexFileType \<Rightarrow> INDEX_DIR | KeyFileType \<Rightarrow> KEYS_DIR | LockFileType \<Rightarrow> LOCKS_DIR)"
  unfolding with_extension_path by (cases t) (simp_all add: get_path_def get_object_path_def)

text \<open>No file of the repository lies below another one.\<close>

lemma path_prefix_inject:
  assumes "id_ok i" "id_ok j" "prefix (with_extension (get_path t i) e) (with_extension (get_path t' j) e')"
  shows "t = t' \<and> i = j \<and> with_extension (get_path t i) e = with_extension (get_path t' j) e'"
proof -
  let ?p = "with_extension (get_path t i) e" and ?q = "with_extension (get_path t' j) e'"
  have "?p \<noteq> []" using length_get_path [of t i e] by (auto split: if_splits)
  with assms(3) have "hd ?p = hd ?q" by (auto simp: prefix_def)
  then have "t = t'"
    unfolding hd_get_path by (cases t; cases t') (simp_all add: OBJECTS_DIR_def SNAPSHOTS_DIR_def INDEX_DIR_def KEYS_DIR_def LOCKS_DIR_def)
  then have "length ?p = length ?q" by (simp add: length_get_path)
  with assms(3) have "?p = ?q" by (auto simp: prefix_def)
  with path_inject [OF assms(1,2)] show ?thesis by blast
qed

locale stat_backend = storage_backend +
  assumes lstat_file: "inv st \<Longrightarrow> be_lstat B st p = (ra, st') \<Longrightarrow> inv st' \<and> files st' = files st"
begin

lemma delete_file_frame:
  assumes "inv st" "delete_file B t i ext st = (r, st')"
  shows "inv st' \<and>
    (case r of
       Inr _ \<Rightarrow> files st' = (\<lambda>q. if prefix (with_extension (get_path t i) (unwrap_or_default ext)) q then None else files st q)
     | Inl _ \<Rightarrow> files st' = files st)"
proof -
  let ?p = "with_extension (get_path t i) (unwrap_or_default ext)"
  obtain r1 st1 where l: "be_lstat B st ?p = (r1, st1)" by fastforce
  note s1 = lstat_file [OF assms(1) l]
  show ?thesis
  proof (cases r1)
    case (Inl e)
    with assms(2) l s1 show ?thesis by (auto simp: delete_file_def Let_def)
  next
    case (Inr a)
    obtain r2 st2 where rm: "be_remove B st1 ?p = (r2, st2)" by fastforce
    have same: "files st1 = files st" using s1 by blast
    from remove_file [OF conjunct1 [OF s1] rm, unfolded same] Inr assms(2) l rm show ?thesis
      by (cases r2) (auto simp: delete_file_def Let_def)
  qed
qed

text \<open>A deletion removes its own file and leaves every other file of the repository alone, whether it succeeds or not.\<close>

lemma delete_file_other:
  assumes "inv st" "delete_file B t i None st = (r, st')" "id_ok i" "id_ok j" "(t', j) \<noteq> (t, i)"
  shows "inv st' \<and> files st' (with_extension (get_path t' j) e) = files st (with_extension (get_path t' j) e)"
proof -
  have "\<not> prefix (get_path t i) (with_extension (get_path t' j) e)"
    using path_prefix_inject [OF assms(3,4), of t "[]" t' e] assms(5) by auto
  then show ?thesis using delete_file_frame [OF assms(1,2)] by (cases r) (auto simp: unwrap_or_default_def)
qed

lemma delete_file_gone:
  assumes "inv st" "delete_file B t i None st = (Ok n, st')"
  shows "files st' (get_path t i) = None"
  using delete_file_frame [OF assms] by (simp add: unwrap_or_default_def)

lemma set_extension_other:
  assumes "inv st" "set_extension B t i (Some x) st = (r, st')" "x \<noteq> []" "id_ok i" "id_ok j" "(t', j) \<noteq> (t, i)"
    "files st (get_path t i) \<noteq> None"
  shows "inv st' \<and> files st' (with_extension (get_path t' j) e) = files st (with_extension (get_path t' j) e)"
proof -
  let ?from = "get_path t i" and ?to = "with_extension (get_path t i) x"
  have apart: "\<not> prefix ?from (with_extension (get_path t' j) e)" "\<not> prefix ?to (with_extension (get_path t' j) e)"
    using path_prefix_inject [OF assms(4,5), of t "[]" t' e] path_prefix_inject [OF assms(4,5), of t x t' e] assms(6) by auto
  have "last ?to \<noteq> last (with_extension ?from [])" unfolding with_extension_path using assms(3) by simp
  then have "?to \<noteq> ?from" by auto
  then have "\<not> prefix ?from ?to" "\<not> prefix ?to ?from"
    using path_prefix_inject [OF assms(4,4), of t "[]" t x] path_prefix_inject [OF assms(4,4), of t x t "[]"] by auto
  moreover obtain d where "files st ?from = Some d" using assms(7) by blast
  moreover have "be_rename B st ?from ?to = (r, st')" using assms(2) by (simp add: set_extension_def unwrap_or_default_def)
  ultimately show ?thesis using rename_file [OF assms(1), of ?from ?to r st'] apart by (cases r) auto
qed

end

lemma mb_lstat_spec: "mb_inv st \<Longrightarrow> mb_lstat st p = (r, st') \<Longrightarrow> mb_inv st' \<and> mb_files st' = mb_files st"
  by (auto simp: mb_lstat_def mb_inv_def mb_exec_no_hooks mb_files_def split: option.splits MockNode.splits)

interpretation mock_stat: stat_backend mock_backend mb_inv mb_files
  by unfold_locales (use mb_lstat_spec in \<open>simp add: mock_backend_def\<close>)

text \<open>Identifiers for the concrete instances.\<close>

definition demo_id :: "u8 \<Rightarrow> ID" where
  "demo_id b = ID (replicate 32 b)"

lemma demo_id_ok [simp]: "id_ok (demo_id b)"
  by (simp add: demo_id_def id_ok_def ID_LENGTH_def)

lemma demo_id_eq [simp]: "demo_id a = demo_id b \<longleftrightarrow> a = b"
  by (simp add: demo_id_def)

end
