(* ===== verification/Retention.thy ===== *)
theory Retention
  imports Snapshot RepoFiles
begin

text \<open>
  Retention (\<open>repository/retention.rs\<close>) and the choice of what the forget command removes
  (\<open>commands/cmd_forget.rs\<close>).

  The calendar is the crate \<open>chrono\<close>: the record \<open>chrono\<close> has the functions the code calls, on instants
  (nanoseconds), dates \<open>'d\<close> and local date-times \<open>'n\<close>; an operation that panics out of range returns \<open>None\<close>, and so does
  the function that called it. Numbers of periods are 64-bit; the subtraction of one and the casts wrap as in a
  release build.
\<close>

section \<open>The calendar\<close>

record ('d, 'n) chrono =
  ch_year :: "int \<Rightarrow> int"
  ch_month :: "int \<Rightarrow> nat"
  ch_iso_week :: "int \<Rightarrow> nat"
  ch_hour :: "int \<Rightarrow> nat"
  ch_date :: "int \<Rightarrow> 'd"
  ch_hour_start :: "int \<Rightarrow> int option"
  ch_sub_days :: "int \<Rightarrow> int \<Rightarrow> int option"
  ch_sub_hours :: "int \<Rightarrow> int \<Rightarrow> int option"
  ch_sub :: "int \<Rightarrow> int \<Rightarrow> int option"
  nv_from_ymd :: "int \<Rightarrow> nat \<Rightarrow> nat \<Rightarrow> 'd option"
  nv_year :: "'d \<Rightarrow> int"
  nv_month :: "'d \<Rightarrow> nat"
  nv_with_year :: "'d \<Rightarrow> int \<Rightarrow> 'd option"
  nv_with_month :: "'d \<Rightarrow> nat \<Rightarrow> 'd option"
  nv_with_day :: "'d \<Rightarrow> nat \<Rightarrow> 'd option"
  nv_from_monday :: "'d \<Rightarrow> nat"
  nv_sub_days :: "'d \<Rightarrow> int \<Rightarrow> 'd option"
  nv_sub_weeks :: "'d \<Rightarrow> int \<Rightarrow> 'd option"
  nv_midnight :: "'d \<Rightarrow> 'n option"
  dt_earliest :: "'n \<Rightarrow> int option"
  dt_plus_hour :: "'n \<Rightarrow> 'n"
  dt_utc :: "'n \<Rightarrow> int"

section \<open>Rules\<close>

datatype RetentionRule =
    KeepLast nat
  | KeepWithin int
  | KeepYearly u64
  | KeepMonthly u64
  | KeepWeekly u64
  | KeepDaily u64
  | KeepHourly u64
  | KeepTags "string set"

text \<open>The latest entry of each period, from the cutoff on: the first insertion wins, and the list is walked from
  the end.\<close>

fun periods_loop :: "(Snapshot \<Rightarrow> 'k) \<Rightarrow> int \<Rightarrow> SnapshotEntry list \<Rightarrow> ('k \<rightharpoonup> ID) \<Rightarrow> ('k \<rightharpoonup> ID)" where
  "periods_loop key cut_off [] kept = kept"
| "periods_loop key cut_off (e # es) kept =
     (let k = key (se_snapshot e)
      in periods_loop key cut_off es
           (if snap_timestamp (se_snapshot e) \<ge> cut_off
            then (case kept k of Some _ \<Rightarrow> kept | None \<Rightarrow> kept(k \<mapsto> se_id e))
            else kept))"

definition keep_latest_per_period :: "SnapshotEntry list \<Rightarrow> (Snapshot \<Rightarrow> 'k) \<Rightarrow> int \<Rightarrow> ID set" where
  "keep_latest_per_period snapshots_sorted key cut_off = ran (periods_loop key cut_off (rev snapshots_sorted) Map.empty)"

text \<open>The instant of a local midnight, with the detours for a midnight that does not exist.\<close>

definition resolve_local :: "('d, 'n) chrono \<Rightarrow> 'n \<Rightarrow> int" where
  "resolve_local c naive =
     (case dt_earliest c naive of
        Some t \<Rightarrow> t
      | None \<Rightarrow> (case dt_earliest c (dt_plus_hour c naive) of Some t \<Rightarrow> t | None \<Rightarrow> dt_utc c naive))"

definition as_i32 :: "u64 \<Rightarrow> int" where "as_i32 n = sint (ucast n :: 32 word)"
definition as_i64 :: "u64 \<Rightarrow> int" where "as_i64 n = sint n"

definition yearly_cutoff :: "('d, 'n) chrono \<Rightarrow> int \<Rightarrow> u64 \<Rightarrow> int" where
  "yearly_cutoff c now n =
     (let target_year = ch_year c now - as_i32 (n - 1)
      in case Option.bind (nv_from_ymd c target_year 1 1) (nv_midnight c) of
           Some naive \<Rightarrow> resolve_local c naive
         | None \<Rightarrow> now)"

fun months_back :: "('d, 'n) chrono \<Rightarrow> nat \<Rightarrow> 'd \<Rightarrow> 'd option" where
  "months_back c 0 target = Some target"
| "months_back c (Suc k) target =
     (let month = nv_month c target; year = nv_year c target
      in Option.bind
           (if month = 1 then Option.bind (nv_with_year c target (year - 1)) (\<lambda>d. nv_with_month c d 12)
            else nv_with_month c target (month - 1))
           (months_back c k))"

definition monthly_cutoff :: "('d, 'n) chrono \<Rightarrow> int \<Rightarrow> u64 \<Rightarrow> int" where
  "monthly_cutoff c now n =
     (case Option.bind (nv_with_day c (ch_date c now) 1) (\<lambda>d. Option.bind (months_back c (unat n - 1) d) (nv_midnight c)) of
        Some naive \<Rightarrow> resolve_local c naive
      | None \<Rightarrow> now)"

definition weekly_cutoff :: "('d, 'n) chrono \<Rightarrow> int \<Rightarrow> u64 \<Rightarrow> int option" where
  "weekly_cutoff c now n =
     Option.bind (nv_sub_days c (ch_date c now) (int (nv_from_monday c (ch_date c now)))) (\<lambda>current_monday.
     Option.bind (nv_sub_weeks c current_monday (as_i64 (n - 1))) (\<lambda>target_monday.
     Some (case nv_midnight c target_monday of Some naive \<Rightarrow> resolve_local c naive | None \<Rightarrow> now)))"

definition daily_cutoff :: "('d, 'n) chrono \<Rightarrow> int \<Rightarrow> u64 \<Rightarrow> int option" where
  "daily_cutoff c now n =
     (case nv_midnight c (ch_date c now) of
        Some naive_midnight \<Rightarrow> ch_sub_days c (resolve_local c naive_midnight) (as_i64 (n - 1))
      | None \<Rightarrow> Some now)"

definition hourly_cutoff :: "('d, 'n) chrono \<Rightarrow> int \<Rightarrow> u64 \<Rightarrow> int option" where
  "hourly_cutoff c now n =
     ch_sub_hours c (case ch_hour_start c now of Some t \<Rightarrow> t | None \<Rightarrow> now) (as_i64 (n - 1))"

definition rule_ids :: "('d, 'n) chrono \<Rightarrow> int \<Rightarrow> SnapshotEntry list \<Rightarrow> RetentionRule \<Rightarrow> ID set option" where
  "rule_ids c now snaps rule =
     (case rule of
        KeepLast n \<Rightarrow> Some (set (map se_id (take n (rev snaps))))
      | KeepWithin duration \<Rightarrow>
          Option.bind (ch_sub c now duration) (\<lambda>cutoff_time.
          Some (set (map se_id (filter (\<lambda>e. snap_timestamp (se_snapshot e) \<ge> cutoff_time) snaps))))
      | KeepYearly n \<Rightarrow> Some (keep_latest_per_period snaps (\<lambda>s. ch_year c (snap_timestamp s)) (yearly_cutoff c now n))
      | KeepMonthly n \<Rightarrow>
          Some (keep_latest_per_period snaps (\<lambda>s. (ch_year c (snap_timestamp s), ch_month c (snap_timestamp s))) (monthly_cutoff c now n))
      | KeepWeekly n \<Rightarrow>
          Option.bind (weekly_cutoff c now n) (\<lambda>cutoff.
          Some (keep_latest_per_period snaps (\<lambda>s. (ch_year c (snap_timestamp s), ch_iso_week c (snap_timestamp s))) cutoff))
      | KeepDaily n \<Rightarrow>
          Option.bind (daily_cutoff c now n) (\<lambda>cutoff.
          Some (keep_latest_per_period snaps (\<lambda>s. ch_date c (snap_timestamp s)) cutoff))
      | KeepHourly n \<Rightarrow>
          Option.bind (hourly_cutoff c now n) (\<lambda>cutoff.
          Some (keep_latest_per_period snaps (\<lambda>s. (ch_date c (snap_timestamp s), ch_hour c (snap_timestamp s))) cutoff))
      | KeepTags tags \<Rightarrow> Some (set (map se_id (filter (\<lambda>e. has_tags (se_snapshot e) tags) snaps))))"

fun rules_loop :: "('d, 'n) chrono \<Rightarrow> int \<Rightarrow> SnapshotEntry list \<Rightarrow> RetentionRule list \<Rightarrow> ID set \<Rightarrow> ID set option" where
  "rules_loop c now snaps [] keep = Some keep"
| "rules_loop c now snaps (r # rs) keep =
     Option.bind (rule_ids c now snaps r) (\<lambda>ids. rules_loop c now snaps rs (keep \<union> ids))"

fun fill_min :: "nat \<Rightarrow> SnapshotEntry list \<Rightarrow> ID set \<Rightarrow> ID set" where
  "fill_min target [] keep = keep"
| "fill_min target (e # es) keep = (if card keep \<ge> target then keep else fill_min target es (insert (se_id e) keep))"

definition apply_retention_rules :: "('d, 'n) chrono \<Rightarrow> SnapshotEntry list \<Rightarrow> RetentionRule list \<Rightarrow> nat option \<Rightarrow> int \<Rightarrow> ID set option" where
  "apply_retention_rules c snapshots_sorted rules keep_min now =
     Option.bind (rules_loop c now snapshots_sorted rules {}) (\<lambda>keep.
     Some (case keep_min of
         None \<Rightarrow> keep
       | Some m \<Rightarrow>
           let target = min m (length snapshots_sorted)
           in if card keep < target then fill_min target (rev snapshots_sorted) keep else keep))"

definition filter_snapshots_by_hosts :: "SnapshotEntry list \<Rightarrow> string list \<Rightarrow> SnapshotEntry list" where
  "filter_snapshots_by_hosts snaps hosts =
     (if hosts = [] then snaps
      else filter (\<lambda>e. case snap_hostname (se_snapshot e) of Some h \<Rightarrow> h \<in> set hosts | None \<Rightarrow> False) snaps)"

section \<open>What the rules keep\<close>

lemma periods_loop_old: "kept k = Some i \<Longrightarrow> periods_loop key cutoff es kept k = Some i"
proof (induction es arbitrary: kept)
  case (Cons e es)
  then show ?case by (cases "key (se_snapshot e) = k") (auto simp: Let_def split: option.splits)
qed simp

text \<open>The walk picks for each period the first entry from the cutoff on.\<close>

lemma periods_loop_spec:
  "kept k = None \<Longrightarrow>
   periods_loop key cutoff es kept k = map_option se_id (List.find (\<lambda>e. key (se_snapshot e) = k \<and> snap_timestamp (se_snapshot e) \<ge> cutoff) es)"
proof (induction es arbitrary: kept)
  case (Cons e es)
  show ?case
  proof (cases "key (se_snapshot e) = k \<and> snap_timestamp (se_snapshot e) \<ge> cutoff")
    case True
    then show ?thesis using Cons.prems periods_loop_old [of "kept(k \<mapsto> se_id e)" k] by (auto simp: Let_def)
  next
    case False
    then show ?thesis using Cons by (auto simp: Let_def split: option.splits)
  qed
qed simp

lemma find_rev_iff:
  "List.find P (rev xs) = Some x \<longleftrightarrow> (\<exists>ys zs. xs = ys @ x # zs \<and> P x \<and> (\<forall>z\<in>set zs. \<not> P z))"
proof (induction xs rule: rev_induct)
  case (snoc y xs)
  show ?case
  proof (cases "P y")
    case True
    show ?thesis
    proof
      assume "List.find P (rev (xs @ [y])) = Some x"
      then have "x = y" using True by simp
      then show "\<exists>ys zs. xs @ [y] = ys @ x # zs \<and> P x \<and> (\<forall>z\<in>set zs. \<not> P z)" using True by (intro exI [of _ xs] exI [of _ "[]"]) simp
    next
      assume "\<exists>ys zs. xs @ [y] = ys @ x # zs \<and> P x \<and> (\<forall>z\<in>set zs. \<not> P z)"
      then obtain ys zs where z: "xs @ [y] = ys @ x # zs" "\<forall>z\<in>set zs. \<not> P z" by blast
      then have "zs = []" using True by (cases zs rule: rev_cases) auto
      with z(1) True show "List.find P (rev (xs @ [y])) = Some x" by simp
    qed
  next
    case False
    have "(\<exists>ys zs. xs @ [y] = ys @ x # zs \<and> P x \<and> (\<forall>z\<in>set zs. \<not> P z)) \<longleftrightarrow> (\<exists>ys zs. xs = ys @ x # zs \<and> P x \<and> (\<forall>z\<in>set zs. \<not> P z))"
    proof
      assume "\<exists>ys zs. xs @ [y] = ys @ x # zs \<and> P x \<and> (\<forall>z\<in>set zs. \<not> P z)"
      then obtain ys zs where z: "xs @ [y] = ys @ x # zs" "P x" "\<forall>z\<in>set zs. \<not> P z" by blast
      then show "\<exists>ys zs. xs = ys @ x # zs \<and> P x \<and> (\<forall>z\<in>set zs. \<not> P z)" using False by (cases zs rule: rev_cases) auto
    next
      assume "\<exists>ys zs. xs = ys @ x # zs \<and> P x \<and> (\<forall>z\<in>set zs. \<not> P z)"
      then obtain ys zs where "xs = ys @ x # zs" "P x" "\<forall>z\<in>set zs. \<not> P z" by blast
      then show "\<exists>ys zs. xs @ [y] = ys @ x # zs \<and> P x \<and> (\<forall>z\<in>set zs. \<not> P z)"
        using False by (intro exI [of _ ys] exI [of _ "zs @ [y]"]) auto
    qed
    then show ?thesis using snoc.IH False by simp
  qed
qed simp

lemma keep_latest_exact:
  "i \<in> keep_latest_per_period snaps key cutoff \<longleftrightarrow>
     (\<exists>ys e zs. snaps = ys @ e # zs \<and> se_id e = i \<and> snap_timestamp (se_snapshot e) \<ge> cutoff \<and>
        (\<forall>z\<in>set zs. key (se_snapshot z) = key (se_snapshot e) \<longrightarrow> snap_timestamp (se_snapshot z) < cutoff))"
proof -
  let ?P = "\<lambda>k e. key (se_snapshot e) = k \<and> snap_timestamp (se_snapshot e) \<ge> cutoff"
  have "i \<in> keep_latest_per_period snaps key cutoff \<longleftrightarrow> (\<exists>k e. List.find (?P k) (rev snaps) = Some e \<and> se_id e = i)"
    unfolding keep_latest_per_period_def ran_def by (auto simp: periods_loop_spec)
  also have "\<dots> \<longleftrightarrow> (\<exists>k e ys zs. snaps = ys @ e # zs \<and> ?P k e \<and> (\<forall>z\<in>set zs. \<not> ?P k z) \<and> se_id e = i)"
    unfolding find_rev_iff by blast
  also have "\<dots> \<longleftrightarrow> (\<exists>ys e zs. snaps = ys @ e # zs \<and> se_id e = i \<and> snap_timestamp (se_snapshot e) \<ge> cutoff \<and>
      (\<forall>z\<in>set zs. key (se_snapshot z) = key (se_snapshot e) \<longrightarrow> snap_timestamp (se_snapshot z) < cutoff))"
    by (auto simp: not_le)
  finally show ?thesis .
qed

text \<open>C38: A period rule keeps exactly one snapshot of each period that has one from the cutoff on: of a list sorted by
  time, the last one of the period.\<close>

theorem period_rule_exact:
  assumes "sorted (map (\<lambda>e. snap_timestamp (se_snapshot e)) snaps)"
  shows "i \<in> keep_latest_per_period snaps key cutoff \<longleftrightarrow>
    (\<exists>ys e zs. snaps = ys @ e # zs \<and> se_id e = i \<and> cutoff \<le> snap_timestamp (se_snapshot e) \<and>
       (\<forall>z\<in>set zs. key (se_snapshot z) \<noteq> key (se_snapshot e)))"
proof -
  have "snap_timestamp (se_snapshot e) \<le> snap_timestamp (se_snapshot z)" if "snaps = ys @ e # zs" "z \<in> set zs" for ys e zs z
    using assms that by (auto simp: sorted_append)
  then have "(\<forall>z\<in>set zs. key (se_snapshot z) = key (se_snapshot e) \<longrightarrow> snap_timestamp (se_snapshot z) < cutoff) \<longleftrightarrow>
      (\<forall>z\<in>set zs. key (se_snapshot z) \<noteq> key (se_snapshot e))" if "snaps = ys @ e # zs" "cutoff \<le> snap_timestamp (se_snapshot e)" for ys e zs
    using that by fastforce
  then show ?thesis unfolding keep_latest_exact by blast
qed

lemma rules_loop_spec:
  "rules_loop c now snaps rs keep = Some k \<longleftrightarrow>
     (\<forall>r\<in>set rs. rule_ids c now snaps r \<noteq> None) \<and> k = keep \<union> (\<Union>r\<in>set rs. the (rule_ids c now snaps r))"
proof (induction rs arbitrary: keep)
  case (Cons r rs)
  then show ?case by (cases "rule_ids c now snaps r") auto
qed auto

lemma keep_latest_ids: "keep_latest_per_period snaps key cutoff \<subseteq> se_id ` set snaps"
  by (auto simp: keep_latest_exact)

lemma rule_ids_subset: "rule_ids c now snaps r = Some k \<Longrightarrow> k \<subseteq> se_id ` set snaps"
  by (cases r) (auto simp: rule_ids_def bind_eq_Some_conv dest!: in_set_takeD dest: subsetD [OF keep_latest_ids])

lemma fill_min_props:
  assumes "finite keep" "distinct (map se_id es)"
  shows "keep \<subseteq> fill_min target es keep \<and> fill_min target es keep \<subseteq> keep \<union> se_id ` set es \<and>
    (card (keep \<union> se_id ` set es) \<ge> target \<longrightarrow> card (fill_min target es keep) \<ge> target) \<and>
    card (fill_min target es keep) \<le> max target (card keep)"
  using assms
proof (induction es arbitrary: keep)
  case (Cons e es)
  show ?case
  proof (cases "card keep \<ge> target")
    case False
    have "card (insert (se_id e) keep) \<le> Suc (card keep)" using Cons.prems(1) by (simp add: card_insert_le_m1 card_insert_if)
    with Cons.IH [of "insert (se_id e) keep"] Cons.prems False show ?thesis by auto
  qed auto
qed simp

text \<open>C37: The rules are a union: a snapshot is kept if some rule keeps it. A minimum is respected: at least so many
  snapshots are kept if there are so many, and nothing is added beyond the minimum. Only listed snapshots are
  kept.\<close>

theorem retention_union:
  assumes "apply_retention_rules c snaps rules keep_min now = Some keep" "distinct (map se_id snaps)"
  shows "(\<forall>r\<in>set rules. \<exists>ids. rule_ids c now snaps r = Some ids \<and> ids \<subseteq> keep) \<and> keep \<subseteq> se_id ` set snaps \<and>
    (case keep_min of
       None \<Rightarrow> keep = (\<Union>r\<in>set rules. the (rule_ids c now snaps r))
     | Some m \<Rightarrow> card keep \<ge> min m (length snaps) \<and>
         (keep \<noteq> (\<Union>r\<in>set rules. the (rule_ids c now snaps r)) \<longrightarrow> card keep = min m (length snaps)))"
proof -
  let ?U = "\<Union>r\<in>set rules. the (rule_ids c now snaps r)"
  from assms(1) have def: "\<forall>r\<in>set rules. rule_ids c now snaps r \<noteq> None"
    and keep: "keep = (case keep_min of None \<Rightarrow> ?U | Some m \<Rightarrow>
      if card ?U < min m (length snaps) then fill_min (min m (length snaps)) (rev snaps) ?U else ?U)"
    by (auto simp: apply_retention_rules_def bind_eq_Some_conv rules_loop_spec Let_def split: option.splits)
  have sub: "?U \<subseteq> se_id ` set snaps"
  proof
    fix i assume "i \<in> ?U"
    then obtain r where r: "r \<in> set rules" "i \<in> the (rule_ids c now snaps r)" by blast
    with def obtain ids where "rule_ids c now snaps r = Some ids" by blast
    with rule_ids_subset [OF this] r(2) show "i \<in> se_id ` set snaps" by auto
  qed
  then have fin: "finite ?U" by (rule finite_subset) simp
  have all: "card (se_id ` set snaps) = length snaps"
    using assms(2) by (metis card_image distinct_card distinct_map length_map)
  have un: "?U \<union> se_id ` set (rev snaps) = se_id ` set snaps" using sub by auto
  have dist: "distinct (map se_id (rev snaps))" using assms(2) by (simp only: rev_map [symmetric] distinct_rev)
  have fill: "?U \<subseteq> fill_min t (rev snaps) ?U" "fill_min t (rev snaps) ?U \<subseteq> se_id ` set snaps"
    "length snaps \<ge> t \<Longrightarrow> card (fill_min t (rev snaps) ?U) \<ge> t" "card (fill_min t (rev snaps) ?U) \<le> max t (card ?U)" for t
    using fill_min_props [OF fin dist, of t, unfolded un all] by blast+
  have "?U \<subseteq> keep \<and> keep \<subseteq> se_id ` set snaps" using keep sub fill(1,2) by (cases keep_min) auto
  moreover have "\<exists>ids. rule_ids c now snaps r = Some ids \<and> ids \<subseteq> ?U" if "r \<in> set rules" for r using that def by force
  moreover have "case keep_min of None \<Rightarrow> keep = ?U | Some m \<Rightarrow> card keep \<ge> min m (length snaps) \<and> (keep \<noteq> ?U \<longrightarrow> card keep = min m (length snaps))"
  proof (cases keep_min)
    case (Some m)
    let ?t = "min m (length snaps)"
    show ?thesis
    proof (cases "card ?U < ?t")
      case True
      then have "keep = fill_min ?t (rev snaps) ?U" using keep Some by simp
      moreover have "card (fill_min ?t (rev snaps) ?U) = ?t"
        using fill(3) [of ?t] fill(4) [of ?t] True by (metis antisym less_imp_le max.absorb1 min.cobounded2)
      ultimately show ?thesis using Some by simp
    next
      case False
      have "keep = ?U" unfolding keep Some option.case if_not_P [OF False] ..
      with False Some show ?thesis by (simp only: option.case not_less simp_thms)
    qed
  qed (use keep in simp)
  ultimately show ?thesis by (meson order_trans)
qed

section \<open>The number of periods\<close>

definition is_digit :: "char \<Rightarrow> bool" where
  "is_digit ch \<longleftrightarrow> CHR ''0'' \<le> ch \<and> ch \<le> CHR ''9''"

definition digits_value :: "string \<Rightarrow> nat" where
  "digits_value ds = foldl (\<lambda>v ch. 10 * v + (of_char ch - of_char (CHR ''0''))) 0 ds"

text \<open>\<open>str::parse::<isize>\<close>: an optional sign, then digits, in range.\<close>

definition parse_isize :: "string \<Rightarrow> int option" where
  "parse_isize s =
     (let neg = (s \<noteq> [] \<and> hd s = CHR ''-'');
          ds = (if s \<noteq> [] \<and> (hd s = CHR ''-'' \<or> hd s = CHR ''+'') then tl s else s)
      in if ds = [] \<or> \<not> list_all is_digit ds then None
         else
           let v = int (digits_value ds); n = (if neg then - v else v)
           in if - (2 ^ 63) \<le> n \<and> n < 2 ^ 63 then Some n else None)"

definition parse_retention_number :: "string \<Rightarrow> u64 option" where
  "parse_retention_number s =
     (if s = ''all'' then Some (- 1)
      else Option.bind (parse_isize s) (\<lambda>n. if n > 0 then Some (word_of_int n) else None))"

definition DAY :: int where "DAY = 24 * 60 * 60 * NANOS"
definition HOUR :: int where "HOUR = 60 * 60 * NANOS"

text \<open>What is used of the calendar: the start of a day is at most the present and less than two days ago, the start
  of an hour less than an hour, and days and hours are subtracted as durations.\<close>

definition chrono_ok :: "('d, 'n) chrono \<Rightarrow> int \<Rightarrow> bool" where
  "chrono_ok c now \<longleftrightarrow>
     (\<exists>m. nv_midnight c (ch_date c now) = Some m \<and> resolve_local c m \<le> now \<and> now < resolve_local c m + 2 * DAY) \<and>
     (\<exists>h. ch_hour_start c now = Some h \<and> h \<le> now \<and> now < h + HOUR) \<and>
     (\<forall>t k. abs k \<le> 1000000 \<longrightarrow> ch_sub_days c t k = Some (t - k * DAY) \<and> ch_sub_hours c t k = Some (t - k * HOUR))"

lemma keep_latest_none: "(\<forall>e\<in>set snaps. snap_timestamp (se_snapshot e) < cutoff) \<Longrightarrow> keep_latest_per_period snaps key cutoff = {}"
  by (auto simp: keep_latest_exact)

text \<open>C39: The number that \<open>all\<close> stands for is the largest one, and the cast of that number minus one is minus two: the
  cutoff of a daily or hourly rule lies in the future, and the rule keeps no snapshot of the past at all.\<close>

theorem keep_all_keeps_none:
  assumes "parse_retention_number ''all'' = Some n" "chrono_ok c now" "\<forall>e\<in>set snaps. snap_timestamp (se_snapshot e) \<le> now"
  shows "rule_ids c now snaps (KeepDaily n) = Some {} \<and> rule_ids c now snaps (KeepHourly n) = Some {}"
proof -
  have n: "as_i64 (n - 1) = - 2" using assms(1) by (auto simp: parse_retention_number_def as_i64_def)
  from assms(2) obtain m h where m: "nv_midnight c (ch_date c now) = Some m" "now < resolve_local c m + 2 * DAY"
    and h: "ch_hour_start c now = Some h" "now < h + HOUR"
    and sub: "ch_sub_days c t (- 2) = Some (t + 2 * DAY)" "ch_sub_hours c t (- 2) = Some (t + 2 * HOUR)" for t
    by (auto simp: chrono_ok_def)
  have pos: "0 < HOUR" by (simp add: HOUR_def NANOS_def)
  have "daily_cutoff c now n = Some (resolve_local c m + 2 * DAY)" using m(1) sub n by (simp add: daily_cutoff_def)
  moreover have "hourly_cutoff c now n = Some (h + 2 * HOUR)" using h(1) sub n by (simp add: hourly_cutoff_def)
  moreover have "\<forall>e\<in>set snaps. snap_timestamp (se_snapshot e) < resolve_local c m + 2 * DAY" using assms(3) m(2) by auto
  moreover have "\<forall>e\<in>set snaps. snap_timestamp (se_snapshot e) < h + 2 * HOUR" using assms(3) h(2) pos by auto
  ultimately show ?thesis by (simp add: rule_ids_def keep_latest_none)
qed

section \<open>Forgetting\<close>

datatype ForgetError = InvalidRule | ForgetFailed | RetentionPanic | ForgetRepo MapacheError

record ForgetArgs =
  fa_tags :: "string option"
  fa_hosts :: "string list"
  fa_forget :: "string list"
  fa_keep_last :: "nat option"
  fa_keep_within :: "int option"
  fa_keep_yearly :: "u64 option"
  fa_keep_monthly :: "u64 option"
  fa_keep_weekly :: "u64 option"
  fa_keep_daily :: "u64 option"
  fa_keep_hourly :: "u64 option"
  fa_keep_tags :: "string option"
  fa_keep_min :: "nat option"
  fa_force :: bool
  fa_dry_run :: bool

text \<open>The white space that \<open>str::trim\<close> removes, of the ASCII characters.\<close>

definition is_space :: "char \<Rightarrow> bool" where
  "is_space ch \<longleftrightarrow> of_char ch \<in> {9 :: nat, 10, 11, 12, 13, 32}"

definition trim :: "string \<Rightarrow> string" where
  "trim s = rev (dropWhile is_space (rev (dropWhile is_space s)))"

fun split_comma :: "string \<Rightarrow> string list" where
  "split_comma [] = [[]]"
| "split_comma (c # cs) =
     (if c = CHR '','' then [] # split_comma cs
      else case split_comma cs of [] \<Rightarrow> [[c]] | p # ps \<Rightarrow> (c # p) # ps)"

definition parse_tags :: "string option \<Rightarrow> string set" where
  "parse_tags s = set (filter (\<lambda>t. t \<noteq> []) (map trim (split_comma (unwrap_or_default s))))"

definition retention_rules_of :: "ForgetArgs \<Rightarrow> RetentionRule list" where
  "retention_rules_of a =
     ((case fa_keep_last a of Some n \<Rightarrow> [KeepLast n] | None \<Rightarrow> []) @
      (case fa_keep_within a of Some d \<Rightarrow> [KeepWithin d] | None \<Rightarrow> []) @
         concat [case x of Some v \<Rightarrow> [f v] | None \<Rightarrow> []. (f, x) \<leftarrow>
           [(KeepYearly, fa_keep_yearly a), (KeepMonthly, fa_keep_monthly a), (KeepWeekly, fa_keep_weekly a),
            (KeepDaily, fa_keep_daily a), (KeepHourly, fa_keep_hourly a)]] @
      (case fa_keep_tags a of Some t \<Rightarrow> [KeepTags (parse_tags (Some t))] | None \<Rightarrow> []))"

text \<open>The snapshots the command considers, sorted by time.\<close>

definition forget_candidates :: "ForgetArgs \<Rightarrow> SnapshotEntry list \<Rightarrow> SnapshotEntry list" where
  "forget_candidates a entries =
     (let es = (case fa_tags a of
            Some t \<Rightarrow> filter (\<lambda>e. has_tags (se_snapshot e) (parse_tags (Some t))) entries
          | None \<Rightarrow> entries);
          es = (if fa_hosts a \<noteq> []
            then (let ids = set (map se_id (filter_snapshots_by_hosts es (fa_hosts a))) in filter (\<lambda>e. se_id e \<in> ids) es)
            else es)
      in sort_key (\<lambda>e. snap_timestamp (se_snapshot e)) es)"

fun find_all :: "(string \<Rightarrow> ID result) \<Rightarrow> string list \<Rightarrow> ID set \<Rightarrow> ForgetError + ID set" where
  "find_all finder [] ids = Inr ids"
| "find_all finder (p # ps) ids = (case finder p of Inl e \<Rightarrow> Inl ForgetFailed | Inr i \<Rightarrow> find_all finder ps (insert i ids))"

definition forget_keep :: "('d, 'n) chrono \<Rightarrow> (string \<Rightarrow> ID result) \<Rightarrow> int \<Rightarrow> ForgetArgs \<Rightarrow> SnapshotEntry list \<Rightarrow> ForgetError + ID set" where
  "forget_keep c finder now a snaps =
     (if fa_forget a \<noteq> [] then
        (case find_all finder (fa_forget a) {} of
           Inl e \<Rightarrow> Inl e
         | Inr forget_ids \<Rightarrow> Inr (set (map se_id (filter (\<lambda>e. se_id e \<notin> forget_ids) snaps))))
      else if retention_rules_of a = [] then Inl InvalidRule
      else case apply_retention_rules c snaps (retention_rules_of a) (fa_keep_min a) now of
          None \<Rightarrow> Inl RetentionPanic
        | Some keep \<Rightarrow> Inr keep)"

fun forget_remove :: "'b StorageBackend \<Rightarrow> bool \<Rightarrow> ID list \<Rightarrow> 'b \<Rightarrow> (ForgetError + unit) \<times> 'b" where
  "forget_remove B force [] st = (Inr (), st)"
| "forget_remove B force (i # is) st =
     (if force then
        (case delete_file B SnapshotFile i None st of
           (Inl e, st') \<Rightarrow> (Inl ForgetFailed, st')
         | (Inr _, st') \<Rightarrow> forget_remove B force is st')
      else
        (case set_extension B SnapshotFile i (Some REPO_DROPPED_EXTENSION) st of
           (Inl e, st') \<Rightarrow> (Inl ForgetFailed, st')
         | (Inr _, st') \<Rightarrow> forget_remove B force is st'))"

definition forget_phase :: "('d, 'n) chrono \<Rightarrow> 'b StorageBackend \<Rightarrow> (string \<Rightarrow> ID result) \<Rightarrow> int \<Rightarrow> ForgetArgs \<Rightarrow>
    SnapshotEntry list result \<Rightarrow> 'b \<Rightarrow> (ForgetError + SnapshotEntry list \<times> SnapshotEntry list) \<times> 'b" where
  "forget_phase c B finder now a loaded_entries st =
     (case loaded_entries of
        Inl e \<Rightarrow> (Inl (ForgetRepo e), st)
      | Inr entries \<Rightarrow>
          let snaps = forget_candidates a entries
          in case forget_keep c finder now a snaps of
               Inl e \<Rightarrow> (Inl e, st)
             | Inr keep \<Rightarrow>
                 let kept = filter (\<lambda>e. se_id e \<in> keep) snaps;
                     removed = filter (\<lambda>e. se_id e \<notin> keep) snaps
                 in if \<not> fa_dry_run a \<and> removed \<noteq> []
                    then (case forget_remove B (fa_force a) (map se_id removed) st of
                        (Inl e, st') \<Rightarrow> (Inl e, st')
                      | (Inr _, st') \<Rightarrow> (Inr (kept, removed), st'))
                    else (Inr (kept, removed), st))"

lemma forget_candidates_subset: "e \<in> set (forget_candidates a entries) \<Longrightarrow> e \<in> set entries"
  by (auto simp: forget_candidates_def Let_def split: option.splits if_splits)

lemma forget_candidates_distinct: "distinct (map se_id entries) \<Longrightarrow> distinct (map se_id (forget_candidates a entries))"
proof -
  have sorted: "distinct (map se_id (sort_key f es))" if "distinct (map se_id es)" for f :: "SnapshotEntry \<Rightarrow> int" and es
    using that by (simp add: distinct_map)
  assume "distinct (map se_id entries)"
  then show ?thesis
    unfolding forget_candidates_def Let_def by (intro sorted) (simp add: distinct_map_filter split: option.split)
qed

context stat_backend
begin

text \<open>Removing snapshots, by deletion or by renaming, leaves every other file of the repository as it was.\<close>

lemma forget_remove_other:
  assumes "inv st" "\<forall>i\<in>set is. id_ok i \<and> files st (get_path SnapshotFile i) \<noteq> None" "distinct is"
    "id_ok j" "t \<noteq> SnapshotFile \<or> j \<notin> set is" "forget_remove B force is st = (r, st')"
  shows "inv st' \<and> files st' (with_extension (get_path t j) e) = files st (with_extension (get_path t j) e)"
  using assms
proof (induction "is" arbitrary: st)
  case (Cons i "is")
  obtain r1 st1 where step: "(if force then map_prod (map_sum id (\<lambda>_. ())) id (delete_file B SnapshotFile i None st)
      else set_extension B SnapshotFile i (Some REPO_DROPPED_EXTENSION) st) = (r1, st1)" by fastforce
  have other: "inv st1 \<and> files st1 (with_extension (get_path t' j') e') = files st (with_extension (get_path t' j') e')"
    if "id_ok j'" "(t', j') \<noteq> (SnapshotFile, i)" for t' j' e'
  proof (cases force)
    case True
    then obtain r2 where "delete_file B SnapshotFile i None st = (r2, st1)"
      using step by (cases "delete_file B SnapshotFile i None st") auto
    then show ?thesis using delete_file_other Cons.prems(1,2) that by simp
  next
    case False
    then have "set_extension B SnapshotFile i (Some REPO_DROPPED_EXTENSION) st = (r1, st1)" using step by simp
    then show ?thesis using set_extension_other Cons.prems(1,2) that by (simp add: REPO_DROPPED_EXTENSION_def)
  qed
  have rest: "forget_remove B force (i # is) st = (case r1 of Inl e \<Rightarrow> (Inl ForgetFailed, st1) | Inr _ \<Rightarrow> forget_remove B force is st1)"
    using step by (cases force) (auto split: prod.splits sum.splits)
  show ?case
  proof (cases r1)
    case (Inl x)
    then show ?thesis using rest Cons.prems(4,5,6) other by auto
  next
    case (Inr u)
    have "\<forall>k\<in>set is. id_ok k \<and> files st1 (get_path SnapshotFile k) \<noteq> None"
    proof
      fix k assume k: "k \<in> set is"
      with Cons.prems(2,3) have "id_ok k" "k \<noteq> i" "files st (get_path SnapshotFile k) \<noteq> None" by auto
      with other [of k SnapshotFile "[]"] show "id_ok k \<and> files st1 (get_path SnapshotFile k) \<noteq> None" by simp
    qed
    with Cons.IH [of st1] rest Inr Cons.prems other show ?thesis by auto
  qed
qed simp

lemma forget_phase_other:
  assumes "inv st" "\<forall>e\<in>set entries. id_ok (se_id e) \<and> files st (get_path SnapshotFile (se_id e)) \<noteq> None"
    "distinct (map se_id entries)" "id_ok j" "t \<noteq> SnapshotFile \<or> j \<notin> se_id ` set entries"
    "forget_phase c B finder now a (Inr entries) st = (r, st')"
  shows "inv st' \<and> files st' (with_extension (get_path t j) e) = files st (with_extension (get_path t j) e)"
proof -
  have removed: "files st' (with_extension (get_path t j) e) = files st (with_extension (get_path t j) e) \<and> inv st'"
    if "forget_remove B force (map se_id (filter P (forget_candidates a entries))) st = (r', st')" for force P r'
  proof -
    let ?is = "map se_id (filter P (forget_candidates a entries))"
    have "set ?is \<subseteq> se_id ` set entries" by (auto dest: forget_candidates_subset)
    moreover have "distinct ?is" using forget_candidates_distinct [OF assms(3)] by (simp add: distinct_map_filter)
    ultimately have "inv st' \<and> files st' (with_extension (get_path t j) e) = files st (with_extension (get_path t j) e)"
      using assms(2,4,5) by (intro forget_remove_other [OF assms(1) _ _ _ _ that]) auto
    then show ?thesis by blast
  qed
  show ?thesis
    using assms(1,6) removed
    by (auto simp: forget_phase_def Let_def split: sum.splits prod.splits if_splits)
qed

end


section \<open>Concrete instances\<close>

definition demo_entry :: "nat \<Rightarrow> int \<Rightarrow> SnapshotEntry" where
  "demo_entry n t = \<lparr>se_id = ID [word_of_nat n], se_snapshot = demo_snapshot t, se_active = True\<rparr>"

text \<open>A calendar with days of ten and hours of one (in units of the time stamps) that starts at zero.\<close>

definition demo_chrono :: "(int, int) chrono" where
  "demo_chrono = \<lparr>ch_year = (\<lambda>t. 2000), ch_month = (\<lambda>t. 1), ch_iso_week = (\<lambda>t. 1), ch_hour = (\<lambda>t. nat (t mod DAY div HOUR)),
     ch_date = (\<lambda>t. t div DAY), ch_hour_start = (\<lambda>t. Some (t div HOUR * HOUR)),
     ch_sub_days = (\<lambda>t k. Some (t - k * DAY)), ch_sub_hours = (\<lambda>t k. Some (t - k * HOUR)), ch_sub = (\<lambda>t d. Some (t - d)),
     nv_from_ymd = (\<lambda>y m d. Some 0), nv_year = (\<lambda>d. 2000), nv_month = (\<lambda>d. 1), nv_with_year = (\<lambda>d y. Some d),
     nv_with_month = (\<lambda>d m. Some d), nv_with_day = (\<lambda>d k. Some d), nv_from_monday = (\<lambda>d. 0),
     nv_sub_days = (\<lambda>d k. Some (d - k)), nv_sub_weeks = (\<lambda>d k. Some (d - 7 * k)), nv_midnight = (\<lambda>d. Some (d * DAY)),
     dt_earliest = (\<lambda>n. Some n), dt_plus_hour = (\<lambda>n. n + HOUR), dt_utc = (\<lambda>n. n)\<rparr>"

lemma demo_chrono_ok: "0 \<le> now \<Longrightarrow> chrono_ok demo_chrono now"
proof -
  have "now div DAY * DAY \<le> now" "now < now div DAY * DAY + DAY" "now div HOUR * HOUR \<le> now" "now < now div HOUR * HOUR + HOUR" "0 < DAY"
    using div_mult_mod_eq [of now DAY] div_mult_mod_eq [of now HOUR] pos_mod_bound [of DAY now] pos_mod_bound [of HOUR now]
      pos_mod_sign [of DAY now] pos_mod_sign [of HOUR now]
    by (simp_all add: DAY_def HOUR_def NANOS_def)
  then show ?thesis by (auto simp: chrono_ok_def demo_chrono_def resolve_local_def)
qed

theorem keep_all_keeps_none_witness:
  "rule_ids demo_chrono 50 [demo_entry 1 20, demo_entry 2 40] (KeepDaily (- 1)) = Some {}"
proof -
  have "parse_retention_number ''all'' = Some (- 1)" by (simp add: parse_retention_number_def)
  from keep_all_keeps_none [OF this demo_chrono_ok, of 50 "[demo_entry 1 20, demo_entry 2 40]"] show ?thesis
    by (simp add: demo_entry_def demo_snapshot_def)
qed

theorem period_rule_exact_witness:
  "ID [2] \<in> keep_latest_per_period [demo_entry 1 20, demo_entry 2 40, demo_entry 3 70] (\<lambda>s. snap_timestamp s div 60) 10"
proof -
  let ?l = "[demo_entry 1 20, demo_entry 2 40, demo_entry 3 70]"
  have "sorted (map (\<lambda>e. snap_timestamp (se_snapshot e)) ?l)" by (simp add: demo_entry_def demo_snapshot_def)
  note exact = period_rule_exact [OF this, of "ID [2]" "\<lambda>s. snap_timestamp s div 60" 10]
  show ?thesis
    unfolding exact
    by (rule exI [of _ "[demo_entry 1 20]"], rule exI [of _ "demo_entry 2 40"], rule exI [of _ "[demo_entry 3 70]"])
      (simp add: demo_entry_def demo_snapshot_def)
qed

theorem retention_union_witness:
  "\<exists>keep. apply_retention_rules demo_chrono [demo_entry 1 20, demo_entry 2 40, demo_entry 3 70] [KeepLast 1] (Some 2) 80 = Some keep \<and>
     ID [3] \<in> keep \<and> card keep = 2"
proof -
  let ?l = "[demo_entry 1 20, demo_entry 2 40, demo_entry 3 70]"
  have run: "apply_retention_rules demo_chrono ?l [KeepLast 1] (Some 2) 80 = Some {ID [2], ID [3]}"
    by (auto simp: apply_retention_rules_def rule_ids_def demo_entry_def)
  have "distinct (map se_id ?l)" by (simp add: demo_entry_def)
  from retention_union [OF run this] show ?thesis unfolding run by (auto simp: demo_entry_def)
qed

text \<open>A repository with one pack and one snapshot.\<close>

definition demo_store :: MockBackend where
  "demo_store = put_file (put_file (mock_new 0) (get_path PackFile (demo_id 1)) [7]) (get_path SnapshotFile (demo_id 2)) [8]"

lemma demo_store_props:
  "mb_inv demo_store" "mb_files demo_store (get_path PackFile (demo_id 1)) = Some [7]"
  "mb_files demo_store (get_path SnapshotFile (demo_id 2)) = Some [8]"
proof -
  have "get_path PackFile (demo_id 1) \<noteq> get_path SnapshotFile (demo_id 2)"
    using path_inject [of "demo_id 1" "demo_id 2" PackFile "[]" SnapshotFile "[]"] by auto
  then show "mb_inv demo_store" "mb_files demo_store (get_path PackFile (demo_id 1)) = Some [7]"
    "mb_files demo_store (get_path SnapshotFile (demo_id 2)) = Some [8]"
    by (auto simp: demo_store_def mb_inv_def mock_new_def put_file_def mb_files_def mock_file_def)
qed

definition demo_forget :: ForgetArgs where
  "demo_forget = \<lparr>fa_tags = None, fa_hosts = [], fa_forget = [''02''], fa_keep_last = None, fa_keep_within = None,
     fa_keep_yearly = None, fa_keep_monthly = None, fa_keep_weekly = None, fa_keep_daily = None, fa_keep_hourly = None,
     fa_keep_tags = None, fa_keep_min = None, fa_force = True, fa_dry_run = False\<rparr>"


end
