(* ===== verification/Loader.thy ===== *)
theory Loader
  imports Repository
begin

text \<open>
  Loading many blobs at once (\<open>repository/loader.rs\<close>): the requests are grouped by pack, the blobs of a pack are merged into
  segments that one ranged read fetches, and every blob is cut out of its segment and decoded. The main result is
  that the batch gives exactly what loading each blob on its own gives. Offsets are 32 bits wide and their sums are
  computed in 64 bits in the code, so natural numbers model them without loss. The order of the groups, which a hash
  map leaves open, is the order of first occurrence.
\<close>

record 'a PackSegment =
  sg_pack_id :: ID
  sg_min_offset :: nat
  sg_max_offset :: nat
  sg_blobs :: "(ID \<times> BlobLocator \<times> 'a) list"

definition source_len :: "'a PackSegment \<Rightarrow> nat" where
  "source_len sg = sg_max_offset sg - sg_min_offset sg"

text \<open>The two runtime settings that the segmentation reads.\<close>

record LoaderLimits =
  ll_merge_threshold :: nat
  ll_segment_max_size :: nat

definition DEFAULT_RESTORE_PACK_READ_MERGE_THRESHOLD :: nat where
  "DEFAULT_RESTORE_PACK_READ_MERGE_THRESHOLD = 2 * (1024 * 1024)"

definition DEFAULT_RESTORE_PACK_SEGMENT_MAX_SIZE :: nat where
  "DEFAULT_RESTORE_PACK_SEGMENT_MAX_SIZE = 32 * (1024 * 1024)"

definition default_limits :: LoaderLimits where
  "default_limits = \<lparr>ll_merge_threshold = DEFAULT_RESTORE_PACK_READ_MERGE_THRESHOLD,
     ll_segment_max_size = DEFAULT_RESTORE_PACK_SEGMENT_MAX_SIZE\<rparr>"

abbreviation blob_start :: "ID \<times> BlobLocator \<times> 'a \<Rightarrow> nat" where
  "blob_start b \<equiv> unat (lo_offset (fst (snd b)))"

abbreviation blob_end :: "ID \<times> BlobLocator \<times> 'a \<Rightarrow> nat" where
  "blob_end b \<equiv> unat (lo_offset (fst (snd b))) + unat (lo_length (fst (snd b)))"

fun segment_loop :: "LoaderLimits \<Rightarrow> ID \<Rightarrow> (ID \<times> BlobLocator \<times> 'a) list \<Rightarrow> (ID \<times> BlobLocator \<times> 'a) list \<Rightarrow> nat \<Rightarrow> nat \<Rightarrow>
    'a PackSegment list \<Rightarrow> 'a PackSegment list" where
  "segment_loop lim pid [] current_blobs segment_min segment_max segments =
     (if current_blobs \<noteq> []
      then segments @ [\<lparr>sg_pack_id = pid, sg_min_offset = segment_min, sg_max_offset = segment_max, sg_blobs = current_blobs\<rparr>]
      else segments)"
| "segment_loop lim pid (b # bs) current_blobs segment_min segment_max segments =
     (if current_blobs = [] then segment_loop lim pid bs [b] (blob_start b) (blob_end b) segments
      else
        let next_segment_max = max segment_max (blob_end b);
            next_segment_size = next_segment_max - segment_min
        in if blob_start b \<le> segment_max + ll_merge_threshold lim \<and> next_segment_size \<le> ll_segment_max_size lim
           then segment_loop lim pid bs (current_blobs @ [b]) segment_min next_segment_max segments
           else segment_loop lim pid bs [b] (blob_start b) (blob_end b)
             (segments @ [\<lparr>sg_pack_id = pid, sg_min_offset = segment_min, sg_max_offset = segment_max, sg_blobs = current_blobs\<rparr>]))"

definition segment_blobs :: "LoaderLimits \<Rightarrow> ID \<Rightarrow> (ID \<times> BlobLocator \<times> 'a) list \<Rightarrow> 'a PackSegment list" where
  "segment_blobs lim pid blob_locators = segment_loop lim pid (sort_key blob_start blob_locators) [] 0 0 []"

text \<open>All segments are read, whatever happens to the others; then the first failure, if any, is returned.\<close>

definition read_segment :: "'b StorageBackend \<Rightarrow> 'a PackSegment \<Rightarrow> 'b \<Rightarrow> ('a PackSegment \<times> bytes) result \<times> 'b" where
  "read_segment B sg st =
     (let is_tree = (\<forall>b\<in>set (sg_blobs sg). lo_type (fst (snd b)) = Tree)
      in case be_read B st (handle_new_with_hint (get_path PackFile (sg_pack_id sg)) PackFile is_tree)
             (int (sg_min_offset sg)) (source_len sg) of
           (Inl e, st') \<Rightarrow> (Err Backend, st')
         | (Inr data, st') \<Rightarrow> (Ok (sg, data), st'))"

fun read_segments :: "'b StorageBackend \<Rightarrow> 'a PackSegment list \<Rightarrow> 'b \<Rightarrow> ('a PackSegment \<times> bytes) result list \<times> 'b" where
  "read_segments B [] st = ([], st)"
| "read_segments B (sg # sgs) st =
     (case read_segment B sg st of (r, st') \<Rightarrow> case read_segments B sgs st' of (rs, st'') \<Rightarrow> (r # rs, st''))"

fun all_results :: "'a result list \<Rightarrow> 'a list result" where
  "all_results [] = Ok []"
| "all_results (r # rs) = bind_result r (\<lambda>x. bind_result (all_results rs) (\<lambda>xs. Ok (x # xs)))"

definition download_pack_segments :: "'b StorageBackend \<Rightarrow> 'a PackSegment list \<Rightarrow> 'b \<Rightarrow> ('a PackSegment \<times> bytes) list result \<times> 'b" where
  "download_pack_segments B segments st = (case read_segments B segments st of (rs, st') \<Rightarrow> (all_results rs, st'))"

fun group_entry :: "ID \<Rightarrow> 'a \<Rightarrow> (ID \<times> 'a list) list \<Rightarrow> (ID \<times> 'a list) list" where
  "group_entry k x [] = [(k, [x])]"
| "group_entry k x ((k', xs) # gs) = (if k' = k then (k', xs @ [x]) # gs else (k', xs) # group_entry k x gs)"

definition pack_groups :: "(ID \<times> BlobLocator) list \<Rightarrow> (ID \<times> (ID \<times> BlobLocator \<times> unit) list) list" where
  "pack_groups locators = foldl (\<lambda>gs (i, loc). group_entry (lo_pack_id loc) (i, loc, ()) gs) [] locators"

text \<open>Cutting the blobs out of one segment.\<close>

fun extract_blobs :: "crypto \<Rightarrow> SecureStorage \<Rightarrow> 'a PackSegment \<Rightarrow> bytes \<Rightarrow> (ID \<times> BlobLocator \<times> 'a) list \<Rightarrow> (ID \<rightharpoonup> bytes) \<Rightarrow>
    (ID \<rightharpoonup> bytes) result" where
  "extract_blobs cr ss sg data [] res = Ok res"
| "extract_blobs cr ss sg data ((i, loc, _) # bs) res =
     (if unat (lo_offset loc) < sg_min_offset sg then Err Integrity
      else
        let start = unat (lo_offset loc) - sg_min_offset sg; end' = start + unat (lo_length loc)
        in if end' > length data then Err Integrity
           else bind_result (ss_decode cr ss (slice start end' data))
             (\<lambda>decoded. extract_blobs cr ss sg data bs (res(i \<mapsto> decoded))))"

fun extract_all :: "crypto \<Rightarrow> SecureStorage \<Rightarrow> ('a PackSegment \<times> bytes) list \<Rightarrow> (ID \<rightharpoonup> bytes) \<Rightarrow> (ID \<rightharpoonup> bytes) result" where
  "extract_all cr ss [] res = Ok res"
| "extract_all cr ss ((sg, data) # rest) res =
     bind_result (extract_blobs cr ss sg data (sg_blobs sg) res) (extract_all cr ss rest)"

definition load_with_locators :: "'b StorageBackend \<Rightarrow> crypto \<Rightarrow> SecureStorage \<Rightarrow> LoaderLimits \<Rightarrow> (ID \<times> BlobLocator) list \<Rightarrow> 'b \<Rightarrow>
    (ID \<rightharpoonup> bytes) result \<times> 'b" where
  "load_with_locators B cr ss lim locators st =
     (if locators = [] then (Ok Map.empty, st)
      else
        let all_segments = concat (map (\<lambda>(pid, blobs). segment_blobs lim pid blobs) (pack_groups locators))
        in case download_pack_segments B all_segments st of
             (Inl e, st') \<Rightarrow> (Err e, st')
           | (Inr loaded_segments, st') \<Rightarrow> (extract_all cr ss loaded_segments Map.empty, st'))"

fun locate_all :: "MasterIndex \<Rightarrow> ID list \<Rightarrow> (ID \<times> BlobLocator) list result" where
  "locate_all mi [] = Ok []"
| "locate_all mi (i # is) =
     (case mi_get mi i of
        None \<Rightarrow> Err (NotInIndex i)
      | Some loc \<Rightarrow> bind_result (locate_all mi is) (\<lambda>ls. Ok ((i, loc) # ls)))"

definition load_with_id :: "'b StorageBackend \<Rightarrow> crypto \<Rightarrow> LoaderLimits \<Rightarrow> ID list \<Rightarrow> 'b Repository \<Rightarrow> (ID \<rightharpoonup> bytes) result \<times> 'b Repository" where
  "load_with_id B cr lim blob_ids rp =
     (case locate_all (rp_index rp) blob_ids of
        Inl e \<Rightarrow> (Err e, rp)
      | Inr locators \<Rightarrow>
          (case load_with_locators B cr (rp_storage rp) lim locators (rp_backend rp) of
             (r, st') \<Rightarrow> (r, rp\<lparr>rp_backend := st'\<rparr>)))"

section \<open>Segments\<close>

text \<open>A segment spans its blobs, which are sorted by offset.\<close>

definition segment_ok :: "LoaderLimits \<Rightarrow> 'a PackSegment \<Rightarrow> bool" where
  "segment_ok lim sg \<longleftrightarrow> sg_blobs sg \<noteq> [] \<and>
     (\<forall>b\<in>set (sg_blobs sg). sg_min_offset sg \<le> blob_start b \<and> blob_end b \<le> sg_max_offset sg) \<and>
     sg_min_offset sg = blob_start (hd (sg_blobs sg)) \<and>
     (\<exists>b\<in>set (sg_blobs sg). blob_end b = sg_max_offset sg) \<and>
     (source_len sg \<le> ll_segment_max_size lim \<or> length (sg_blobs sg) = 1)"

lemma segment_ok_extend:
  assumes "segment_ok lim sg" "blob_start (hd (sg_blobs sg)) \<le> blob_start b" "max (sg_max_offset sg) (blob_end b) - sg_min_offset sg \<le> ll_segment_max_size lim"
  shows "segment_ok lim (sg\<lparr>sg_max_offset := max (sg_max_offset sg) (blob_end b), sg_blobs := sg_blobs sg @ [b]\<rparr>)"
proof -
  have "\<exists>c\<in>set (sg_blobs sg @ [b]). blob_end c = max (sg_max_offset sg) (blob_end b)"
    using assms(1) by (cases "blob_end b \<le> sg_max_offset sg") (auto simp: segment_ok_def max_def)
  moreover have "\<forall>c\<in>set (sg_blobs sg @ [b]). sg_min_offset sg \<le> blob_start c \<and> blob_end c \<le> max (sg_max_offset sg) (blob_end b)"
    using assms(1,2) by (auto simp: segment_ok_def le_max_iff_disj)
  ultimately show ?thesis using assms(1,3) by (simp add: segment_ok_def source_len_def)
qed

lemma segment_loop_ok:
  assumes "\<forall>sg\<in>set segs. segment_ok lim sg \<and> sg_pack_id sg = pid"
    "cur \<noteq> [] \<Longrightarrow> segment_ok lim \<lparr>sg_pack_id = pid, sg_min_offset = mn, sg_max_offset = mx, sg_blobs = cur\<rparr>"
    "sorted (map blob_start (cur @ bs))"
  shows "(\<forall>sg\<in>set (segment_loop lim pid bs cur mn mx segs). segment_ok lim sg \<and> sg_pack_id sg = pid) \<and>
    concat (map sg_blobs (segment_loop lim pid bs cur mn mx segs)) = concat (map sg_blobs segs) @ cur @ bs"
  using assms
proof (induction lim pid bs cur mn mx segs rule: segment_loop.induct)
  case (2 lim pid b bs cur mn mx segs)
  have single: "segment_ok lim \<lparr>sg_pack_id = pid, sg_min_offset = blob_start b, sg_max_offset = blob_end b, sg_blobs = [b]\<rparr>"
    by (simp add: segment_ok_def source_len_def)
  show ?case
  proof (cases "cur = []")
    case True
    show ?thesis using 2(1) [OF True 2(4) single] 2(6) unfolding segment_loop.simps if_P [OF True] by (simp add: True)
  next
    case False
    let ?mx = "max mx (blob_end b)"
    note ok = 2(5) [OF False]
    show ?thesis
    proof (cases "blob_start b \<le> mx + ll_merge_threshold lim \<and> ?mx - mn \<le> ll_segment_max_size lim")
      case True
      have ext: "segment_ok lim \<lparr>sg_pack_id = pid, sg_min_offset = mn, sg_max_offset = ?mx, sg_blobs = cur @ [b]\<rparr>"
        using segment_ok_extend [OF ok, of b] 2(6) False True by (cases cur) (simp_all add: source_len_def)
      have "sorted (map blob_start ((cur @ [b]) @ bs))" using 2(6) by simp
      from 2(2) [OF False refl refl True 2(4) ext this, unfolded append_assoc append.simps] show ?thesis
        unfolding segment_loop.simps Let_def if_not_P [OF False] if_P [OF True] .
    next
      case False2: False
      let ?segs = "segs @ [\<lparr>sg_pack_id = pid, sg_min_offset = mn, sg_max_offset = mx, sg_blobs = cur\<rparr>]"
      have srt: "sorted (map blob_start ([b] @ bs))" using 2(6) by (simp add: sorted_append)
      have "\<forall>sg\<in>set ?segs. segment_ok lim sg \<and> sg_pack_id sg = pid" using 2(4) ok by auto
      from 2(3) [OF False refl refl False2 this(1) single srt] show ?thesis
        unfolding segment_loop.simps Let_def if_not_P [OF False] if_not_P [OF False2] by simp
    qed
  qed
next
  case (1 lim pid cur mn mx segs)
  then show ?case by (cases "cur = []") simp_all
qed

lemma segment_blobs_ok:
  "(\<forall>sg\<in>set (segment_blobs lim pid bs). segment_ok lim sg \<and> sg_pack_id sg = pid) \<and>
   concat (map sg_blobs (segment_blobs lim pid bs)) = sort_key blob_start bs"
  unfolding segment_blobs_def using segment_loop_ok [of "[]" lim pid "[]" 0 0 "sort_key blob_start bs"] by simp

text \<open>Segmenting the blobs of a pack loses none and invents none: the segments hold the blobs in the order of their
  offsets, each segment spans exactly its blobs, and it exceeds the size limit only if it holds a single blob.\<close>

theorem segments_cover:
  "concat (map sg_blobs (segment_blobs lim pid bs)) = sort_key blob_start bs \<and>
   list_all (\<lambda>sg. sg_pack_id sg = pid \<and> sg_blobs sg \<noteq> [] \<and>
      sg_min_offset sg = Min (blob_start ` set (sg_blobs sg)) \<and> sg_max_offset sg = Max (blob_end ` set (sg_blobs sg)) \<and>
      (source_len sg \<le> ll_segment_max_size lim \<or> length (sg_blobs sg) = 1)) (segment_blobs lim pid bs)"
proof -
  have "sg_min_offset sg = Min (blob_start ` set (sg_blobs sg)) \<and> sg_max_offset sg = Max (blob_end ` set (sg_blobs sg))"
    if "segment_ok lim sg" for sg :: "'a PackSegment"
  proof -
    have ne: "sg_blobs sg \<noteq> []" and b: "\<forall>b\<in>set (sg_blobs sg). sg_min_offset sg \<le> blob_start b \<and> blob_end b \<le> sg_max_offset sg"
      and mn: "sg_min_offset sg = blob_start (hd (sg_blobs sg))" and mx: "\<exists>b\<in>set (sg_blobs sg). blob_end b = sg_max_offset sg"
      using that unfolding segment_ok_def by blast+
    have "Min (blob_start ` set (sg_blobs sg)) = sg_min_offset sg" using b mn ne by (intro Min_eqI) auto
    moreover have "Max (blob_end ` set (sg_blobs sg)) = sg_max_offset sg" using b mx by (intro Max_eqI) (auto intro: rev_image_eqI)
    ultimately show ?thesis by simp
  qed
  with segment_blobs_ok [of lim pid bs] show ?thesis unfolding segment_ok_def list_all_iff by blast
qed

definition group_pairs :: "(ID \<times> 'a list) list \<Rightarrow> (ID \<times> 'a) set" where
  "group_pairs gs = {(k, y). \<exists>xs. (k, xs) \<in> set gs \<and> y \<in> set xs}"

lemma group_entry_pairs: "group_pairs (group_entry k x gs) = insert (k, x) (group_pairs gs)"
  by (induction k x gs rule: group_entry.induct) (auto simp: group_pairs_def)

lemma pack_groups_pairs: "group_pairs (pack_groups locs) = (\<lambda>(i, l). (lo_pack_id l, i, l, ())) ` set locs"
proof (induction locs rule: rev_induct)
  case (snoc x locs)
  then show ?case by (cases x) (simp add: pack_groups_def group_entry_pairs)
qed (simp add: pack_groups_def group_pairs_def)

definition request_segments :: "LoaderLimits \<Rightarrow> (ID \<times> BlobLocator) list \<Rightarrow> unit PackSegment list" where
  "request_segments lim locs = concat (map (\<lambda>(pid, blobs). segment_blobs lim pid blobs) (pack_groups locs))"

text \<open>Every request is in a segment of its pack, and the segments hold nothing else.\<close>

lemma request_segments_props:
  "\<forall>sg\<in>set (request_segments lim locs). segment_ok lim sg"
  "(\<lambda>(i, l, _). (i, l)) ` (\<Union>sg\<in>set (request_segments lim locs). set (sg_blobs sg)) = set locs"
  "sg \<in> set (request_segments lim locs) \<Longrightarrow> b \<in> set (sg_blobs sg) \<Longrightarrow> lo_pack_id (fst (snd b)) = sg_pack_id sg"
proof -
  have blobs: "(\<Union>sg\<in>set (segment_blobs lim pid bs). set (sg_blobs sg)) = set bs" for pid and bs :: "(ID \<times> BlobLocator \<times> unit) list"
    using arg_cong [OF conjunct2 [OF segment_blobs_ok [of lim pid bs]], of set] by simp
  show "\<forall>sg\<in>set (request_segments lim locs). segment_ok lim sg"
  proof
    fix sg assume "sg \<in> set (request_segments lim locs)"
    then obtain pid bs where "sg \<in> set (segment_blobs lim pid bs)" by (auto simp: request_segments_def)
    then show "segment_ok lim sg" using segment_blobs_ok [of lim pid bs] by blast
  qed
  have "(\<Union>sg\<in>set (request_segments lim locs). set (sg_blobs sg)) = snd ` group_pairs (pack_groups locs)"
  proof -
    have "(\<Union>sg\<in>set (request_segments lim locs). set (sg_blobs sg)) = (\<Union>(pid, bs)\<in>set (pack_groups locs). \<Union>sg\<in>set (segment_blobs lim pid bs). set (sg_blobs sg))"
      by (auto simp: request_segments_def)
    also have "\<dots> = (\<Union>(pid, bs)\<in>set (pack_groups locs). set bs)" unfolding blobs ..
    also have "\<dots> = snd ` group_pairs (pack_groups locs)" by (force simp: group_pairs_def)
    finally show ?thesis .
  qed
  then show "(\<lambda>(i, l, _). (i, l)) ` (\<Union>sg\<in>set (request_segments lim locs). set (sg_blobs sg)) = set locs"
    unfolding pack_groups_pairs by (simp add: image_image case_prod_beta)
  assume "sg \<in> set (request_segments lim locs)" "b \<in> set (sg_blobs sg)"
  then obtain pid bs where g: "(pid, bs) \<in> set (pack_groups locs)" "sg \<in> set (segment_blobs lim pid bs)" by (auto simp: request_segments_def)
  then have p: "sg_pack_id sg = pid" and "b \<in> set bs"
    using segment_blobs_ok [of lim pid bs] blobs [of pid bs] \<open>b \<in> set (sg_blobs sg)\<close> by blast+
  with g have "(pid, b) \<in> group_pairs (pack_groups locs)" by (auto simp: group_pairs_def)
  then show "lo_pack_id (fst (snd b)) = sg_pack_id sg" unfolding pack_groups_pairs p by auto
qed

section \<open>The batch and the single load\<close>

text \<open>The decoded blob of a locator in a pack.\<close>

definition decoded :: "crypto \<Rightarrow> SecureStorage \<Rightarrow> bytes \<Rightarrow> BlobLocator \<Rightarrow> bytes result" where
  "decoded cr ss pack l = ss_decode cr ss (slice (unat (lo_offset l)) (unat (lo_offset l) + unat (lo_length l)) pack)"

definition in_pack :: "bytes \<Rightarrow> BlobLocator \<Rightarrow> bool" where
  "in_pack pack l \<longleftrightarrow> 0 < lo_length l \<and> unat (lo_offset l) + unat (lo_length l) \<le> length pack"

lemma window_slice:
  assumes "mn \<le> a" "a + n \<le> mx" "a + n \<le> length d" "0 < n"
  shows "slice (a - mn) (a - mn + n) (read_window d (int mn) (mx - mn)) = slice a (a + n) d \<and> a - mn + n \<le> length (read_window d (int mn) (mx - mn))"
proof -
  have "mx - mn \<noteq> 0" using assms by linarith
  then have w: "read_window d (int mn) (mx - mn) = take (mx - mn) (drop mn d)" by (simp add: read_window_def resolve_read_offset_def)
  have "drop (a - mn) (drop mn d) = drop a d" using assms(1) by simp
  moreover have "min n (mx - mn - (a - mn)) = n" using assms by linarith
  ultimately show ?thesis unfolding w slice_def using assms by (auto simp: drop_take min_def)
qed

text \<open>The blob that a locator names, when every pack has the contents \<open>pack\<close>.\<close>

definition blob_value :: "crypto \<Rightarrow> SecureStorage \<Rightarrow> (ID \<Rightarrow> bytes) \<Rightarrow> BlobLocator \<Rightarrow> bytes result" where
  "blob_value cr ss pack l = decoded cr ss (pack (lo_pack_id l)) l"

text \<open>What extracting a set of blobs gives: their values, or the failure of one of them.\<close>

definition outcome :: "(BlobLocator \<Rightarrow> bytes result) \<Rightarrow> (ID \<times> BlobLocator \<times> 'a) set \<Rightarrow> (ID \<rightharpoonup> bytes) \<Rightarrow> (ID \<rightharpoonup> bytes) result \<Rightarrow> bool" where
  "outcome V S res r \<longleftrightarrow> (case r of
      Inl e \<Rightarrow> \<exists>b\<in>S. V (fst (snd b)) = Err e
    | Inr m \<Rightarrow> dom m = dom res \<union> fst ` S \<and> (\<forall>b\<in>S. \<exists>x. V (fst (snd b)) = Ok x) \<and>
        (\<forall>i x. m i = Some x \<longrightarrow> res i = Some x \<or> (\<exists>b\<in>S. fst b = i \<and> V (fst (snd b)) = Ok x)))"

lemma outcome_Err: "outcome V S res (Inl e) \<longleftrightarrow> (\<exists>b\<in>S. V (fst (snd b)) = Err e)"
  by (simp add: outcome_def)

lemma outcome_seq:
  assumes "outcome V S res (Inr m)" "outcome V T m r"
  shows "outcome V (S \<union> T) res r"
proof (cases r)
  case (Inl e)
  with assms(2) show ?thesis by (auto simp: outcome_Err)
next
  case (Inr m')
  note 1 = assms(1) [unfolded outcome_def sum.case] and 2 = assms(2) [unfolded Inr outcome_def sum.case]
  have "dom m' = dom res \<union> fst ` (S \<union> T)" using conjunct1 [OF 1] conjunct1 [OF 2] by (simp add: image_Un Un_assoc)
  moreover have "\<exists>x. V (fst (snd b)) = Ok x" if "b \<in> S \<union> T" for b using that 1 2 by blast
  moreover have "res i = Some x \<or> (\<exists>b\<in>S \<union> T. fst b = i \<and> V (fst (snd b)) = Ok x)" if "m' i = Some x" for i x
  proof -
    have "m i = Some x \<or> (\<exists>b\<in>T. fst b = i \<and> V (fst (snd b)) = Ok x)" using 2 that by blast
    then show ?thesis using 1 by blast
  qed
  ultimately show ?thesis unfolding Inr outcome_def by simp
qed

text \<open>A segment whose data holds its blobs as the pack has them.\<close>

definition holds_blobs :: "(ID \<Rightarrow> bytes) \<Rightarrow> 'a PackSegment \<Rightarrow> bytes \<Rightarrow> (ID \<times> BlobLocator \<times> 'a) \<Rightarrow> bool" where
  "holds_blobs pack sg data b \<longleftrightarrow> sg_min_offset sg \<le> blob_start b \<and>
     blob_start b - sg_min_offset sg + unat (lo_length (fst (snd b))) \<le> length data \<and>
     slice (blob_start b - sg_min_offset sg) (blob_start b - sg_min_offset sg + unat (lo_length (fst (snd b)))) data =
       slice (blob_start b) (blob_end b) (pack (lo_pack_id (fst (snd b))))"

lemma extract_blobs_spec:
  assumes "\<forall>b\<in>set bs. holds_blobs pack sg data b"
  shows "outcome (blob_value cr ss pack) (set bs) res (extract_blobs cr ss sg data bs res)"
  using assms
proof (induction bs arbitrary: res)
  case (Cons b bs)
  obtain i l a where b: "b = (i, l, a)" by (cases b)
  have step: "extract_blobs cr ss sg data (b # bs) res =
      bind_result (blob_value cr ss pack l) (\<lambda>x. extract_blobs cr ss sg data bs (res(i \<mapsto> x)))"
    using Cons.prems b by (simp add: holds_blobs_def blob_value_def decoded_def Let_def del: Nat.add_diff_assoc2)
  show ?case
  proof (cases "blob_value cr ss pack l")
    case (Inl e)
    with b show ?thesis unfolding step by (simp add: outcome_Err)
  next
    case (Inr x)
    have "outcome (blob_value cr ss pack) {b} res (Inr (res(i \<mapsto> x)))" using b Inr by (auto simp: outcome_def)
    moreover have "outcome (blob_value cr ss pack) (set bs) (res(i \<mapsto> x)) (extract_blobs cr ss sg data bs (res(i \<mapsto> x)))"
      using Cons.prems by (intro Cons.IH) simp
    ultimately show ?thesis unfolding step Inr bind_result_simps using outcome_seq by fastforce
  qed
qed (simp add: outcome_def)

lemma extract_all_spec:
  assumes "\<forall>(sg, data)\<in>set sgs. \<forall>b\<in>set (sg_blobs sg). holds_blobs pack sg data b"
  shows "outcome (blob_value cr ss pack) (\<Union>(sg, d)\<in>set sgs. set (sg_blobs sg)) res (extract_all cr ss sgs res)"
  using assms
proof (induction sgs arbitrary: res)
  case (Cons s sgs)
  obtain sg data where s: "s = (sg, data)" by (cases s)
  have here: "outcome (blob_value cr ss pack) (set (sg_blobs sg)) res (extract_blobs cr ss sg data (sg_blobs sg) res)"
    using Cons.prems s by (intro extract_blobs_spec) simp
  show ?case
  proof (cases "extract_blobs cr ss sg data (sg_blobs sg) res")
    case (Inl e)
    with here s show ?thesis by (auto simp: outcome_Err)
  next
    case (Inr m)
    from outcome_seq [OF here [unfolded Inr] Cons.IH] Cons.prems s Inr show ?thesis by simp
  qed
qed (simp add: outcome_def)

lemma all_results_spec:
  "case all_results rs of Inl e \<Rightarrow> Inl e \<in> set rs | Inr xs \<Rightarrow> rs = map Inr xs"
  by (induction rs rule: all_results.induct) (auto simp: bind_result_def split: sum.splits)

definition segment_result :: "(path \<Rightarrow> bytes option) \<Rightarrow> 'a PackSegment \<Rightarrow> ('a PackSegment \<times> bytes) result" where
  "segment_result fs sg = (case fs (get_path PackFile (sg_pack_id sg)) of
     None \<Rightarrow> Err Backend | Some d \<Rightarrow> Ok (sg, read_window d (int (sg_min_offset sg)) (source_len sg)))"

context storage_backend
begin

lemma load_from_pack_decoded:
  assumes "inv st" "\<And>d. files st (get_path PackFile (lo_pack_id l)) = Some d \<Longrightarrow> in_pack d l"
  shows "case files st (get_path PackFile (lo_pack_id l)) of
      None \<Rightarrow> \<exists>e. fst (load_from_pack B cr ss (lo_pack_id l) t (lo_offset l) (lo_length l) st) = Err e
    | Some d \<Rightarrow> fst (load_from_pack B cr ss (lo_pack_id l) t (lo_offset l) (lo_length l) st) = decoded cr ss d l"
proof -
  let ?h = "handle_new_with_hint (get_object_path (lo_pack_id l)) PackFile (t = Tree)"
  obtain r st' where rd: "be_read B st ?h (int (unat (lo_offset l))) (unat (lo_length l)) = (r, st')" by fastforce
  have p: "h_path ?h = get_path PackFile (lo_pack_id l)" by (simp add: handle_new_with_hint_def get_path_def)
  note rf = read_file [OF assms(1) rd, unfolded p]
  show ?thesis
  proof (cases "files st (get_path PackFile (lo_pack_id l))")
    case None
    with rf rd show ?thesis by (auto simp: load_from_pack_def)
  next
    case (Some d)
    from assms(2) [OF Some] have "0 < unat (lo_length l)" by (auto simp: in_pack_def unat_gt_0)
    then have "read_window d (int (unat (lo_offset l))) (unat (lo_length l)) = slice (unat (lo_offset l)) (unat (lo_offset l) + unat (lo_length l)) d"
      by (simp add: read_window_def resolve_read_offset_def slice_def Let_def)
    with rf rd Some show ?thesis by (simp add: load_from_pack_def decoded_def decode_owned_def ss_decode_def decrypt_in_place_eq)
  qed
qed

lemma read_segments_spec:
  "inv st \<Longrightarrow> read_segments B sgs st = (rs, st') \<Longrightarrow> inv st' \<and> files st' = files st \<and> rs = map (segment_result (files st)) sgs"
proof (induction sgs arbitrary: st rs)
  case (Cons sg sgs)
  let ?h = "handle_new_with_hint (get_path PackFile (sg_pack_id sg)) PackFile (\<forall>b\<in>set (sg_blobs sg). lo_type (fst (snd b)) = Tree)"
  obtain r st1 where rd: "be_read B st ?h (int (sg_min_offset sg)) (source_len sg) = (r, st1)" by fastforce
  obtain rs' where rest: "read_segments B sgs st1 = (rs', st')" "rs = (case r of Inl e \<Rightarrow> Err Backend | Inr d \<Rightarrow> Ok (sg, d)) # rs'"
    using Cons.prems(2) rd by (auto simp: read_segment_def Let_def split: prod.splits sum.splits)
  have rf: "inv st1" "files st1 = files st" "(case r of Inl e \<Rightarrow> Err Backend | Inr d \<Rightarrow> Ok (sg, d)) = segment_result (files st) sg"
    using read_file [OF Cons.prems(1) rd] by (auto simp: segment_result_def handle_new_with_hint_def split: option.splits)
  from Cons.IH [OF rf(1) rest(1)] rest(2) rf show ?case by simp
qed simp

lemma batch_exact:
  assumes "inv st" "\<forall>(i, l)\<in>set locs. \<forall>d. files st (get_path PackFile (lo_pack_id l)) = Some d \<longrightarrow> in_pack d l"
    "load_with_locators B cr ss lim locs st = (r, st')"
  defines "single l \<equiv> fst (load_from_pack B cr ss (lo_pack_id l) (lo_type l) (lo_offset l) (lo_length l) st)"
  shows "inv st' \<and> files st' = files st \<and>
    (case r of
       Inl e \<Rightarrow> \<exists>(i, l)\<in>set locs. \<exists>e'. single l = Err e'
     | Inr m \<Rightarrow> dom m = fst ` set locs \<and> (\<forall>(i, l)\<in>set locs. \<exists>x. single l = Ok x) \<and>
         (\<forall>i x. m i = Some x \<longrightarrow> (\<exists>l. (i, l) \<in> set locs \<and> single l = Ok x)))"
proof (cases "locs = []")
  case True
  with assms(1,3) show ?thesis by (auto simp: load_with_locators_def)
next
  case False
  let ?sgs = "request_segments lim locs" and ?pack = "\<lambda>p. the (files st (get_path PackFile p))"
  note seg = request_segments_props [where lim = lim and locs = locs]
  obtain rs st1 where rs1: "read_segments B ?sgs st = (rs, st1)" by fastforce
  have "(r, st') = (bind_result (all_results rs) (\<lambda>sgs. extract_all cr ss sgs Map.empty), st1)"
    using assms(3) False rs1
    by (cases "all_results rs") (simp_all add: load_with_locators_def download_pack_segments_def request_segments_def [symmetric] Let_def)
  with rs1 have rs: "read_segments B ?sgs st = (rs, st')"
    and r: "r = bind_result (all_results rs) (\<lambda>sgs. extract_all cr ss sgs Map.empty)" by simp_all
  note rd = read_segments_spec [OF assms(1) rs]
  have single: "case files st (get_path PackFile (lo_pack_id l)) of None \<Rightarrow> \<exists>e. single l = Err e | Some d \<Rightarrow> single l = decoded cr ss d l"
    if "(i, l) \<in> set locs" for i l
    using load_from_pack_decoded [OF assms(1), of l cr ss "lo_type l"] assms(2) that unfolding single_def by blast
  have in_locs: "(fst b, fst (snd b)) \<in> set locs" if "sg \<in> set ?sgs" "b \<in> set (sg_blobs sg)" for sg b
  proof -
    have "(\<lambda>(i, l, _). (i, l)) b \<in> set locs" unfolding seg(2) [symmetric] using that by (intro imageI UN_I)
    then show ?thesis by (simp add: case_prod_beta)
  qed
  show ?thesis
  proof (cases "all_results rs")
    case (Inl e)
    then obtain sg where sg: "sg \<in> set ?sgs" "files st (get_path PackFile (sg_pack_id sg)) = None"
      using all_results_spec [of rs] rd by (auto simp: segment_result_def split: option.splits)
    then obtain b where b: "b \<in> set (sg_blobs sg)" using seg(1) by (auto simp: segment_ok_def neq_Nil_conv)
    have "\<exists>e. single (fst (snd b)) = Err e"
      using single [OF in_locs [OF sg(1) b]] sg(2) seg(3) [OF sg(1) b] by simp
    with in_locs [OF sg(1) b] rd r Inl show ?thesis by auto
  next
    case (Inr loaded_segs)
    then have eq: "map (segment_result (files st)) ?sgs = map Inr loaded_segs" using all_results_spec [of rs] rd by simp
    have there: "files st (get_path PackFile (sg_pack_id sg)) \<noteq> None" if "sg \<in> set ?sgs" for sg
    proof
      assume "files st (get_path PackFile (sg_pack_id sg)) = None"
      then have "Err Backend \<in> set (map (segment_result (files st)) ?sgs)" using that by (force simp: segment_result_def)
      then show False unfolding eq by auto
    qed
    let ?win = "\<lambda>sg. read_window (?pack (sg_pack_id sg)) (int (sg_min_offset sg)) (source_len sg)"
    have "segment_result (files st) sg = Inr (sg, ?win sg)" if "sg \<in> set ?sgs" for sg
      using there [OF that] by (cases "files st (get_path PackFile (sg_pack_id sg))") (simp_all add: segment_result_def)
    then have "map (segment_result (files st)) ?sgs = map Inr (map (\<lambda>sg. (sg, ?win sg)) ?sgs)" by simp
    then have segs: "loaded_segs = map (\<lambda>sg. (sg, ?win sg)) ?sgs" unfolding eq by (simp only: inj_map_eq_map [OF inj_Inr])
    have holds: "holds_blobs ?pack sg (?win sg) b" if sg: "sg \<in> set ?sgs" and b: "b \<in> set (sg_blobs sg)" for sg b
    proof -
      obtain d where d: "files st (get_path PackFile (sg_pack_id sg)) = Some d" using there [OF sg] by blast
      have inp: "in_pack d (fst (snd b))" using bspec [OF assms(2) in_locs [OF sg b]] d seg(3) [OF sg b] by simp
      have range: "sg_min_offset sg \<le> blob_start b" "blob_end b \<le> sg_max_offset sg"
        using bspec [OF seg(1) sg] b unfolding segment_ok_def by blast+
      have "0 < unat (lo_length (fst (snd b)))" "blob_end b \<le> length d" using inp by (auto simp: in_pack_def unat_gt_0)
      from window_slice [OF range(1) range(2) this(2,1)] d seg(3) [OF sg b] range(1) show ?thesis
        unfolding holds_blobs_def source_len_def by simp
    qed
    have "outcome (blob_value cr ss ?pack) (\<Union>(sg, d)\<in>set loaded_segs. set (sg_blobs sg)) Map.empty r"
      unfolding r Inr bind_result_simps using holds by (intro extract_all_spec) (auto simp: segs)
    then have out: "outcome (blob_value cr ss ?pack) (\<Union>sg\<in>set ?sgs. set (sg_blobs sg)) Map.empty r"
      by (simp add: segs)
    have val: "blob_value cr ss ?pack (fst (snd b)) = single (fst (snd b))" if sg: "sg \<in> set ?sgs" and b: "b \<in> set (sg_blobs sg)" for sg b
    proof -
      obtain d where "files st (get_path PackFile (sg_pack_id sg)) = Some d" using there [OF sg] by blast
      with single [OF in_locs [OF sg b]] seg(3) [OF sg b] show ?thesis by (simp add: blob_value_def)
    qed
    show ?thesis
    proof (cases r)
      case (Inl e)
      with out obtain sg b where b: "sg \<in> set ?sgs" "b \<in> set (sg_blobs sg)" "blob_value cr ss ?pack (fst (snd b)) = Err e"
        by (auto simp: outcome_Err)
      have "single (fst (snd b)) = Err e" using val [OF b(1,2)] b(3) by simp
      with in_locs [OF b(1,2)] Inl rd show ?thesis by auto
    next
      case (Inr m)
      note o = out [unfolded Inr outcome_def sum.case]
      have keys: "fst ` (\<Union>sg\<in>set ?sgs. set (sg_blobs sg)) = fst ` set locs"
        unfolding seg(2) [symmetric] by (simp add: image_image case_prod_beta)
      have "\<exists>x. single l = Ok x" if "(i, l) \<in> set locs" for i l
      proof -
        from that obtain sg b where "sg \<in> set ?sgs" "b \<in> set (sg_blobs sg)" "l = fst (snd b)"
          unfolding seg(2) [symmetric] by auto
        moreover from this o obtain x where "blob_value cr ss ?pack (fst (snd b)) = Ok x" by blast
        ultimately show ?thesis using val [of sg b] by simp
      qed
      moreover have "\<exists>l. (i, l) \<in> set locs \<and> single l = Ok x" if "m i = Some x" for i x
      proof -
        have "Map.empty i = Some x \<or> (\<exists>b\<in>\<Union>sg\<in>set ?sgs. set (sg_blobs sg). fst b = i \<and> blob_value cr ss ?pack (fst (snd b)) = Ok x)"
          using o that by blast
        then obtain sg b where b: "sg \<in> set ?sgs" "b \<in> set (sg_blobs sg)" "fst b = i" "blob_value cr ss ?pack (fst (snd b)) = Ok x" by auto
        then have "(i, fst (snd b)) \<in> set locs \<and> single (fst (snd b)) = Ok x" using val [OF b(1,2)] in_locs [OF b(1,2)] by simp
        then show ?thesis ..
      qed
      moreover have "dom m = fst ` set locs" using conjunct1 [OF o] keys by simp
      ultimately show ?thesis using rd Inr by auto
    qed
  qed
qed

end

text \<open>C7: Loading a batch is loading each blob on its own. If the batch succeeds, it has a value for exactly the
  requested ids, every request would have succeeded alone, and every value is what a single load of a request for that id
  returns; if it fails, some request would have failed alone. Merged reads change neither the data nor the files.\<close>

theorem batch_load_exact:
  assumes "mb_inv st" "\<forall>(i, l)\<in>set locs. \<forall>d. mb_files st (get_path PackFile (lo_pack_id l)) = Some d \<longrightarrow> in_pack d l"
    "load_with_locators mock_backend cr ss lim locs st = (r, st')"
  shows "mb_files st' = mb_files st \<and>
    (case r of
       Inl e \<Rightarrow> \<exists>(i, l)\<in>set locs. \<exists>e'. fst (load_from_pack mock_backend cr ss (lo_pack_id l) (lo_type l) (lo_offset l) (lo_length l) st) = Err e'
     | Inr m \<Rightarrow> dom m = fst ` set locs \<and>
         (\<forall>(i, l)\<in>set locs. \<exists>x. fst (load_from_pack mock_backend cr ss (lo_pack_id l) (lo_type l) (lo_offset l) (lo_length l) st) = Ok x) \<and>
         (\<forall>i x. m i = Some x \<longrightarrow> (\<exists>l. (i, l) \<in> set locs \<and>
            fst (load_from_pack mock_backend cr ss (lo_pack_id l) (lo_type l) (lo_offset l) (lo_length l) st) = Ok x)))"
  using mock.batch_exact [OF assms] by blast

definition demo_pack_store :: MockBackend where
  "demo_pack_store = put_file (mock_new 0) (get_path PackFile (ID [7])) [1, 2, 3, 4, 5]"

definition demo_locators :: "(ID \<times> BlobLocator) list" where
  "demo_locators =
     [(ID [2], \<lparr>lo_pack_id = ID [7], lo_offset = 3, lo_length = 2, lo_raw_length = 2, lo_type = Data\<rparr>),
      (ID [1], \<lparr>lo_pack_id = ID [7], lo_offset = 0, lo_length = 2, lo_raw_length = 2, lo_type = Data\<rparr>)]"

theorem batch_load_exact_witness:
  "case fst (load_with_locators mock_backend demo_crypto \<lparr>ss_level = 3, ss_key = None\<rparr> default_limits demo_locators demo_pack_store) of
     Inl e \<Rightarrow> False | Inr m \<Rightarrow> dom m = {ID [1], ID [2]}"
proof -
  let ?ss = "\<lparr>ss_level = 3, ss_key = None\<rparr>"
  obtain r st' where run: "load_with_locators mock_backend demo_crypto ?ss default_limits demo_locators demo_pack_store = (r, st')" by fastforce
  have st: "mb_inv demo_pack_store" "mb_files demo_pack_store (get_path PackFile (ID [7])) = Some [1, 2, 3, 4, 5]"
    by (simp_all add: demo_pack_store_def mb_inv_def mock_new_def put_file_def mb_files_def mock_file_def)
  have inp: "\<forall>(i, l)\<in>set demo_locators. \<forall>d. mb_files demo_pack_store (get_path PackFile (lo_pack_id l)) = Some d \<longrightarrow> in_pack d l"
    using st(2) by (simp add: demo_locators_def in_pack_def)
  have single: "\<exists>x. fst (load_from_pack mock_backend demo_crypto ?ss (lo_pack_id l) (lo_type l) (lo_offset l) (lo_length l) demo_pack_store) = Ok x"
    if "(i, l) \<in> set demo_locators" for i l
  proof -
    have "lo_pack_id l = ID [7]" "in_pack [1, 2, 3, 4, 5] l" using that inp st(2) by (auto simp: demo_locators_def)
    with mock.load_from_pack_decoded [OF st(1), of l demo_crypto ?ss "lo_type l"] st(2) show ?thesis
      by (simp add: decoded_def ss_decode_def ss_decrypt_def ss_decompress_def demo_crypto_def)
  qed
  note exact = batch_load_exact [OF st(1) inp run]
  show ?thesis
  proof (cases r)
    case (Inl e)
    from exact [unfolded Inl sum.case] single show ?thesis by fastforce
  next
    case (Inr m)
    from exact [unfolded Inr sum.case] have "dom m = fst ` set demo_locators" by blast
    then show ?thesis unfolding run Inr by (simp add: demo_locators_def insert_commute)
  qed
qed

end
