(* ===== verification/GcScan.thy ===== *)
theory GcScan
  imports Snapshot Loader
begin

text \<open>
  The first half of the garbage collector (\<open>repository/gc.rs\<close>): the marking of everything that the snapshots reference, the scan
  that turns it into a plan, and the partition of the blobs to repack into chunks.

  The tasks that the code runs concurrently only add to sets behind locks; they are modelled in the order in which they are
  started. \<open>load\<close> is \<open>Tree::load_from_repo\<close>, which changes nothing. The shutdown flag can be raised at any time by
  another thread, so \<open>sig k\<close> is its value at the \<open>k\<close>-th test. Marking walks the trees in rounds; the number of
  rounds is fuel, and \<open>mark_terminates\<close> shows how much is enough.
\<close>

definition check_shutdown :: "bool \<Rightarrow> unit result" where
  "check_shutdown signal = (if signal then Err Interrupted else Ok ())"

section \<open>Marking\<close>

record refs =
  rf_seen :: "ID set"
  rf_blobs :: "ID set"
  rf_packs :: "ID set"
  rf_polls :: nat

definition mark_blob :: "MasterIndex \<Rightarrow> refs \<Rightarrow> ID \<Rightarrow> refs" where
  "mark_blob mi r i =
     (let r = r\<lparr>rf_blobs := insert i (rf_blobs r)\<rparr>
      in case mi_get mi i of
           Some locator \<Rightarrow> r\<lparr>rf_packs := insert (lo_pack_id locator) (rf_packs r)\<rparr>
         | None \<Rightarrow> r)"

fun mark_nodes :: "MasterIndex \<Rightarrow> Node list \<Rightarrow> refs \<Rightarrow> ID list \<Rightarrow> refs \<times> ID list" where
  "mark_nodes mi [] r stack = (r, stack)"
| "mark_nodes mi (n # ns) r stack =
     (let stack' = (case nd_tree n of Some subtree_id \<Rightarrow> stack @ [subtree_id] | None \<Rightarrow> stack)
      in case nd_blobs n of
           None \<Rightarrow> mark_nodes mi ns r stack'
         | Some blobs \<Rightarrow> mark_nodes mi ns (foldl (mark_blob mi) r blobs) stack')"

fun fetch_trees :: "MasterIndex \<Rightarrow> (ID \<Rightarrow> TreeObject result) \<Rightarrow> ID list \<Rightarrow> refs \<Rightarrow> ID list \<Rightarrow> (refs \<times> ID list) result" where
  "fetch_trees mi load [] r stack = Ok (r, stack)"
| "fetch_trees mi load (tree_id # to_fetch) r stack =
     (if tree_id \<in> rf_seen r then fetch_trees mi load to_fetch r stack
      else
        let r' = mark_blob mi (r\<lparr>rf_seen := insert tree_id (rf_seen r)\<rparr>) tree_id
        in case load tree_id of
             Inl e \<Rightarrow> Err e
           | Inr tree \<Rightarrow> (case mark_nodes mi (tr_nodes tree) r' stack of (r'', stack') \<Rightarrow> fetch_trees mi load to_fetch r'' stack'))"

text \<open>\<open>while !stack.is_empty()\<close>; \<open>None\<close> means that the fuel was not enough.\<close>

fun mark_rounds :: "nat \<Rightarrow> MasterIndex \<Rightarrow> (ID \<Rightarrow> TreeObject result) \<Rightarrow> (nat \<Rightarrow> bool) \<Rightarrow> ID list \<Rightarrow> refs \<Rightarrow> refs result option" where
  "mark_rounds fuel mi load sig [] r = Some (Ok r)"
| "mark_rounds 0 mi load sig (t # stack) r = None"
| "mark_rounds (Suc fuel) mi load sig (t # stack) r =
     (case check_shutdown (sig (rf_polls r)) of
        Inl e \<Rightarrow> Some (Err e)
      | Inr _ \<Rightarrow>
          (case fetch_trees mi load (t # stack) (r\<lparr>rf_polls := Suc (rf_polls r)\<rparr>) [] of
             Inl e \<Rightarrow> Some (Err e)
           | Inr (r', stack') \<Rightarrow> mark_rounds fuel mi load sig stack' r'))"

fun mark_snapshots :: "nat \<Rightarrow> MasterIndex \<Rightarrow> (ID \<Rightarrow> TreeObject result) \<Rightarrow> (nat \<Rightarrow> bool) \<Rightarrow> (ID \<times> Snapshot) result list \<Rightarrow> refs \<Rightarrow>
    refs result option" where
  "mark_snapshots fuel mi load sig [] r = Some (Ok r)"
| "mark_snapshots fuel mi load sig (res # rest) r =
     (case check_shutdown (sig (rf_polls r)) of
        Inl e \<Rightarrow> Some (Err e)
      | Inr _ \<Rightarrow>
          (case res of
             Inl e \<Rightarrow> Some (Err e)
           | Inr (_, snapshot) \<Rightarrow>
               (case mark_rounds fuel mi load sig [snap_tree snapshot] (r\<lparr>rf_polls := Suc (rf_polls r)\<rparr>) of
                  None \<Rightarrow> None
                | Some (Inl e) \<Rightarrow> Some (Err e)
                | Some (Inr r') \<Rightarrow> mark_snapshots fuel mi load sig rest r')))"

definition refs_empty :: "nat \<Rightarrow> refs" where
  "refs_empty k = \<lparr>rf_seen = {}, rf_blobs = {}, rf_packs = {}, rf_polls = k\<rparr>"

definition get_referenced_blobs_and_packs :: "nat \<Rightarrow> MasterIndex \<Rightarrow> (ID \<Rightarrow> TreeObject result) \<Rightarrow> (nat \<Rightarrow> bool) \<Rightarrow> nat \<Rightarrow>
    (ID \<times> Snapshot) result list \<Rightarrow> refs result option" where
  "get_referenced_blobs_and_packs fuel mi load sig polls snapshots = mark_snapshots fuel mi load sig snapshots (refs_empty polls)"

text \<open>The reference definition: the trees that can be reached from the roots, and every blob that one of them names.\<close>

definition subtrees :: "TreeObject \<Rightarrow> ID set" where
  "subtrees t = {u. \<exists>n\<in>set (tr_nodes t). nd_tree n = Some u}"

definition data_blobs :: "TreeObject \<Rightarrow> ID set" where
  "data_blobs t = {b. \<exists>n\<in>set (tr_nodes t). \<exists>bs. nd_blobs n = Some bs \<and> b \<in> set bs}"

inductive_set reach :: "(ID \<Rightarrow> TreeObject result) \<Rightarrow> ID set \<Rightarrow> ID set" for load roots where
  root: "t \<in> roots \<Longrightarrow> t \<in> reach load roots"
| sub: "t \<in> reach load roots \<Longrightarrow> load t = Ok tree \<Longrightarrow> u \<in> subtrees tree \<Longrightarrow> u \<in> reach load roots"

definition below :: "(ID \<Rightarrow> TreeObject result) \<Rightarrow> ID set \<Rightarrow> ID set" where
  "below load S = S \<union> {b. \<exists>t\<in>S. \<exists>tree. load t = Ok tree \<and> b \<in> data_blobs tree}"

definition referenced :: "(ID \<Rightarrow> TreeObject result) \<Rightarrow> ID set \<Rightarrow> ID set" where
  "referenced load R = below load (reach load R)"

definition packs_of :: "MasterIndex \<Rightarrow> ID set \<Rightarrow> ID set" where
  "packs_of mi S = {p. \<exists>i\<in>S. \<exists>l. mi_get mi i = Some l \<and> lo_pack_id l = p}"

lemma packs_of_insert: "packs_of mi (insert i S) = (case mi_get mi i of Some l \<Rightarrow> {lo_pack_id l} | None \<Rightarrow> {}) \<union> packs_of mi S"
  by (auto simp: packs_of_def split: option.splits)

lemma mark_blob_simps [simp]:
  "rf_seen (mark_blob mi r i) = rf_seen r" "rf_polls (mark_blob mi r i) = rf_polls r"
  "rf_blobs (mark_blob mi r i) = insert i (rf_blobs r)"
  by (simp_all add: mark_blob_def Let_def split: option.splits)

lemma mark_blob_packs: "rf_packs r = packs_of mi (rf_blobs r) \<Longrightarrow> rf_packs (mark_blob mi r i) = packs_of mi (insert i (rf_blobs r))"
  by (simp add: mark_blob_def Let_def packs_of_insert split: option.splits)

lemma mark_blobs:
  "rf_seen (foldl (mark_blob mi) r bs) = rf_seen r \<and> rf_polls (foldl (mark_blob mi) r bs) = rf_polls r \<and>
   rf_blobs (foldl (mark_blob mi) r bs) = rf_blobs r \<union> set bs \<and>
   (rf_packs r = packs_of mi (rf_blobs r) \<longrightarrow> rf_packs (foldl (mark_blob mi) r bs) = packs_of mi (rf_blobs r \<union> set bs))"
  by (induction bs rule: rev_induct) (auto simp: mark_blob_packs)

lemma mark_nodes_spec:
  "mark_nodes mi ns r stack = (r', stack') \<Longrightarrow>
   rf_seen r' = rf_seen r \<and> rf_polls r' = rf_polls r \<and> rf_blobs r' = rf_blobs r \<union> data_blobs \<lparr>tr_nodes = ns\<rparr> \<and>
   (rf_packs r = packs_of mi (rf_blobs r) \<longrightarrow> rf_packs r' = packs_of mi (rf_blobs r')) \<and>
   set stack' = set stack \<union> subtrees \<lparr>tr_nodes = ns\<rparr>"
proof (induction mi ns r stack rule: mark_nodes.induct)
  case (2 mi n ns r stack)
  let ?s = "case nd_tree n of Some t \<Rightarrow> stack @ [t] | None \<Rightarrow> stack"
  have s: "set ?s \<union> subtrees \<lparr>tr_nodes = ns\<rparr> = set stack \<union> subtrees \<lparr>tr_nodes = n # ns\<rparr>"
    by (auto simp: subtrees_def split: option.splits)
  show ?case
  proof (cases "nd_blobs n")
    case None
    then have d: "data_blobs \<lparr>tr_nodes = n # ns\<rparr> = data_blobs \<lparr>tr_nodes = ns\<rparr>" by (auto simp: data_blobs_def)
    have "mark_nodes mi ns r ?s = (r', stack')" using 2(3) None by (simp add: Let_def)
    from 2(1) [OF refl None this] show ?thesis unfolding s d .
  next
    case (Some bs)
    then have d: "data_blobs \<lparr>tr_nodes = n # ns\<rparr> = set bs \<union> data_blobs \<lparr>tr_nodes = ns\<rparr>" by (auto simp: data_blobs_def)
    have "mark_nodes mi ns (foldl (mark_blob mi) r bs) ?s = (r', stack')" using 2(3) Some by (simp add: Let_def)
    from 2(2) [OF refl Some this] mark_blobs [of mi r bs] show ?thesis unfolding s d by (simp add: Un_assoc)
  qed
qed (simp add: data_blobs_def subtrees_def)

text \<open>The invariant of the traversal: \<open>W\<close> holds the trees that are still to be visited.\<close>

definition traversal :: "(ID \<Rightarrow> TreeObject result) \<Rightarrow> MasterIndex \<Rightarrow> ID set \<Rightarrow> ID set \<Rightarrow> refs \<Rightarrow> bool" where
  "traversal load mi R W r \<longleftrightarrow> rf_seen r \<union> W \<subseteq> reach load R \<and>
     (\<forall>t\<in>rf_seen r. \<exists>tree. load t = Ok tree \<and> subtrees tree \<subseteq> rf_seen r \<union> W) \<and>
     rf_blobs r = below load (rf_seen r) \<and> rf_packs r = packs_of mi (rf_blobs r)"

lemma below_insert: "load t = Ok tree \<Longrightarrow> below load (insert t S) = insert t (data_blobs tree \<union> below load S)"
  by (auto simp: below_def)

lemma traversal_visit:
  assumes tr: "traversal load mi R (insert t (W \<union> set stack)) r" and load: "load t = Ok tree"
    and nodes: "mark_nodes mi (tr_nodes tree) (mark_blob mi (r\<lparr>rf_seen := insert t (rf_seen r)\<rparr>) t) stack = (r', stack')"
  shows "traversal load mi R (W \<union> set stack') r' \<and> rf_seen r' = insert t (rf_seen r) \<and> rf_polls r' = rf_polls r"
proof -
  let ?r = "mark_blob mi (r\<lparr>rf_seen := insert t (rf_seen r)\<rparr>) t"
  have tree: "\<lparr>tr_nodes = tr_nodes tree\<rparr> = tree" by simp
  have "rf_packs ?r = packs_of mi (rf_blobs ?r)"
    using tr mark_blob_packs [of "r\<lparr>rf_seen := insert t (rf_seen r)\<rparr>" mi t] by (simp add: traversal_def)
  with mark_nodes_spec [OF nodes, unfolded tree]
  have r': "rf_seen r' = insert t (rf_seen r)" "rf_polls r' = rf_polls r" "rf_blobs r' = insert t (rf_blobs r) \<union> data_blobs tree"
    "rf_packs r' = packs_of mi (rf_blobs r')" "set stack' = set stack \<union> subtrees tree" by auto
  have "subtrees tree \<subseteq> reach load R" using tr load by (auto simp: traversal_def intro: reach.sub)
  then have "rf_seen r' \<union> (W \<union> set stack') \<subseteq> reach load R" using tr r'(1,5) by (auto simp: traversal_def)
  moreover have "\<exists>tree'. load u = Ok tree' \<and> subtrees tree' \<subseteq> rf_seen r' \<union> (W \<union> set stack')" if "u \<in> rf_seen r'" for u
  proof (cases "u = t")
    case True
    then show ?thesis using load r'(5) by auto
  next
    case False
    with that r'(1) obtain tree' where "load u = Ok tree'" "subtrees tree' \<subseteq> rf_seen r \<union> insert t (W \<union> set stack)"
      using tr unfolding traversal_def by blast
    then show ?thesis using r'(1,5) by auto
  qed
  moreover have "rf_blobs r' = below load (rf_seen r')"
    using r'(1,3) tr below_insert [of load t tree "rf_seen r"] load by (auto simp: traversal_def)
  ultimately show ?thesis using r'(1,2,4) unfolding traversal_def by blast
qed

lemma traversal_skip:
  assumes "t \<in> rf_seen r" "traversal load mi R (insert t W) r"
  shows "traversal load mi R W r"
proof -
  have "rf_seen r \<union> insert t W = rf_seen r \<union> W" using assms(1) by auto
  with assms(2) show ?thesis unfolding traversal_def by simp
qed

lemma fetch_trees_Ok:
  assumes "traversal load mi R (set to_fetch \<union> set stack) r" "fetch_trees mi load to_fetch r stack = Ok (r', stack')"
  shows "traversal load mi R (set stack') r' \<and> rf_seen r' = rf_seen r \<union> set to_fetch \<and> rf_polls r' = rf_polls r"
  using assms
proof (induction mi load to_fetch r stack rule: fetch_trees.induct)
  case (2 mi load t to_fetch r stack)
  show ?case
  proof (cases "t \<in> rf_seen r")
    case True
    then have "traversal load mi R (set to_fetch \<union> set stack) r" using 2(3) traversal_skip [of t r load mi R "set to_fetch \<union> set stack"] by simp
    from 2(1) [OF True this] 2(4) True show ?thesis by auto
  next
    case False
    let ?r = "mark_blob mi (r\<lparr>rf_seen := insert t (rf_seen r)\<rparr>) t"
    obtain tree where tree: "load t = Ok tree" using 2(4) False by (cases "load t") (auto simp: Let_def)
    obtain r1 s1 where n: "mark_nodes mi (tr_nodes tree) ?r stack = (r1, s1)" by fastforce
    have "traversal load mi R (insert t (set to_fetch \<union> set stack)) r" using 2(3) by simp
    note v = traversal_visit [OF this tree n]
    have rest: "fetch_trees mi load to_fetch r1 s1 = Ok (r', stack')" using 2(4) False tree n by (simp add: Let_def)
    from 2(2) [OF False refl tree n [symmetric] conjunct1 [OF v] rest] v show ?thesis by auto
  qed
qed simp

lemma fetch_trees_Err:
  assumes "traversal load mi R (set to_fetch \<union> set stack) r" "fetch_trees mi load to_fetch r stack = Err e"
  shows "\<exists>t\<in>reach load R. load t = Err e"
  using assms
proof (induction mi load to_fetch r stack rule: fetch_trees.induct)
  case (2 mi load t to_fetch r stack)
  show ?case
  proof (cases "t \<in> rf_seen r")
    case True
    then have "traversal load mi R (set to_fetch \<union> set stack) r" using 2(3) traversal_skip [of t r load mi R "set to_fetch \<union> set stack"] by simp
    from 2(1) [OF True this] 2(4) True show ?thesis by simp
  next
    case False
    let ?r = "mark_blob mi (r\<lparr>rf_seen := insert t (rf_seen r)\<rparr>) t"
    have here: "traversal load mi R (insert t (set to_fetch \<union> set stack)) r" using 2(3) by simp
    show ?thesis
    proof (cases "load t")
      case (Inl e')
      with 2(4) False here show ?thesis by (auto simp: Let_def traversal_def)
    next
      case (Inr tree)
      obtain r1 s1 where n: "mark_nodes mi (tr_nodes tree) ?r stack = (r1, s1)" by fastforce
      note v = traversal_visit [OF here Inr n]
      have rest: "fetch_trees mi load to_fetch r1 s1 = Err e" using 2(4) False Inr n by (simp add: Let_def)
      from 2(2) [OF False refl Inr n [symmetric] conjunct1 [OF v] rest] show ?thesis .
    qed
  qed
qed simp

lemma traversal_polls [simp]: "traversal load mi R W (r\<lparr>rf_polls := k\<rparr>) = traversal load mi R W r"
  by (simp add: traversal_def)

lemma mark_rounds_Ok:
  assumes "traversal load mi R (set stack) r" "mark_rounds fuel mi load sig stack r = Some (Ok r')"
  shows "traversal load mi R {} r' \<and> rf_seen r \<union> set stack \<subseteq> rf_seen r'"
  using assms
proof (induction fuel mi load sig stack r rule: mark_rounds.induct)
  case (3 fuel mi load sig t stack r)
  let ?r = "r\<lparr>rf_polls := Suc (rf_polls r)\<rparr>"
  obtain r1 s1 where f: "check_shutdown (sig (rf_polls r)) = Ok ()" "fetch_trees mi load (t # stack) ?r [] = Ok (r1, s1)"
    "mark_rounds fuel mi load sig s1 r1 = Some (Ok r')" using 3(3) by (auto split: sum.splits)
  have "traversal load mi R (set (t # stack) \<union> set []) ?r" using 3(2) by simp
  note n = fetch_trees_Ok [OF this f(2)]
  from 3(1) [OF f(1) f(2) refl conjunct1 [OF n] f(3)] n show ?case by auto
qed simp_all

lemma mark_rounds_Err:
  assumes "traversal load mi R (set stack) r" "mark_rounds fuel mi load sig stack r = Some (Err e)"
  shows "(e = Interrupted \<and> (\<exists>k. sig k)) \<or> (\<exists>t\<in>reach load R. load t = Err e)"
  using assms
proof (induction fuel mi load sig stack r rule: mark_rounds.induct)
  case (3 fuel mi load sig t stack r)
  let ?r = "r\<lparr>rf_polls := Suc (rf_polls r)\<rparr>"
  have tr: "traversal load mi R (set (t # stack) \<union> set []) ?r" using 3(2) by simp
  show ?case
  proof (cases "sig (rf_polls r)")
    case True
    with 3(3) show ?thesis by (auto simp: check_shutdown_def)
  next
    case False
    then have c: "check_shutdown (sig (rf_polls r)) = Ok ()" by (simp add: check_shutdown_def)
    show ?thesis
    proof (cases "fetch_trees mi load (t # stack) ?r []")
      case (Inl e')
      with 3(3) c have "e' = e" by simp
      with fetch_trees_Err [OF tr] Inl show ?thesis by blast
    next
      case (Inr rs)
      then obtain r1 s1 where f: "fetch_trees mi load (t # stack) ?r [] = Ok (r1, s1)" by (cases rs) auto
      with 3(3) c have rest: "mark_rounds fuel mi load sig s1 r1 = Some (Err e)" by simp
      from 3(1) [OF c f refl conjunct1 [OF fetch_trees_Ok [OF tr f]] rest] show ?thesis .
    qed
  qed
qed simp_all

text \<open>Every round but the last visits a tree for the first time, so as many rounds as there are stored trees are enough.\<close>

definition loadable :: "(ID \<Rightarrow> TreeObject result) \<Rightarrow> ID set" where
  "loadable load = {t. \<exists>tree. load t = Ok tree}"

lemma fetch_nothing_new: "set to_fetch \<subseteq> rf_seen r \<Longrightarrow> fetch_trees mi load to_fetch r stack = Ok (r, stack)"
  by (induction mi load to_fetch r stack rule: fetch_trees.induct) auto

lemma mark_rounds_ends:
  assumes "finite (loadable load)" "traversal load mi R (set stack) r" "card (loadable load - rf_seen r) < fuel"
  shows "mark_rounds fuel mi load sig stack r \<noteq> None"
  using assms
proof (induction fuel mi load sig stack r rule: mark_rounds.induct)
  case (3 fuel mi load sig t stack r)
  let ?r = "r\<lparr>rf_polls := Suc (rf_polls r)\<rparr>"
  have tr: "traversal load mi R (set (t # stack) \<union> set []) ?r" using 3(3) by simp
  show ?case
  proof (cases "sig (rf_polls r) \<or> (\<exists>e. fetch_trees mi load (t # stack) ?r [] = Err e)")
    case True
    then show ?thesis by (auto simp: check_shutdown_def split: sum.splits)
  next
    case False
    then have c: "check_shutdown (sig (rf_polls r)) = Ok ()" by (simp add: check_shutdown_def)
    from False obtain r1 s1 where f: "fetch_trees mi load (t # stack) ?r [] = Ok (r1, s1)"
      by (cases "fetch_trees mi load (t # stack) ?r []") auto
    note n = fetch_trees_Ok [OF tr f]
    have "mark_rounds fuel mi load sig s1 r1 \<noteq> None"
    proof (cases "set (t # stack) \<subseteq> rf_seen r")
      case True
      then have "s1 = []" using fetch_nothing_new [of "t # stack" ?r mi load "[]"] f by simp
      then show ?thesis by simp
    next
      case new: False
      then obtain u where u: "u \<in> set (t # stack)" "u \<notin> rf_seen r" by blast
      then have seen: "u \<in> rf_seen r1" "rf_seen r \<subseteq> rf_seen r1" using n by auto
      then have "u \<in> loadable load" using n by (auto simp: traversal_def loadable_def)
      then have "loadable load - rf_seen r1 \<subset> loadable load - rf_seen r" using seen u(2) by auto
      then have "card (loadable load - rf_seen r1) < card (loadable load - rf_seen r)"
        using 3(2) by (intro psubset_card_mono) auto
      with 3(4) have "card (loadable load - rf_seen r1) < fuel" by simp
      from 3(1) [OF c f refl 3(2) conjunct1 [OF n] this] show ?thesis .
    qed
    with c f show ?thesis by simp
  qed
qed simp_all

lemma traversal_add:
  assumes "t \<in> R" "traversal load mi R W r"
  shows "traversal load mi R (insert t W) r"
proof -
  have "t \<in> reach load R" using assms(1) by (rule reach.root)
  moreover have "\<exists>tree. load u = Ok tree \<and> subtrees tree \<subseteq> rf_seen r \<union> insert t W" if "u \<in> rf_seen r" for u
    using assms(2) that unfolding traversal_def by blast
  ultimately show ?thesis using assms(2) unfolding traversal_def by auto
qed

lemma mark_snapshots_ends:
  assumes "finite (loadable load)" "card (loadable load) < fuel" "traversal load mi R {} r"
    "\<forall>i s. Inr (i, s) \<in> set snapshots \<longrightarrow> snap_tree s \<in> R"
  shows "mark_snapshots fuel mi load sig snapshots r \<noteq> None"
  using assms
proof (induction fuel mi load sig snapshots r rule: mark_snapshots.induct)
  case (2 fuel mi load sig res rest r)
  show ?case
  proof (cases "sig (rf_polls r) \<or> (\<exists>e. res = Inl e)")
    case True
    then show ?thesis by (auto simp: check_shutdown_def split: sum.splits)
  next
    case False
    then have c: "check_shutdown (sig (rf_polls r)) = Ok ()" by (simp add: check_shutdown_def)
    from False obtain i snap where res: "res = Inr (i, snap)" by (cases res) auto
    let ?r = "r\<lparr>rf_polls := Suc (rf_polls r)\<rparr>"
    have root: "snap_tree snap \<in> R" using 2(5) res by auto
    then have tr: "traversal load mi R (set [snap_tree snap]) ?r" using 2(4) traversal_add [of "snap_tree snap" R load mi "{}" r] by simp
    have "card (loadable load - rf_seen ?r) < fuel"
      using card_mono [of "loadable load" "loadable load - rf_seen ?r"] 2(2,3) by fastforce
    from mark_rounds_ends [OF 2(2) tr this] obtain out where out: "mark_rounds fuel mi load sig [snap_tree snap] ?r = Some out" by blast
    show ?thesis
    proof (cases out)
      case (Inl e)
      then show ?thesis using c res out by simp
    next
      case (Inr r')
      have "mark_snapshots fuel mi load sig rest r' \<noteq> None"
        using 2(5) mark_rounds_Ok [OF tr out [unfolded Inr]]
        by (intro 2(1) [OF c res refl out Inr 2(2,3)]) auto
      then show ?thesis using c res out Inr by simp
    qed
  qed
qed simp

lemma mark_snapshots_spec:
  assumes "traversal load mi R {} r" "\<forall>i s. Inr (i, s) \<in> set snapshots \<longrightarrow> snap_tree s \<in> R"
    "mark_snapshots fuel mi load sig snapshots r = Some out"
  shows "case out of
      Inl e \<Rightarrow> (e = Interrupted \<and> (\<exists>k. sig k)) \<or> Inl e \<in> set snapshots \<or> (\<exists>t\<in>reach load R. load t = Err e)
    | Inr r' \<Rightarrow> traversal load mi R {} r' \<and> rf_seen r \<union> {snap_tree s | i s. Inr (i, s) \<in> set snapshots} \<subseteq> rf_seen r'"
  using assms
proof (induction fuel mi load sig snapshots r rule: mark_snapshots.induct)
  case (2 fuel mi load sig res rest r)
  show ?case
  proof (cases "sig (rf_polls r) \<or> (\<exists>e. res = Inl e)")
    case True
    with 2(4) show ?thesis by (auto simp: check_shutdown_def split: sum.splits if_splits)
  next
    case False
    then have c: "check_shutdown (sig (rf_polls r)) = Ok ()" by (simp add: check_shutdown_def)
    from False obtain i snap where res: "res = Inr (i, snap)" by (cases res) auto
    let ?r = "r\<lparr>rf_polls := Suc (rf_polls r)\<rparr>"
    have "snap_tree snap \<in> R" using 2(3) res by auto
    then have tr: "traversal load mi R (set [snap_tree snap]) ?r" using 2(2) traversal_add [of "snap_tree snap" R load mi "{}" r] by simp
    obtain out1 where out1: "mark_rounds fuel mi load sig [snap_tree snap] ?r = Some out1" using 2(4) c res by (auto split: option.splits)
    show ?thesis
    proof (cases out1)
      case (Inl e)
      then have "out = Inl e" using 2(4) c res out1 by simp
      then show ?thesis using mark_rounds_Err [OF tr out1 [unfolded Inl]] by auto
    next
      case (Inr r')
      note m = mark_rounds_Ok [OF tr out1 [unfolded Inr]]
      have later: "\<forall>i s. Inr (i, s) \<in> set rest \<longrightarrow> snap_tree s \<in> R" using 2(3) by auto
      have "mark_snapshots fuel mi load sig rest r' = Some out" using 2(4) c res out1 Inr by simp
      from 2(1) [OF c res refl out1 Inr conjunct1 [OF m] later this] show ?thesis
      proof (cases out)
        case (Inr r2)
        with 2(1) [OF c res refl out1 \<open>out1 = Inr r'\<close> conjunct1 [OF m] later \<open>mark_snapshots fuel mi load sig rest r' = Some out\<close>] m res
        show ?thesis by auto
      qed auto
    qed
  qed
qed auto

lemma reach_closed:
  assumes "R \<subseteq> S" "\<forall>t\<in>S. \<exists>tree. load t = Ok tree \<and> subtrees tree \<subseteq> S"
  shows "reach load R \<subseteq> S"
proof
  fix t assume "t \<in> reach load R"
  then show "t \<in> S"
  proof induction
    case (root t)
    then show ?case using assms(1) by blast
  next
    case (sub t tree u)
    then obtain tree' where "load t = Ok tree'" "subtrees tree' \<subseteq> S" using assms(2) by blast
    with sub show ?case by auto
  qed
qed

definition snapshot_roots :: "(ID \<times> Snapshot) result list \<Rightarrow> ID set" where
  "snapshot_roots snapshots = {snap_tree s | i s. Inr (i, s) \<in> set snapshots}"

lemma gc_mark_core:
  assumes "finite (loadable load)" "card (loadable load) < fuel"
  shows "\<exists>out. get_referenced_blobs_and_packs fuel mi load sig polls snapshots = Some out \<and>
    (case out of
       Inl e \<Rightarrow> (e = Interrupted \<and> (\<exists>k. sig k)) \<or> Inl e \<in> set snapshots \<or> (\<exists>t\<in>reach load (snapshot_roots snapshots). load t = Err e)
     | Inr r \<Rightarrow> rf_blobs r = referenced load (snapshot_roots snapshots) \<and> rf_packs r = packs_of mi (referenced load (snapshot_roots snapshots)) \<and>
         reach load (snapshot_roots snapshots) \<subseteq> loadable load)"
proof -
  let ?R = "snapshot_roots snapshots"
  have start: "traversal load mi (snapshot_roots snapshots) {} (refs_empty polls)" by (simp add: traversal_def refs_empty_def below_def packs_of_def)
  have roots: "\<forall>i s. Inr (i, s) \<in> set snapshots \<longrightarrow> snap_tree s \<in> ?R" by (auto simp: snapshot_roots_def)
  obtain out where out: "mark_snapshots fuel mi load sig snapshots (refs_empty polls) = Some out"
    using mark_snapshots_ends [OF assms(1,2) start roots] by blast
  note spec = mark_snapshots_spec [OF start roots out]
  show ?thesis
  proof (cases out)
    case (Inl e)
    then show ?thesis using out spec by (auto simp: get_referenced_blobs_and_packs_def)
  next
    case (Inr r)
    have r: "traversal load mi (snapshot_roots snapshots) {} r" "?R \<subseteq> rf_seen r" using spec Inr by (auto simp: snapshot_roots_def)
    have "reach load (snapshot_roots snapshots) \<subseteq> rf_seen r" using r by (intro reach_closed) (auto simp: traversal_def)
    with r(1) have "rf_seen r = reach load (snapshot_roots snapshots)" by (auto simp: traversal_def)
    with r(1) have "rf_blobs r = referenced load (snapshot_roots snapshots) \<and> rf_packs r = packs_of mi (referenced load (snapshot_roots snapshots)) \<and> reach load (snapshot_roots snapshots) \<subseteq> loadable load"
      by (auto simp: traversal_def referenced_def loadable_def)
    with out Inr show ?thesis by (auto simp: get_referenced_blobs_and_packs_def)
  qed
qed

lemma gc_mark_props:
  assumes "finite (loadable load)" "card (loadable load) < fuel" "get_referenced_blobs_and_packs fuel mi load sig polls snapshots = Some (Ok r)"
  shows "rf_blobs r = referenced load (snapshot_roots snapshots) \<and> rf_packs r = packs_of mi (rf_blobs r)"
  using gc_mark_core [OF assms(1,2), of mi sig polls snapshots] assms(3) by simp

text \<open>C6: Marking ends and is exact. If the repository holds finitely many trees, marking returns; what it returns is the set of all
  blobs that some snapshot reaches, trees included, together with the packs that the index gives for them. It fails only
  if it is interrupted, or a snapshot or a reachable tree cannot be loaded: it never reports a blob of a live snapshot as unreferenced.\<close>

theorem gc_mark_exact:
  assumes "finite (loadable load)" "card (loadable load) < fuel"
  shows "\<exists>out. get_referenced_blobs_and_packs fuel mi load sig polls snapshots = Some out \<and>
    (case out of
       Inl e \<Rightarrow> (e = Interrupted \<and> (\<exists>k. sig k)) \<or> Inl e \<in> set snapshots \<or> (\<exists>t\<in>reach load (snapshot_roots snapshots). load t = Err e)
     | Inr r \<Rightarrow> rf_blobs r = referenced load (snapshot_roots snapshots) \<and> rf_packs r = packs_of mi (referenced load (snapshot_roots snapshots)) \<and> reach load (snapshot_roots snapshots) \<subseteq> loadable load)"
  using assms by (rule gc_mark_core)

section \<open>The scan\<close>

text \<open>\<open>list_dir_recursive\<close>, the default method of the backend trait; the fuel bounds the depth of the directories.\<close>

fun list_nodes :: "('b \<Rightarrow> path \<Rightarrow> BackendNode list result \<times> 'b) \<Rightarrow> BackendNode list \<Rightarrow> 'b \<Rightarrow> BackendNode list result \<times> 'b" where
  "list_nodes rec [] st = (Ok [], st)"
| "list_nodes rec (NodeFile p n # ns) st =
     (case list_nodes rec ns st of (Inl e, st') \<Rightarrow> (Err e, st') | (Inr xs, st') \<Rightarrow> (Ok (NodeFile p n # xs), st'))"
| "list_nodes rec (NodeDir p # ns) st =
     (case rec st p of
        (Inl e, st') \<Rightarrow> (Err e, st')
      | (Inr sub, st') \<Rightarrow> (case list_nodes rec ns st' of (Inl e, st'') \<Rightarrow> (Err e, st'') | (Inr xs, st'') \<Rightarrow> (Ok (sub @ xs), st'')))"

fun list_dir_recursive :: "nat \<Rightarrow> 'b StorageBackend \<Rightarrow> 'b \<Rightarrow> path \<Rightarrow> BackendNode list result \<times> 'b" where
  "list_dir_recursive 0 B st p = (Err Internal, st)"
| "list_dir_recursive (Suc depth) B st p =
     (case be_list_dir B st p of
        (Inl e, st') \<Rightarrow> (Err e, st')
      | (Inr nodes, st') \<Rightarrow> list_nodes (list_dir_recursive depth B) nodes st')"

definition REPO_TMP_EXTENSION :: string where "REPO_TMP_EXTENSION = ''tmp''"

definition is_trash :: "path \<Rightarrow> bool" where
  "is_trash p \<longleftrightarrow> extension p = Some REPO_TMP_EXTENSION \<or> extension p = Some REPO_DROPPED_EXTENSION"

fun sort_objects :: "path list \<Rightarrow> ID set \<Rightarrow> path list \<Rightarrow> ID set \<times> path list" where
  "sort_objects [] packs trash = (packs, trash)"
| "sort_objects (p # ps) packs trash =
     (case file_name p of
        None \<Rightarrow> sort_objects ps packs trash
      | Some filename \<Rightarrow>
          (case name_id filename of
             Inr i \<Rightarrow> sort_objects ps (insert i packs) trash
           | Inl _ \<Rightarrow> if is_trash p then sort_objects ps packs (trash @ [p]) else sort_objects ps packs trash))"

definition list_packs_and_trash :: "nat \<Rightarrow> 'b StorageBackend \<Rightarrow> 'b \<Rightarrow> (ID set \<times> path list) result \<times> 'b" where
  "list_packs_and_trash depth B st =
     (case list_dir_recursive depth B st [OBJECTS_DIR] of
        (Inl e, st') \<Rightarrow> (Err e, st')
      | (Inr entries, st') \<Rightarrow> (Ok (sort_objects (map node_path entries) {} []), st'))"

definition list_packs :: "nat \<Rightarrow> 'b StorageBackend \<Rightarrow> 'b \<Rightarrow> ID set result \<times> 'b" where
  "list_packs depth B st =
     (case list_packs_and_trash depth B st of (Inl e, st') \<Rightarrow> (Err e, st') | (Inr (packs, _), st') \<Rightarrow> (Ok packs, st'))"

record Plan =
  pl_total_packs :: nat
  pl_referenced_blobs :: "ID set"
  pl_referenced_packs :: "ID set"
  pl_obsolete_packs :: "ID set"
  pl_small_packs :: "ID set"
  pl_tolerated_packs :: "ID set"
  pl_unused_packs :: "ID set"
  pl_index_ids :: "ID set"
  pl_object_trash :: "path list"

text \<open>
  The two comparisons of floating-point quotients, of a number of bytes with the pack size: \<open>gt_small\<close> is
  \<open>(size as f32 / pack_size as f32) < min_pack_size_factor\<close> and \<open>gt_over\<close> is \<open>(garbage as f32 / pack_size as f32) > tolerance\<close>.
  Nothing below depends on how the quotients are rounded.
\<close>

record gc_thresholds =
  gt_small :: "nat \<Rightarrow> bool"
  gt_over :: "nat \<Rightarrow> bool"

fun bump :: "ID \<Rightarrow> nat \<Rightarrow> (ID \<times> nat) list \<Rightarrow> (ID \<times> nat) list" where
  "bump k n [] = [(k, n)]"
| "bump k n ((k', m) # xs) = (if k' = k then (k', m + n) # xs else (k', m) # bump k n xs)"

text \<open>The callback of \<open>for_each_id\<close>: the bytes of every pack and its garbage.\<close>

definition count_blob :: "ID set \<Rightarrow> (ID \<times> nat) list \<times> (ID \<times> nat) list \<Rightarrow> ID \<times> BlobLocator \<Rightarrow> (ID \<times> nat) list \<times> (ID \<times> nat) list" where
  "count_blob referenced_blobs sizes b =
     (case sizes of (kept_pack_size, pack_garbage) \<Rightarrow> case b of (i, locator) \<Rightarrow>
        let n = unat (lo_length locator)
        in (bump (lo_pack_id locator) n kept_pack_size,
            if i \<notin> referenced_blobs then bump (lo_pack_id locator) n pack_garbage else pack_garbage))"

fun check_garbage :: "gc_thresholds \<Rightarrow> (nat \<Rightarrow> bool) \<Rightarrow> nat \<Rightarrow> (ID \<times> nat) list \<Rightarrow> ID set \<Rightarrow> ID set \<Rightarrow> (ID set \<times> ID set) result" where
  "check_garbage g sig polls [] obsolete tolerated = Ok (obsolete, tolerated)"
| "check_garbage g sig polls ((pack_id, garbage_bytes) # rest) obsolete tolerated =
     (case check_shutdown (sig polls) of
        Inl e \<Rightarrow> Err e
      | Inr _ \<Rightarrow>
          if gt_over g garbage_bytes then check_garbage g sig (Suc polls) rest (insert pack_id obsolete) tolerated
          else check_garbage g sig (Suc polls) rest obsolete (insert pack_id tolerated))"

definition scan :: "nat \<Rightarrow> nat \<Rightarrow> gc_thresholds \<Rightarrow> 'b StorageBackend \<Rightarrow> (ID \<Rightarrow> TreeObject result) \<Rightarrow> (nat \<Rightarrow> bool) \<Rightarrow>
    (ID \<times> Snapshot) result list \<Rightarrow> 'b Repository \<Rightarrow> Plan result option \<times> 'b Repository" where
  "scan fuel depth g B load sig snapshots rp =
     (case check_shutdown (sig 0) of
        Inl e \<Rightarrow> (Some (Err e), rp)
      | Inr _ \<Rightarrow>
          (case get_referenced_blobs_and_packs fuel (rp_index rp) load sig 1 snapshots of
             None \<Rightarrow> (None, rp)
           | Some (Inl e) \<Rightarrow> (Some (Err e), rp)
           | Some (Inr r) \<Rightarrow>
               (case list_packs_and_trash depth B (rp_backend rp) of
                  (Inl e, st') \<Rightarrow> (Some (Err e), rp\<lparr>rp_backend := st'\<rparr>)
                | (Inr (packs, object_trash), st') \<Rightarrow>
                    let keep_packs = {p \<in> packs. p \<in> rf_packs r};
                        unused_packs = {p \<in> packs. p \<notin> rf_packs r};
                        (kept_pack_size, pack_garbage) = foldl (count_blob (rf_blobs r)) ([], []) (mi_each_id (rp_index rp));
                        small_packs = set (map fst (filter (\<lambda>(_, size). gt_small g size) kept_pack_size))
                    in (case check_garbage g sig (rf_polls r) pack_garbage {} {} of
                          Inl e \<Rightarrow> (Some (Err e), rp\<lparr>rp_backend := st'\<rparr>)
                        | Inr (obsolete, tolerated) \<Rightarrow>
                            (Some (Ok \<lparr>pl_total_packs = card keep_packs, pl_referenced_blobs = rf_blobs r, pl_referenced_packs = rf_packs r,
                               pl_obsolete_packs = obsolete, pl_small_packs = small_packs, pl_tolerated_packs = tolerated,
                               pl_unused_packs = unused_packs, pl_index_ids = mi_ids (rp_index rp), pl_object_trash = object_trash\<rparr>),
                             rp\<lparr>rp_backend := st'\<rparr>)))))"

section \<open>Chunks of blobs to repack\<close>

definition DEFAULT_GC_DECODED_BUDGET :: nat where "DEFAULT_GC_DECODED_BUDGET = 256 * (1024 * 1024)"

fun chunk_loop :: "nat \<Rightarrow> (ID \<times> BlobLocator) list \<Rightarrow> (ID \<times> BlobLocator) list \<Rightarrow> nat \<Rightarrow> (ID \<times> BlobLocator) list list \<Rightarrow> (ID \<times> BlobLocator) list list" where
  "chunk_loop budget [] current bytes_so_far done_chunks = (if current \<noteq> [] then done_chunks @ [current] else done_chunks)"
| "chunk_loop budget ((i, loc) # rest) current bytes_so_far done_chunks =
     (if bytes_so_far > 0 \<and> bytes_so_far + unat (lo_raw_length loc) > budget
      then chunk_loop budget rest [(i, loc)] (unat (lo_raw_length loc)) (done_chunks @ [current])
      else chunk_loop budget rest (current @ [(i, loc)]) (bytes_so_far + unat (lo_raw_length loc)) done_chunks)"

text \<open>The slices \<open>locators[start..i]\<close> of the code are the lists \<open>current\<close> here.\<close>

definition repack_chunks :: "nat \<Rightarrow> (ID \<times> BlobLocator) list \<Rightarrow> (ID \<times> BlobLocator) list list" where
  "repack_chunks budget locators = chunk_loop budget locators [] 0 []"

definition raw_sum :: "(ID \<times> BlobLocator) list \<Rightarrow> nat" where
  "raw_sum bs = sum_list (map (\<lambda>(i, l). unat (lo_raw_length l)) bs)"

definition chunk_fits :: "nat \<Rightarrow> (ID \<times> BlobLocator) list \<Rightarrow> bool" where
  "chunk_fits budget c \<longleftrightarrow> c \<noteq> [] \<and> (raw_sum c \<le> budget \<or> raw_sum (butlast c) = 0)"

lemma chunk_loop_props:
  assumes "list_all (chunk_fits budget) done_chunks" "current \<noteq> [] \<Longrightarrow> chunk_fits budget current" "bytes_so_far = raw_sum current"
  shows "list_all (chunk_fits budget) (chunk_loop budget bs current bytes_so_far done_chunks) \<and>
    concat (chunk_loop budget bs current bytes_so_far done_chunks) = concat done_chunks @ current @ bs"
  using assms
proof (induction budget bs current bytes_so_far done_chunks rule: chunk_loop.induct)
  case (2 budget i loc rest current bytes_so_far done_chunks)
  show ?case
  proof (cases "bytes_so_far > 0 \<and> bytes_so_far + unat (lo_raw_length loc) > budget")
    case True
    then have "current \<noteq> []" using 2(5) by (auto simp: raw_sum_def)
    then have "list_all (chunk_fits budget) (done_chunks @ [current])" using 2(3,4) by simp
    moreover have "chunk_fits budget [(i, loc)]" by (simp add: chunk_fits_def raw_sum_def)
    ultimately show ?thesis using 2(1) [OF True] True by (simp add: raw_sum_def)
  next
    case False
    have "chunk_fits budget (current @ [(i, loc)])" using False 2(5) by (auto simp: chunk_fits_def raw_sum_def)
    moreover have "bytes_so_far + unat (lo_raw_length loc) = raw_sum (current @ [(i, loc)])" using 2(5) by (simp add: raw_sum_def)
    ultimately show ?thesis using 2(2) [OF False 2(3)] unfolding chunk_loop.simps if_not_P [OF False] by simp
  qed
qed simp

text \<open>C8: The chunks hold the blobs to repack, each once and in order, and a chunk exceeds the budget of decoded bytes only if
  all blobs but its last are empty: a single blob may be larger than the budget, but never two that have data.\<close>

theorem repack_chunks_exact:
  "concat (repack_chunks budget locators) = locators \<and>
   list_all (\<lambda>c. c \<noteq> [] \<and> (raw_sum c \<le> budget \<or> raw_sum (butlast c) = 0)) (repack_chunks budget locators)"
  using chunk_loop_props [of budget "[]" "[]" 0 locators]
  unfolding repack_chunks_def chunk_fits_def [abs_def] by (simp add: raw_sum_def)

section \<open>What a plan promises\<close>

lemma bump_fst: "set (map fst (bump k n xs)) = insert k (set (map fst xs))"
  by (induction k n xs rule: bump.induct) auto

lemma count_blobs_fst:
  assumes "foldl (count_blob refd) ([], []) bs = (sizes, garbage)"
  shows "set (map fst sizes) = {lo_pack_id l | i l. (i, l) \<in> set bs} \<and> set (map fst garbage) = {lo_pack_id l | i l. (i, l) \<in> set bs \<and> i \<notin> refd}"
  using assms
proof (induction bs arbitrary: sizes garbage rule: rev_induct)
  case (snoc b bs)
  obtain i l where b: "b = (i, l)" by (cases b)
  obtain s0 g0 where f: "foldl (count_blob refd) ([], []) bs = (s0, g0)" by fastforce
  note ih = snoc.IH [OF f]
  have "sizes = bump (lo_pack_id l) (unat (lo_length l)) s0"
    "garbage = (if i \<notin> refd then bump (lo_pack_id l) (unat (lo_length l)) g0 else g0)"
    using snoc.prems f b count_blob_def [of refd "(s0, g0)" "(i, l)"] by (simp_all add: Let_def)
  with ih b show ?case using bump_fst [of "lo_pack_id l" "unat (lo_length l)"] by auto
qed simp

lemma check_garbage_union:
  "check_garbage g sig k gs obs tol = Ok (obs', tol') \<Longrightarrow> obs' \<union> tol' = obs \<union> tol \<union> set (map fst gs) \<and> obs \<subseteq> obs' \<and> tol \<subseteq> tol'"
  by (induction g sig k gs obs tol rule: check_garbage.induct) (auto split: sum.splits if_splits)

text \<open>A plan never marks a pack as unused that the index gives for a referenced blob; every pack with an unreferenced blob is either
  to be repacked or tolerated; and only packs of the index are repacked. The scan itself changes no file.\<close>

lemma scan_plan_sound:
  assumes "finite (loadable load)" "scan fuel depth g B load sig snapshots rp = (Some (Ok plan), rp')" "card (loadable load) < fuel"
  shows "pl_referenced_blobs plan = referenced load (snapshot_roots snapshots) \<and>
    pl_unused_packs plan \<inter> packs_of (rp_index rp) (pl_referenced_blobs plan) = {} \<and>
    pl_obsolete_packs plan \<union> pl_tolerated_packs plan = {lo_pack_id l | i l. (i, l) \<in> mi_entries (rp_index rp) \<and> i \<notin> pl_referenced_blobs plan} \<and>
    pl_small_packs plan \<subseteq> {lo_pack_id l | i l. (i, l) \<in> mi_entries (rp_index rp)} \<and> rp_index rp' = rp_index rp"
proof -
  obtain r packs trash st' sizes garbage obs tol where
    r: "get_referenced_blobs_and_packs fuel (rp_index rp) load sig 1 snapshots = Some (Ok r)"
    and c: "foldl (count_blob (rf_blobs r)) ([], []) (mi_each_id (rp_index rp)) = (sizes, garbage)"
    and gb: "check_garbage g sig (rf_polls r) garbage {} {} = Ok (obs, tol)"
    and plan: "plan = \<lparr>pl_total_packs = card {p \<in> packs. p \<in> rf_packs r}, pl_referenced_blobs = rf_blobs r, pl_referenced_packs = rf_packs r,
        pl_obsolete_packs = obs, pl_small_packs = set (map fst (filter (\<lambda>(_, size). gt_small g size) sizes)), pl_tolerated_packs = tol,
        pl_unused_packs = {p \<in> packs. p \<notin> rf_packs r}, pl_index_ids = mi_ids (rp_index rp), pl_object_trash = trash\<rparr>"
    and rp': "rp' = rp\<lparr>rp_backend := st'\<rparr>"
    using assms(2) unfolding scan_def Let_def by (auto split: sum.splits option.splits prod.splits)
  have mark: "rf_blobs r = referenced load (snapshot_roots snapshots)" "rf_packs r = packs_of (rp_index rp) (rf_blobs r)"
    using gc_mark_props [OF assms(1,3) r] by simp_all
  note counts = count_blobs_fst [OF c] and split = check_garbage_union [OF gb]
  have "pl_small_packs plan \<subseteq> set (map fst sizes)" using plan by auto
  with counts split mark plan rp' show ?thesis by (auto simp: mi_entries_def)
qed

section \<open>Concrete instances\<close>

text \<open>Tree 1 holds tree 2 and a file with blob 3; tree 2 is empty; tree 9 and blob 8 belong to no snapshot.\<close>

definition gc_dir :: Node where
  "gc_dir = \<lparr>nd_name = ''d'', nd_type = Directory, nd_metadata = demo_meta 0, nd_symlink_info = None, nd_blobs = None, nd_tree = Some (ID [2])\<rparr>"

definition gc_file :: "ID \<Rightarrow> Node" where
  "gc_file b = \<lparr>nd_name = ''f'', nd_type = FileNode, nd_metadata = demo_meta 0, nd_symlink_info = None, nd_blobs = Some [b], nd_tree = None\<rparr>"

definition gc_load :: "ID \<Rightarrow> TreeObject result" where
  "gc_load i =
     (if i = ID [1] then Ok \<lparr>tr_nodes = [gc_dir, gc_file (ID [3])]\<rparr>
      else if i = ID [2] then Ok \<lparr>tr_nodes = []\<rparr>
      else if i = ID [9] then Ok \<lparr>tr_nodes = [gc_file (ID [8])]\<rparr>
      else Err Repo)"

lemma gc_load_finite: "finite (loadable gc_load)" "card (loadable gc_load) < 4"
proof -
  have "loadable gc_load = {ID [1], ID [2], ID [9]}" by (auto simp: loadable_def gc_load_def)
  then show "finite (loadable gc_load)" "card (loadable gc_load) < 4" by simp_all
qed

lemma gc_load_reach: "reach gc_load {ID [1]} \<subseteq> {ID [1], ID [2]}"
  by (rule reach_closed) (auto simp: gc_load_def subtrees_def gc_dir_def gc_file_def)

theorem gc_mark_exact_witness:
  "\<exists>r. get_referenced_blobs_and_packs 4 (mi_new 1) gc_load (\<lambda>k. False) 0 [Ok (ID [7], demo_snapshot 10)] = Some (Ok r) \<and>
     ID [3] \<in> rf_blobs r \<and> ID [8] \<notin> rf_blobs r"
proof -
  have roots: "snapshot_roots [Ok (ID [7], demo_snapshot 10)] = {ID [1]}" by (simp add: snapshot_roots_def demo_snapshot_def)
  have r1: "ID [1] \<in> reach gc_load {ID [1]}" by (rule reach.root) simp
  have "ID [3] \<in> referenced gc_load {ID [1]}"
    unfolding referenced_def below_def
    by (rule UnI2, rule CollectI, rule bexI [OF _ r1]) (simp add: gc_load_def data_blobs_def gc_file_def gc_dir_def)
  moreover have "ID [8] \<notin> referenced gc_load {ID [1]}"
    using gc_load_reach by (auto simp: referenced_def below_def gc_load_def data_blobs_def gc_file_def gc_dir_def)
  moreover have "\<not> (\<exists>t\<in>reach gc_load {ID [1]}. gc_load t = Err e)" for e
    using gc_load_reach by (auto simp: gc_load_def)
  moreover obtain out where out: "get_referenced_blobs_and_packs 4 (mi_new 1) gc_load (\<lambda>k. False) 0 [Ok (ID [7], demo_snapshot 10)] = Some out"
    and spec: "case out of
       Inl e \<Rightarrow> (e = Interrupted \<and> (\<exists>k::nat. False)) \<or> Inl e \<in> set [Ok (ID [7], demo_snapshot 10)] \<or> (\<exists>t\<in>reach gc_load {ID [1]}. gc_load t = Err e)
     | Inr r \<Rightarrow> rf_blobs r = referenced gc_load {ID [1]} \<and> rf_packs r = packs_of (mi_new 1) (referenced gc_load {ID [1]}) \<and>
         reach gc_load {ID [1]} \<subseteq> loadable gc_load"
    using gc_mark_exact [OF gc_load_finite, of "mi_new 1" "\<lambda>k. False" 0 "[Ok (ID [7], demo_snapshot 10)]", unfolded roots] by blast
  ultimately show ?thesis by (cases out) auto
qed

end
