(* ===== verification/Gc.thy ===== *)
theory Gc
  imports GcScan RepoFiles Lock
begin

text \<open>
  The second half of the garbage collector (\<open>repository/gc.rs\<close>): executing a plan. The deletions, the clean-up of the index, the
  repacking of live blobs and the removal of stale locks and trash are the code's; what the execution deletes, in which
  order, and that every referenced blob survives are the results.

  Three things are arguments. \<open>ge_order\<close> is the order in which a hash set is iterated. \<open>ge_join\<close> is the run of the
  pack saver's threads on the blobs that were sent to them, up to the join (\<open>PackSaver\<close> models the threads themselves); the theorems
  state what they rely on as \<open>saver_keeps\<close> and \<open>saver_saves\<close>. The flag \<open>sig k\<close> is the shutdown
  signal at the \<open>k\<close>-th test. Deletions that the code runs concurrently are run one after the other.
\<close>

record 'b gc_env =
  ge_backend :: "'b StorageBackend"
  ge_crypto :: crypto
  ge_system :: system
  ge_lock_json :: "bytes \<Rightarrow> Lock option"
  ge_index_json :: "IndexFile \<Rightarrow> bytes option"
  ge_sizing :: bloom_sizing
  ge_limits :: LoaderLimits
  ge_budget :: nat
  ge_blobs_per_index :: nat
  ge_now :: nat
  ge_nonce :: "ID \<Rightarrow> bytes"
  ge_index_nonce :: bytes
  ge_order :: "ID set \<Rightarrow> ID list"
  ge_join :: "SaveBlob list \<Rightarrow> 'b Repository \<Rightarrow> unit result \<times> 'b Repository"

record GcSizes =
  gs_added_bytes :: u64
  gs_deleted_bytes :: nat

section \<open>Locks and trash\<close>

fun remove_stale :: "'b StorageBackend \<Rightarrow> system \<Rightarrow> Lock list \<Rightarrow> nat \<Rightarrow> 'b \<Rightarrow> nat result \<times> 'b" where
  "remove_stale B sys [] size_freed st = (Ok size_freed, st)"
| "remove_stale B sys (lk # lks) size_freed st =
     (if is_stale sys lk then
        (case delete_file B LockFileType (lk_id lk) None st of
           (Inl e, st') \<Rightarrow> (Err e, st')
         | (Inr n, st') \<Rightarrow> remove_stale B sys lks (size_freed + n) st')
      else remove_stale B sys lks size_freed st)"

definition remove_expired_locks :: "'b gc_env \<Rightarrow> SecureStorage \<Rightarrow> 'b \<Rightarrow> nat result \<times> 'b" where
  "remove_expired_locks E ss st =
     (case get_locks (ge_backend E) (ge_crypto E) ss (ge_lock_json E) st of
        (Inl e, st') \<Rightarrow> (Err e, st')
      | (Inr locks, st') \<Rightarrow> remove_stale (ge_backend E) (ge_system E) locks 0 st')"

fun find_trash :: "'b StorageBackend \<Rightarrow> path list \<Rightarrow> 'b \<Rightarrow> path list \<times> 'b" where
  "find_trash B [] st = ([], st)"
| "find_trash B (dir # dirs) st =
     (case be_list_dir B st dir of
        (r, st1) \<Rightarrow>
          (case find_trash B dirs st1 of
             (found, st2) \<Rightarrow> ((case r of Inr entries \<Rightarrow> filter is_trash (map node_path entries) | Inl _ \<Rightarrow> []) @ found, st2)))"

fun remove_all :: "'b StorageBackend \<Rightarrow> path list \<Rightarrow> 'b \<Rightarrow> 'b" where
  "remove_all B [] st = st"
| "remove_all B (p # ps) st = remove_all B ps (snd (be_remove B st p))"

definition delete_trash_files :: "'b StorageBackend \<Rightarrow> path list option \<Rightarrow> 'b \<Rightarrow> 'b" where
  "delete_trash_files B object_trash st =
     (case find_trash B [[SNAPSHOTS_DIR], [INDEX_DIR], [KEYS_DIR], [LOCKS_DIR]] st of
        (trash_files, st') \<Rightarrow> remove_all B (trash_files @ (case object_trash of Some ps \<Rightarrow> ps | None \<Rightarrow> [])) st')"

section \<open>Deleting packs and index files\<close>

fun delete_try :: "'b StorageBackend \<Rightarrow> ContentIdType \<Rightarrow> ID list \<Rightarrow> nat \<Rightarrow> 'b \<Rightarrow> nat result \<times> 'b" where
  "delete_try B t [] total_size st = (Ok total_size, st)"
| "delete_try B t (i # is) total_size st =
     (case delete_file B t i None st of
        (Inl e, st') \<Rightarrow> (Err e, st')
      | (Inr n, st') \<Rightarrow> delete_try B t is (total_size + n) st')"

fun delete_lenient :: "'b StorageBackend \<Rightarrow> ContentIdType \<Rightarrow> ID list \<Rightarrow> nat \<Rightarrow> 'b \<Rightarrow> nat \<times> 'b" where
  "delete_lenient B t [] total_size st = (total_size, st)"
| "delete_lenient B t (i # is) total_size st =
     (case delete_file B t i None st of
        (Inl e, st') \<Rightarrow> delete_lenient B t is total_size st'
      | (Inr n, st') \<Rightarrow> delete_lenient B t is (total_size + n) st')"

definition delete_unused_packs :: "'b gc_env \<Rightarrow> ID set \<Rightarrow> 'b \<Rightarrow> nat result \<times> 'b" where
  "delete_unused_packs E unused st =
     (if unused = {} then (Ok 0, st) else delete_try (ge_backend E) PackFile (ge_order E unused) 0 st)"

definition delete_old_indices :: "'b gc_env \<Rightarrow> ID set \<Rightarrow> 'b Repository \<Rightarrow> nat \<times> 'b Repository" where
  "delete_old_indices E index_ids rp =
     (let old = {i \<in> index_ids. i \<notin> mi_ids (rp_index rp)}
      in if old = {} then (0, rp)
         else (case delete_lenient (ge_backend E) IndexFileType (ge_order E old) 0 (rp_backend rp) of
                 (n, st') \<Rightarrow> (n, rp\<lparr>rp_backend := st'\<rparr>)))"

definition delete_obsolete_packs :: "'b gc_env \<Rightarrow> ID set \<Rightarrow> 'b Repository \<Rightarrow> nat \<times> 'b Repository" where
  "delete_obsolete_packs E obsolete rp =
     (if obsolete = {} then (0, rp)
      else (case delete_lenient (ge_backend E) PackFile (ge_order E obsolete) 0 (rp_backend rp) of
              (n, st') \<Rightarrow> (n, rp\<lparr>rp_backend := st'\<rparr>)))"

section \<open>Repacking\<close>

definition to_repack :: "ID set \<Rightarrow> ID set \<Rightarrow> MasterIndex \<Rightarrow> (ID \<times> BlobLocator) list" where
  "to_repack refd obsolete mi = filter (\<lambda>(i, locator). i \<in> refd \<and> lo_pack_id locator \<in> obsolete) (mi_each_id mi)"

definition blob_types :: "(ID \<times> BlobLocator) list \<Rightarrow> (ID \<rightharpoonup> BlobType)" where
  "blob_types chunk = foldl (\<lambda>m (i, l). m(i \<mapsto> lo_type l)) Map.empty chunk"

fun save_loaded :: "'b gc_env \<Rightarrow> (ID \<rightharpoonup> BlobType) \<Rightarrow> (ID \<rightharpoonup> bytes) \<Rightarrow> ID list \<Rightarrow> 'b Repository \<Rightarrow> unit result \<times> 'b Repository" where
  "save_loaded E types m [] rp = (Ok (), rp)"
| "save_loaded E types m (i # is) rp =
     (case m i of
        None \<Rightarrow> save_loaded E types m is rp
      | Some data \<Rightarrow>
          (case encode_and_save_blob (ge_crypto E) (ge_nonce E i) (case types i of Some t \<Rightarrow> t | None \<Rightarrow> Data) data (WithID i) rp of
             (Inl e, rp') \<Rightarrow> (Err Repo, rp')
           | (Inr _, rp') \<Rightarrow> save_loaded E types m is rp'))"

text \<open>The keys of the loaded map: the map holds no blob that was not asked for.\<close>

definition loaded_keys :: "(ID \<times> BlobLocator) list \<Rightarrow> (ID \<rightharpoonup> bytes) \<Rightarrow> ID set" where
  "loaded_keys chunk m = {i \<in> fst ` set chunk. m i \<noteq> None}"

fun repack_loop :: "'b gc_env \<Rightarrow> (nat \<Rightarrow> bool) \<Rightarrow> nat \<Rightarrow> (ID \<times> BlobLocator) list list \<Rightarrow> 'b Repository \<Rightarrow> unit result \<times> 'b Repository" where
  "repack_loop E sig k [] rp = (Ok (), rp)"
| "repack_loop E sig k (chunk # rest) rp =
     (case load_with_locators (ge_backend E) (ge_crypto E) (rp_storage rp) (ge_limits E) chunk (rp_backend rp) of
        (Inl e, st') \<Rightarrow> (Err e, rp\<lparr>rp_backend := st'\<rparr>)
      | (Inr m, st') \<Rightarrow>
          (case save_loaded E (blob_types chunk) m (ge_order E (loaded_keys chunk m)) (rp\<lparr>rp_backend := st'\<rparr>) of
             (Inl e, rp') \<Rightarrow> (Err e, rp')
           | (Inr _, rp') \<Rightarrow>
               (case check_shutdown (sig k) of
                  Inl e \<Rightarrow> (Err e, rp')
                | Inr _ \<Rightarrow> repack_loop E sig (Suc k) rest rp')))"

definition index_cleanup :: "'b gc_env \<Rightarrow> ID set \<Rightarrow> 'b Repository \<Rightarrow> 'b Repository" where
  "index_cleanup E packs rp = rp\<lparr>rp_index := mi_cleanup (ge_blobs_per_index E) (ge_now E) (Some packs) (rp_index rp)\<rparr>"

definition repack :: "'b gc_env \<Rightarrow> (nat \<Rightarrow> bool) \<Rightarrow> ID set \<Rightarrow> ID set \<Rightarrow> 'b Repository \<Rightarrow> unit result \<times> 'b Repository" where
  "repack E sig refd obsolete rp =
     (let locators = to_repack refd obsolete (rp_index rp)
      in if locators = [] then (Ok (), rp)
         else repack_loop E sig 2 (repack_chunks (ge_budget E) locators) (index_cleanup E obsolete rp))"

section \<open>The pack saver's life cycle\<close>

definition init_pack_saver :: "'b Repository \<Rightarrow> 'b Repository" where
  "init_pack_saver rp = rp\<lparr>rp_tx := Some \<lparr>ch_sent = [], ch_closed = False\<rparr>\<rparr>"

definition index_persist_all :: "'b gc_env \<Rightarrow> 'b Repository \<Rightarrow> SizePair result \<times> 'b Repository" where
  "index_persist_all E rp =
     (case mi_persist (ge_sizing E) (ge_index_json E) (index_saver (ge_backend E) (ge_crypto E) (rp_storage rp) (ge_index_nonce E))
             (rp_index rp) (rp_backend rp) of
        (r, mi', st') \<Rightarrow> (r, rp\<lparr>rp_index := mi', rp_backend := st'\<rparr>))"

definition flush_and_finalize_pack_saver :: "'b gc_env \<Rightarrow> 'b Repository \<Rightarrow> RepoStatsSnapshot result \<times> 'b Repository" where
  "flush_and_finalize_pack_saver E rp =
     (let joined = (case rp_tx rp of None \<Rightarrow> (Ok (), rp) | Some tx \<Rightarrow> ge_join E (ch_sent tx) (rp\<lparr>rp_tx := None\<rparr>))
      in case joined of
           (Inl e, rp1) \<Rightarrow> (Err e, rp1)
         | (Inr _, rp1) \<Rightarrow>
             (case index_persist_all E rp1 of
                (Inl e, rp2) \<Rightarrow> (Err e, rp2)
              | (Inr index_size, rp2) \<Rightarrow>
                  let rp3 = rp2\<lparr>rp_stats := (rp_stats rp2)\<lparr>rs_index_raw_bytes := rs_index_raw_bytes (rp_stats rp2) + sp_raw index_size,
                        rs_index_meta_bytes := rs_index_meta_bytes (rp_stats rp2) + sp_encoded index_size\<rparr>\<rparr>
                  in (Ok (stats_snapshot (rp_stats rp3)), rp3)))"

section \<open>Executing a plan\<close>

definition repack_phase :: "'b gc_env \<Rightarrow> (nat \<Rightarrow> bool) \<Rightarrow> Plan \<Rightarrow> ID set \<Rightarrow> nat \<Rightarrow> 'b Repository \<Rightarrow> GcSizes result \<times> 'b Repository" where
  "repack_phase E sig plan obsolete deleted rp =
     (let rp1 = (if pl_unused_packs plan \<noteq> {} then index_cleanup E (pl_unused_packs plan) rp else rp)
      in case repack E sig (pl_referenced_blobs plan) obsolete (init_pack_saver rp1) of
           (Inl e, rp2) \<Rightarrow> (Err e, rp2)
         | (Inr _, rp2) \<Rightarrow>
             (case flush_and_finalize_pack_saver E rp2 of
                (Inl e, rp3) \<Rightarrow> (Err e, rp3)
              | (Inr stats, rp3) \<Rightarrow>
                  (case delete_old_indices E (pl_index_ids plan) rp3 of
                     (n, rp4) \<Rightarrow>
                       (case delete_obsolete_packs E obsolete rp4 of
                          (m, rp5) \<Rightarrow>
                            (Ok \<lparr>gs_added_bytes = sp_encoded (sp_add (sp_add (sn_data stats) (sn_meta stats)) (sn_index stats)),
                                 gs_deleted_bytes = deleted + n + m\<rparr>, rp5)))))"

definition clean_phase :: "'b gc_env \<Rightarrow> Plan \<Rightarrow> nat \<Rightarrow> 'b Repository \<Rightarrow> GcSizes result \<times> 'b Repository" where
  "clean_phase E plan deleted rp =
     (case index_persist_all E (index_cleanup E (pl_unused_packs plan) rp) of
        (Inl e, rp1) \<Rightarrow> (Err e, rp1)
      | (Inr _, rp1) \<Rightarrow>
          (case delete_old_indices E (pl_index_ids plan) rp1 of
             (n, rp2) \<Rightarrow> (Ok \<lparr>gs_added_bytes = 0, gs_deleted_bytes = deleted + n\<rparr>, rp2)))"

definition plan_obsolete :: "Plan \<Rightarrow> ID set" where
  "plan_obsolete plan = (if card (pl_small_packs plan) > 1 then pl_obsolete_packs plan \<union> pl_small_packs plan else pl_obsolete_packs plan)"

definition execute :: "'b gc_env \<Rightarrow> (nat \<Rightarrow> bool) \<Rightarrow> Plan \<Rightarrow> 'b Repository \<Rightarrow> GcSizes result \<times> 'b Repository" where
  "execute E sig plan rp =
     (case check_shutdown (sig 0) of
        Inl e \<Rightarrow> (Err e, rp)
      | Inr _ \<Rightarrow>
          (case remove_expired_locks E (rp_storage rp) (rp_backend rp) of
             (Inl e, st1) \<Rightarrow> (Err e, rp\<lparr>rp_backend := st1\<rparr>)
           | (Inr n1, st1) \<Rightarrow>
               let st2 = delete_trash_files (ge_backend E) (Some (pl_object_trash plan)) st1;
                   obsolete = plan_obsolete plan
               in (case delete_unused_packs E (pl_unused_packs plan) st2 of
                     (Inl e, st3) \<Rightarrow> (Err e, rp\<lparr>rp_backend := st3\<rparr>)
                   | (Inr n3, st3) \<Rightarrow>
                       (case check_shutdown (sig 1) of
                          Inl e \<Rightarrow> (Err e, rp\<lparr>rp_backend := st3\<rparr>)
                        | Inr _ \<Rightarrow>
                            if obsolete \<noteq> {} then repack_phase E sig plan obsolete (n1 + n3) (rp\<lparr>rp_backend := st3\<rparr>)
                            else if pl_unused_packs plan \<noteq> {} then clean_phase E plan (n1 + n3) (rp\<lparr>rp_backend := st3\<rparr>)
                            else (Ok \<lparr>gs_added_bytes = 0, gs_deleted_bytes = n1 + n3\<rparr>, rp\<lparr>rp_backend := st3\<rparr>)))))"

section \<open>What is deleted\<close>

text \<open>Every pack outside \<open>S\<close> that there was before is there afterwards, with the same contents.\<close>

definition keeps_packs :: "ID set \<Rightarrow> (path \<Rightarrow> bytes option) \<Rightarrow> (path \<Rightarrow> bytes option) \<Rightarrow> bool" where
  "keeps_packs S f f' \<longleftrightarrow> (\<forall>p d. id_ok p \<longrightarrow> p \<notin> S \<longrightarrow> f (get_path PackFile p) = Some d \<longrightarrow> f' (get_path PackFile p) = Some d)"

lemma keeps_packs_refl [simp]: "keeps_packs S f f"
  by (simp add: keeps_packs_def)

lemma keeps_packs_trans: "keeps_packs S f g \<Longrightarrow> keeps_packs T g h \<Longrightarrow> keeps_packs (S \<union> T) f h"
  by (auto simp: keeps_packs_def)

lemma keeps_packs_mono: "keeps_packs S f g \<Longrightarrow> S \<subseteq> T \<Longrightarrow> keeps_packs T f g"
  by (auto simp: keeps_packs_def)

lemma keeps_packs_trans_same: "keeps_packs S f g \<Longrightarrow> keeps_packs S g h \<Longrightarrow> keeps_packs S f h"
  by (auto simp: keeps_packs_def)

lemma other_type_apart: "t \<noteq> PackFile \<Longrightarrow> \<not> prefix (with_extension (get_path t i) e) (get_path PackFile p)"
proof
  assume t: "t \<noteq> PackFile" and pre: "prefix (with_extension (get_path t i) e) (get_path PackFile p)"
  have "with_extension (get_path t i) e \<noteq> []" using length_get_path [of t i e] by (auto split: if_splits)
  with pre have "hd (with_extension (get_path t i) e) = hd (with_extension (get_path PackFile p) [])" by (auto simp: prefix_def)
  with t show False
    unfolding hd_get_path by (cases t) (simp_all add: OBJECTS_DIR_def SNAPSHOTS_DIR_def INDEX_DIR_def KEYS_DIR_def LOCKS_DIR_def)
qed

lemma rsplit_no_dot: "CHR ''.'' \<notin> set s \<Longrightarrow> rsplit_dot s = None"
  by (simp add: rsplit_dot_def)

lemma trash_apart: "is_trash q \<Longrightarrow> \<not> prefix q (get_path PackFile p)"
proof
  assume trash: "is_trash q" and "prefix q (get_path PackFile p)"
  then obtain r where r: "get_path PackFile p = q @ r" by (auto simp: prefix_def)
  have "q \<noteq> []" using trash by (auto simp: is_trash_def extension_def file_name_def)
  then have "last q \<in> set (get_path PackFile p)" using r by simp
  then have "CHR ''.'' \<notin> set (last q)"
    using hex_name_no_dot [of p] by (auto simp: get_path_def get_object_path_def OBJECTS_DIR_def dest: in_set_takeD)
  then have "rsplit_dot (last q) = None" by (rule rsplit_no_dot)
  then have "extension q = None" using \<open>q \<noteq> []\<close> by (simp add: extension_def file_name_def)
  with trash show False by (simp add: is_trash_def)
qed

context stat_backend
begin

lemma delete_other_type:
  assumes "inv st" "t \<noteq> PackFile" "delete_file B t i None st = (r, st')"
  shows "inv st' \<and> keeps_packs S (files st) (files st')"
  using delete_file_frame [OF assms(1,3)] other_type_apart [OF assms(2), of i "[]"]
  by (auto simp: keeps_packs_def unwrap_or_default_def split: sum.splits)

lemma delete_pack:
  assumes "inv st" "id_ok i" "delete_file B PackFile i None st = (r, st')"
  shows "inv st' \<and> keeps_packs {i} (files st) (files st')"
proof -
  have "inv st' \<and> files st' (get_path PackFile p) = files st (get_path PackFile p)" if "id_ok p" "p \<noteq> i" for p
    using delete_file_other [OF assms(1,3,2) that(1), of PackFile "[]"] that(2) by simp
  moreover have "inv st'" using delete_file_frame [OF assms(1,3)] by blast
  ultimately show ?thesis by (auto simp: keeps_packs_def)
qed

lemma delete_step:
  assumes "inv st" "t = PackFile \<longrightarrow> id_ok i" "delete_file B t i None st = (r, st')"
  shows "inv st' \<and> keeps_packs (if t = PackFile then {i} else {}) (files st) (files st')"
  using delete_other_type [OF assms(1) _ assms(3)] delete_pack [OF assms(1), of i r st'] assms(2,3) by (cases "t = PackFile") auto

lemma delete_try_frame:
  assumes "inv st" "t = PackFile \<longrightarrow> (\<forall>i\<in>set is. id_ok i)" "delete_try B t is n st = (r, st')"
  shows "inv st' \<and> keeps_packs (if t = PackFile then set is else {}) (files st) (files st')"
  using assms
proof (induction "is" arbitrary: n st)
  case (Cons i "is")
  obtain r1 st1 where d: "delete_file B t i None st = (r1, st1)" by fastforce
  have "t = PackFile \<longrightarrow> id_ok i" using Cons.prems(2) by simp
  note f = delete_step [OF Cons.prems(1) this d]
  show ?case
  proof (cases r1)
    case (Inl e)
    with Cons.prems(3) d f show ?thesis by (auto elim!: keeps_packs_mono)
  next
    case (Inr m)
    have "inv st' \<and> keeps_packs (if t = PackFile then set is else {}) (files st1) (files st')"
      using Cons.prems(2,3) d Inr f by (intro Cons.IH [of st1 "n + m"]) auto
    with f show ?thesis by (auto dest: keeps_packs_trans [OF conjunct2 [OF f]] split: if_splits)
  qed
qed simp

lemma delete_lenient_frame:
  assumes "inv st" "t = PackFile \<longrightarrow> (\<forall>i\<in>set is. id_ok i)" "delete_lenient B t is n st = (m, st')"
  shows "inv st' \<and> keeps_packs (if t = PackFile then set is else {}) (files st) (files st')"
  using assms
proof (induction "is" arbitrary: n st)
  case (Cons i "is")
  obtain r1 st1 where d: "delete_file B t i None st = (r1, st1)" by fastforce
  have "t = PackFile \<longrightarrow> id_ok i" using Cons.prems(2) by simp
  note f = delete_step [OF Cons.prems(1) this d]
  obtain n' where "delete_lenient B t is n' st1 = (m, st')" using Cons.prems(3) d by (cases r1) auto
  then have "inv st' \<and> keeps_packs (if t = PackFile then set is else {}) (files st1) (files st')"
    using Cons.prems(2) f by (intro Cons.IH [of st1 n']) auto
  with f show ?case by (auto dest: keeps_packs_trans [OF conjunct2 [OF f]] split: if_splits)
qed simp

lemma read_locks_frame: "inv st \<Longrightarrow> read_locks B cr ss from_json ps st = (ls, st') \<Longrightarrow> inv st' \<and> files st' = files st"
proof (induction ps arbitrary: st ls)
  case (Cons p ps)
  obtain r st1 where rd: "be_read B st (handle_new_with_hint p LockFileType True) 0 0 = (r, st1)" by fastforce
  note f = read_file [OF Cons.prems(1) rd]
  obtain ls' where "read_locks B cr ss from_json ps st1 = (ls', st')"
    using Cons.prems(2) rd by (cases r) (auto split: prod.splits sum.splits option.splits)
  from Cons.IH [OF conjunct1 [OF f] this] f show ?case by simp
qed simp

lemma get_locks_frame:
  assumes "inv st" "get_locks B cr ss from_json st = (r, st')"
  shows "inv st' \<and> files st' = files st"
proof -
  obtain rn st1 where l: "be_list_dir B st [LOCKS_DIR] = (rn, st1)" by fastforce
  note f = list_file [OF assms(1) l]
  have "(\<exists>e. r = Err e \<and> st' = st1) \<or> (\<exists>ps ls. read_locks B cr ss from_json ps st1 = (ls, st'))"
    using assms(2) l
    by (auto simp: get_locks_def list_files_def list_files_with_extension_def list_all_files_def dir_for_type_def split: sum.splits prod.splits)
  with f read_locks_frame show ?thesis by fastforce
qed

lemma remove_stale_frame:
  "inv st \<Longrightarrow> remove_stale B sys lks n st = (r, st') \<Longrightarrow> inv st' \<and> keeps_packs {} (files st) (files st')"
proof (induction lks arbitrary: n st)
  case (Cons lk lks)
  show ?case
  proof (cases "is_stale sys lk")
    case True
    obtain r1 st1 where d: "delete_file B LockFileType (lk_id lk) None st = (r1, st1)" by fastforce
    note f = delete_other_type [OF Cons.prems(1) _ d, of "{}", simplified]
    show ?thesis
    proof (cases r1)
      case (Inl e)
      with Cons.prems(2) True d f show ?thesis by simp
    next
      case (Inr m)
      with Cons.prems(2) True d have "remove_stale B sys lks (n + m) st1 = (r, st')" by simp
      from Cons.IH [OF conjunct1 [OF f] this] f show ?thesis by (auto intro: keeps_packs_trans_same)
    qed
  qed (use Cons in simp)
qed simp

lemma find_trash_frame:
  "inv st \<Longrightarrow> find_trash B dirs st = (found, st') \<Longrightarrow> inv st' \<and> files st' = files st \<and> (\<forall>p\<in>set found. is_trash p)"
proof (induction dirs arbitrary: st found)
  case (Cons d dirs)
  obtain rn st1 where l: "be_list_dir B st d = (rn, st1)" by fastforce
  obtain found' where rest: "find_trash B dirs st1 = (found', st')" using Cons.prems(2) l by (auto split: prod.splits)
  note f = list_file [OF Cons.prems(1) l]
  from Cons.IH [OF conjunct1 [OF f] rest] f Cons.prems(2) l rest show ?case by (auto split: sum.splits)
qed simp

lemma remove_all_frame:
  "inv st \<Longrightarrow> \<forall>p\<in>set ps. is_trash p \<Longrightarrow> inv (remove_all B ps st) \<and> keeps_packs {} (files st) (files (remove_all B ps st))"
proof (induction ps arbitrary: st)
  case (Cons p ps)
  obtain r st1 where d: "be_remove B st p = (r, st1)" by fastforce
  have "is_trash p" using Cons.prems(2) by simp
  then have f: "inv st1" "keeps_packs {} (files st) (files st1)"
    using remove_file [OF Cons.prems(1) d] trash_apart by (auto simp: keeps_packs_def split: sum.splits)
  have "inv (remove_all B ps st1) \<and> keeps_packs {} (files st1) (files (remove_all B ps st1))"
    using Cons.prems(2) by (intro Cons.IH [OF f(1)]) simp
  with f(2) d show ?case by (auto intro: keeps_packs_trans_same)
qed simp

lemma delete_trash_frame:
  assumes "inv st" "\<forall>p\<in>set ps. is_trash p"
  shows "inv (delete_trash_files B (Some ps) st) \<and> keeps_packs {} (files st) (files (delete_trash_files B (Some ps) st))"
proof -
  obtain found st1 where t: "find_trash B [[SNAPSHOTS_DIR], [INDEX_DIR], [KEYS_DIR], [LOCKS_DIR]] st = (found, st1)" by fastforce
  note f = find_trash_frame [OF assms(1) t]
  have "\<forall>p\<in>set (found @ ps). is_trash p" using f assms(2) by auto
  from remove_all_frame [OF conjunct1 [OF f] this] f t show ?thesis by (simp add: delete_trash_files_def)
qed

lemma load_frame:
  assumes "inv st" "load_with_locators B cr ss lim locs st = (r, st')"
  shows "inv st' \<and> files st' = files st"
proof (cases "locs = []")
  case True
  with assms show ?thesis by (simp add: load_with_locators_def)
next
  case False
  obtain rs st1 where rs: "read_segments B (request_segments lim locs) st = (rs, st1)" by fastforce
  then have "st' = st1"
    using assms(2) False
    by (cases "all_results rs") (simp_all add: load_with_locators_def download_pack_segments_def request_segments_def [symmetric] Let_def)
  with read_segments_spec [OF assms(1) rs] show ?thesis by simp
qed

lemma save_file_frame:
  assumes "inv st" "hint_file_type hint \<noteq> PackFile" "save_file B cr ss nonce sid data hint ext st = (r, st')"
  shows "inv st' \<and> keeps_packs {} (files st) (files st')"
proof -
  have "st' = st \<or> (\<exists>i h bs r'. be_write B st h bs = (r', st') \<and> h_path h = with_extension (get_path (hint_file_type hint) i) (unwrap_or_default ext))"
    using assms(3) unfolding save_file_def Let_def file_encoding_def [symmetric]
    by (auto split: sum.splits prod.splits) (metis Handle.select_convs(1))+
  then show ?thesis
  proof
    assume "\<exists>i h bs r'. be_write B st h bs = (r', st') \<and> h_path h = with_extension (get_path (hint_file_type hint) i) (unwrap_or_default ext)"
    then obtain i h bs r' where w: "be_write B st h bs = (r', st')" "h_path h = with_extension (get_path (hint_file_type hint) i) (unwrap_or_default ext)" by blast
    have "get_path PackFile p \<noteq> h_path h" for p
      using other_type_apart [OF assms(2), of i "unwrap_or_default ext" p] w(2) by auto
    then show ?thesis using write_file [OF assms(1) w(1)] by (auto simp: keeps_packs_def split: sum.splits)
  qed (use assms(1) in simp)
qed

end

lemma mi_persist_state:
  assumes save: "\<And>s r x r'. save s r = (x, r') \<Longrightarrow> P r \<Longrightarrow> P r'" and "P r" "mi_persist sz to_json save mi r = (res, mi', r')"
  shows "P r'"
proof -
  have one: "P r'" if "P r" "mi_persist_one sz to_json save ix mi r = (x, mi', r')" for ix mi r x mi' r'
    using that save by (auto simp: mi_persist_one_def index_persist_def Let_def split: prod.splits sum.splits option.splits if_splits)
  have loop: "P r'" if "P r" "mi_persist_loop sz to_json save todo n mi r = (x, mi', r')" for todo n mi r x mi' r'
    using that
  proof (induction todo arbitrary: n mi r)
    case (Cons ix todo)
    obtain y mi1 r1 where o: "mi_persist_one sz to_json save ix mi r = (y, mi1, r1)" by (metis prod_cases3)
    from one [OF Cons.prems(1) o] Cons o show ?case by (cases y) auto
  qed simp
  obtain todo mi1 where "mi_mark mi = (todo, mi1)" by fastforce
  with assms(2,3) loop show ?thesis by (simp add: mi_persist_def)
qed

lemma mi_persist_props:
  assumes "mi_ok mi" "mi_persist sz to_json save mi r = (res, mi', r')"
  shows "mi_ok mi' \<and> mi_entries mi' = mi_entries mi \<and> mi_pending mi' = mi_pending mi"
proof -
  obtain todo mi1 where m: "mi_mark mi = (todo, mi1)" by fastforce
  note p = mi_mark_props(1-3) [OF assms(1) m]
  from mi_persist_loop_frame [OF p(1)] assms(2) m p(2,3) show ?thesis by (simp add: mi_persist_def)
qed

lemma encode_and_save_frame:
  assumes "encode_and_save_blob cr nonce t data sid rp = (r, rp')"
  shows "rp_backend rp' = rp_backend rp \<and> rp_storage rp' = rp_storage rp"
  using assms by (auto simp: encode_and_save_blob_def Let_def split: if_splits sum.splits option.splits)

lemma save_loaded_frame:
  "save_loaded E types m is rp = (r, rp') \<Longrightarrow> rp_backend rp' = rp_backend rp \<and> rp_storage rp' = rp_storage rp"
proof (induction E types m "is" rp rule: save_loaded.induct)
  case (2 E types m i "is" rp)
  show ?case
  proof (cases "m i")
    case None
    with 2 show ?thesis by simp
  next
    case (Some data)
    let ?t = "case types i of Some t \<Rightarrow> t | None \<Rightarrow> Data"
    obtain x rp1 where e: "encode_and_save_blob (ge_crypto E) (ge_nonce E i) ?t data (WithID i) rp = (x, rp1)" by fastforce
    note f = encode_and_save_frame [OF e]
    show ?thesis
    proof (cases x)
      case (Inl y)
      with 2(3) Some e f show ?thesis by simp
    next
      case (Inr y)
      with 2(3) Some e have "save_loaded E types m is rp1 = (r, rp')" by simp
      from 2(2) [OF Some e [symmetric] Inr this] f show ?thesis by simp
    qed
  qed
qed simp

text \<open>What is assumed of the order of a hash set, of a plan, and of the pack saver when it is joined: it leaves the packs that
  are there alone.\<close>

definition order_ok :: "'b gc_env \<Rightarrow> bool" where
  "order_ok E \<longleftrightarrow> (\<forall>S. finite S \<longrightarrow> set (ge_order E S) = S)"

definition plan_ok :: "Plan \<Rightarrow> bool" where
  "plan_ok plan \<longleftrightarrow> finite (pl_unused_packs plan) \<and> finite (pl_obsolete_packs plan) \<and> finite (pl_small_packs plan) \<and> finite (pl_index_ids plan) \<and>
     (\<forall>p\<in>pl_unused_packs plan \<union> pl_obsolete_packs plan \<union> pl_small_packs plan. id_ok p) \<and> (\<forall>p\<in>set (pl_object_trash plan). is_trash p)"

lemma plan_obsolete_ok: "plan_ok plan \<Longrightarrow> finite (plan_obsolete plan) \<and> (\<forall>p\<in>plan_obsolete plan. id_ok p)"
  by (auto simp: plan_ok_def plan_obsolete_def)

definition saver_keeps :: "('b \<Rightarrow> bool) \<Rightarrow> ('b \<Rightarrow> path \<Rightarrow> bytes option) \<Rightarrow> (SaveBlob list \<Rightarrow> 'b Repository \<Rightarrow> unit result \<times> 'b Repository) \<Rightarrow> bool" where
  "saver_keeps be_ok fs join \<longleftrightarrow> (\<forall>reqs rp r rp'. join reqs rp = (r, rp') \<longrightarrow> be_ok (rp_backend rp) \<longrightarrow>
     be_ok (rp_backend rp') \<and> keeps_packs {} (fs (rp_backend rp)) (fs (rp_backend rp')))"

context stat_backend
begin

lemma repack_loop_frame:
  assumes "ge_backend E = B" "inv (rp_backend rp)" "repack_loop E sig k done_chunks rp = (r, rp')"
  shows "inv (rp_backend rp') \<and> files (rp_backend rp') = files (rp_backend rp)"
  using assms
proof (induction done_chunks arbitrary: k rp)
  case (Cons chunk rest)
  obtain x st1 where l: "load_with_locators B (ge_crypto E) (rp_storage rp) (ge_limits E) chunk (rp_backend rp) = (x, st1)" by fastforce
  note f = load_frame [OF Cons.prems(2) l]
  show ?case
  proof (cases x)
    case (Inl e)
    with Cons.prems(1,3) l f show ?thesis by auto
  next
    case (Inr m)
    obtain y rp1 where s: "save_loaded E (blob_types chunk) m (ge_order E (loaded_keys chunk m)) (rp\<lparr>rp_backend := st1\<rparr>) = (y, rp1)" by fastforce
    have rp1: "rp_backend rp1 = st1" using save_loaded_frame [OF s] by simp
    show ?thesis
    proof (cases "(\<exists>e. y = Inl e) \<or> sig k")
      case True
      with Cons.prems(1,3) l Inr s f rp1 show ?thesis by (cases y) (auto simp: check_shutdown_def)
    next
      case False
      then obtain u where "y = Inr u" by (cases y) auto
      with False Cons.prems(1,3) l Inr s have "repack_loop E sig (Suc k) rest rp1 = (r, rp')" by (simp add: check_shutdown_def)
      from Cons.IH [OF Cons.prems(1) _ this] f rp1 show ?thesis by simp
    qed
  qed
qed simp

lemma repack_frame:
  assumes "ge_backend E = B" "inv (rp_backend rp)" "repack E sig refd obs rp = (r, rp')"
  shows "inv (rp_backend rp') \<and> files (rp_backend rp') = files (rp_backend rp)"
  using assms repack_loop_frame [OF assms(1), of "index_cleanup E obs rp" sig 2]
  by (auto simp: repack_def Let_def index_cleanup_def split: if_splits)

lemma index_persist_all_frame:
  assumes "ge_backend E = B" "inv (rp_backend rp)" "index_persist_all E rp = (r, rp')"
  shows "inv (rp_backend rp') \<and> keeps_packs {} (files (rp_backend rp)) (files (rp_backend rp'))"
proof -
  let ?save = "index_saver B (ge_crypto E) (rp_storage rp) (ge_index_nonce E)"
  let ?P = "\<lambda>st. inv st \<and> keeps_packs {} (files (rp_backend rp)) (files st)"
  obtain x mi' st' where p: "mi_persist (ge_sizing E) (ge_index_json E) ?save (rp_index rp) (rp_backend rp) = (x, mi', st')" by (metis prod_cases3)
  have save: "?P st2" if "?save s st1 = (y, st2)" "?P st1" for s st1 y st2
    using save_file_frame [of st1 "\<lparr>hint_file_type = IndexFileType, hint_is_metadata = True\<rparr>"] that
    by (auto simp: index_saver_def intro: keeps_packs_trans_same)
  have "?P (rp_backend rp)" using assms(2) by simp
  from mi_persist_state [of ?save ?P, OF save this p] have "?P st'" .
  moreover have "rp_backend rp' = st'" using assms(1,3) p by (auto simp: index_persist_all_def)
  ultimately show ?thesis by simp
qed

lemma flush_frame:
  assumes "ge_backend E = B" "saver_keeps inv files (ge_join E)" "inv (rp_backend rp)" "flush_and_finalize_pack_saver E rp = (r, rp')"
  shows "inv (rp_backend rp') \<and> keeps_packs {} (files (rp_backend rp)) (files (rp_backend rp'))"
proof -
  obtain x rp1 where j: "(case rp_tx rp of None \<Rightarrow> (Ok (), rp) | Some tx \<Rightarrow> ge_join E (ch_sent tx) (rp\<lparr>rp_tx := None\<rparr>)) = (x, rp1)" by fastforce
  have f1: "inv (rp_backend rp1) \<and> keeps_packs {} (files (rp_backend rp)) (files (rp_backend rp1))"
  proof (cases "rp_tx rp")
    case None
    with j assms(3) show ?thesis by auto
  next
    case (Some tx)
    with j have "ge_join E (ch_sent tx) (rp\<lparr>rp_tx := None\<rparr>) = (x, rp1)" by simp
    with assms(2,3) show ?thesis unfolding saver_keeps_def by fastforce
  qed
  obtain y rp2 where p: "index_persist_all E rp1 = (y, rp2)" by fastforce
  note f2 = index_persist_all_frame [OF assms(1) conjunct1 [OF f1] p]
  have "rp_backend rp' = rp_backend rp1 \<or> rp_backend rp' = rp_backend rp2"
    using assms(4) j p unfolding flush_and_finalize_pack_saver_def Let_def by (cases x; cases y) auto
  with f1 f2 show ?thesis by (auto intro: keeps_packs_trans_same)
qed

lemma delete_old_indices_frame:
  assumes "ge_backend E = B" "inv (rp_backend rp)" "delete_old_indices E ids rp = (n, rp')"
  shows "inv (rp_backend rp') \<and> keeps_packs {} (files (rp_backend rp)) (files (rp_backend rp')) \<and> rp_index rp' = rp_index rp"
  using assms delete_lenient_frame [OF assms(2), of IndexFileType]
  by (auto simp: delete_old_indices_def Let_def split: if_splits prod.splits)

lemma delete_obsolete_frame:
  assumes "ge_backend E = B" "order_ok E" "finite obs" "\<forall>p\<in>obs. id_ok p" "inv (rp_backend rp)" "delete_obsolete_packs E obs rp = (n, rp')"
  shows "inv (rp_backend rp') \<and> keeps_packs obs (files (rp_backend rp)) (files (rp_backend rp')) \<and> rp_index rp' = rp_index rp"
proof -
  have "set (ge_order E obs) = obs" using assms(2,3) by (simp add: order_ok_def)
  with assms delete_lenient_frame [OF assms(5), of PackFile "ge_order E obs" 0] show ?thesis
    by (auto simp: delete_obsolete_packs_def split: if_splits prod.splits)
qed

lemma index_cleanup_backend [simp]: "rp_backend (index_cleanup E ps rp) = rp_backend rp" "rp_backend (init_pack_saver rp) = rp_backend rp"
  by (simp_all add: index_cleanup_def init_pack_saver_def)

lemma repack_phase_frame:
  assumes "ge_backend E = B" "order_ok E" "saver_keeps inv files (ge_join E)" "finite obs" "\<forall>p\<in>obs. id_ok p" "inv (rp_backend rp)"
    "repack_phase E sig plan obs n rp = (r, rp')"
  shows "inv (rp_backend rp') \<and> keeps_packs (case r of Inl e \<Rightarrow> {} | Inr _ \<Rightarrow> obs) (files (rp_backend rp)) (files (rp_backend rp'))"
proof -
  let ?rp1 = "init_pack_saver (if pl_unused_packs plan \<noteq> {} then index_cleanup E (pl_unused_packs plan) rp else rp)"
  have b1: "rp_backend ?rp1 = rp_backend rp" by simp
  obtain x rp2 where rep: "repack E sig (pl_referenced_blobs plan) obs ?rp1 = (x, rp2)" by fastforce
  have f2: "inv (rp_backend rp2)" "files (rp_backend rp2) = files (rp_backend rp)"
    using repack_frame [OF assms(1) _ rep] assms(6) b1 by simp_all
  show ?thesis
  proof (cases x)
    case (Inl e)
    with assms(7) rep f2 show ?thesis by (auto simp: repack_phase_def Let_def)
  next
    case (Inr u)
    obtain y rp3 where fl: "flush_and_finalize_pack_saver E rp2 = (y, rp3)" by fastforce
    note f3 = flush_frame [OF assms(1,3) f2(1) fl, unfolded f2(2)]
    show ?thesis
    proof (cases y)
      case (Inl e)
      with assms(7) rep \<open>x = Inr u\<close> fl f3 show ?thesis by (auto simp: repack_phase_def Let_def)
    next
      case (Inr stats)
      obtain k rp4 where d4: "delete_old_indices E (pl_index_ids plan) rp3 = (k, rp4)" by fastforce
      obtain m rp5 where d5: "delete_obsolete_packs E obs rp4 = (m, rp5)" by fastforce
      note f4 = delete_old_indices_frame [OF assms(1) conjunct1 [OF f3] d4]
      note f5 = delete_obsolete_frame [OF assms(1,2,4,5) conjunct1 [OF f4] d5]
      have "rp' = rp5 \<and> (\<exists>v. r = Inr v)"
        using assms(7) rep \<open>x = Inr u\<close> fl Inr d4 d5 unfolding repack_phase_def Let_def by auto
      moreover have "keeps_packs obs (files (rp_backend rp)) (files (rp_backend rp5))"
        using f3 f4 f5 keeps_packs_trans [of "{}"] by fastforce
      ultimately show ?thesis using f5 by auto
    qed
  qed
qed

lemma clean_phase_frame:
  assumes "ge_backend E = B" "inv (rp_backend rp)" "clean_phase E plan n rp = (r, rp')"
  shows "inv (rp_backend rp') \<and> keeps_packs {} (files (rp_backend rp)) (files (rp_backend rp'))"
proof -
  obtain x rp1 where p: "index_persist_all E (index_cleanup E (pl_unused_packs plan) rp) = (x, rp1)" by fastforce
  note f1 = index_persist_all_frame [OF assms(1) _ p, simplified, OF assms(2)]
  obtain m rp2 where d: "delete_old_indices E (pl_index_ids plan) rp1 = (m, rp2)" by fastforce
  note f2 = delete_old_indices_frame [OF assms(1) conjunct1 [OF f1] d]
  have "rp' = rp1 \<or> rp' = rp2" using assms(3) p d unfolding clean_phase_def by (cases x) auto
  with f1 f2 show ?thesis by (auto intro: keeps_packs_trans_same)
qed

lemma remove_locks_frame:
  assumes "ge_backend E = B" "inv st" "remove_expired_locks E ss st = (r, st')"
  shows "inv st' \<and> keeps_packs {} (files st) (files st')"
proof -
  obtain x st1 where g: "get_locks B (ge_crypto E) ss (ge_lock_json E) st = (x, st1)" by fastforce
  note f = get_locks_frame [OF assms(2) g]
  show ?thesis
  proof (cases x)
    case (Inl e)
    with assms(1,3) g f show ?thesis by (simp add: remove_expired_locks_def)
  next
    case (Inr ls)
    with assms(1,3) g have "remove_stale B (ge_system E) ls 0 st1 = (r, st')" by (simp add: remove_expired_locks_def)
    from remove_stale_frame [OF conjunct1 [OF f] this] f show ?thesis by simp
  qed
qed

text \<open>The part of the execution up to the checkpoint, and how it goes on.\<close>

lemma execute_cases:
  assumes "ge_backend E = B" "order_ok E" "plan_ok plan" "inv (rp_backend rp)" "execute E sig plan rp = (r, rp')"
  shows "\<exists>st n. inv st \<and> keeps_packs (pl_unused_packs plan) (files (rp_backend rp)) (files st) \<and>
    ((\<exists>e. r = Err e) \<and> rp' = rp\<lparr>rp_backend := st\<rparr> \<or>
     plan_obsolete plan \<noteq> {} \<and> repack_phase E sig plan (plan_obsolete plan) n (rp\<lparr>rp_backend := st\<rparr>) = (r, rp') \<or>
     plan_obsolete plan = {} \<and> pl_unused_packs plan \<noteq> {} \<and> clean_phase E plan n (rp\<lparr>rp_backend := st\<rparr>) = (r, rp') \<or>
     plan_obsolete plan = {} \<and> pl_unused_packs plan = {} \<and> rp' = rp\<lparr>rp_backend := st\<rparr>)"
proof (cases "sig 0")
  case True
  then have "rp' = rp" "r = Err Interrupted" using assms(5) by (auto simp: execute_def check_shutdown_def)
  then show ?thesis using assms(4) by (intro exI [of _ "rp_backend rp"]) simp
next
  case False
  let ?U = "pl_unused_packs plan"
  obtain x st1 where l: "remove_expired_locks E (rp_storage rp) (rp_backend rp) = (x, st1)" by fastforce
  note f1 = remove_locks_frame [OF assms(1,4) l]
  let ?st2 = "delete_trash_files B (Some (pl_object_trash plan)) st1"
  have f2: "inv ?st2" "keeps_packs {} (files st1) (files ?st2)"
    using delete_trash_frame [OF conjunct1 [OF f1], of "pl_object_trash plan"] assms(3) by (simp_all add: plan_ok_def)
  obtain y st3 where d: "delete_unused_packs E ?U ?st2 = (y, st3)" by fastforce
  have "inv st3 \<and> keeps_packs ?U (files ?st2) (files st3)"
  proof (cases "?U = {}")
    case True
    with d f2 show ?thesis by (auto simp: delete_unused_packs_def)
  next
    case ne: False
    have "set (ge_order E ?U) = ?U" using assms(2,3) by (simp add: order_ok_def plan_ok_def)
    with delete_try_frame [OF f2(1), of PackFile "ge_order E ?U" 0 y st3] d ne assms(1,3) show ?thesis
      by (simp add: delete_unused_packs_def plan_ok_def)
  qed
  then have f3: "inv st3" "keeps_packs ?U (files (rp_backend rp)) (files st3)"
    using f1 f2(2) keeps_packs_trans [of "{}"] by (simp, metis sup_bot_left)
  have f1': "inv st1 \<and> keeps_packs ?U (files (rp_backend rp)) (files st1)" using f1 by (auto elim: keeps_packs_mono)
  note ex = assms(5) [unfolded execute_def assms(1) l Let_def]
  show ?thesis
  proof (cases x)
    case (Inl e)
    with ex False have "r = Err e" "rp' = rp\<lparr>rp_backend := st1\<rparr>" by (auto simp: check_shutdown_def)
    with f1' show ?thesis by blast
  next
    case (Inr n1)
    note x = this
    show ?thesis
    proof (cases y)
      case (Inl e)
      with ex False x d have "r = Err e" "rp' = rp\<lparr>rp_backend := st3\<rparr>" by (auto simp: check_shutdown_def)
      with f3 show ?thesis by blast
    next
      case (Inr n3)
      show ?thesis
      proof (cases "sig 1")
        case True
        with ex False x d Inr have "r = Err Interrupted" "rp' = rp\<lparr>rp_backend := st3\<rparr>" by (auto simp: check_shutdown_def)
        with f3 show ?thesis by blast
      next
        case go: False
        have "(if plan_obsolete plan \<noteq> {} then repack_phase E sig plan (plan_obsolete plan) (n1 + n3) (rp\<lparr>rp_backend := st3\<rparr>)
            else if ?U \<noteq> {} then clean_phase E plan (n1 + n3) (rp\<lparr>rp_backend := st3\<rparr>)
            else (Ok \<lparr>gs_added_bytes = 0, gs_deleted_bytes = n1 + n3\<rparr>, rp\<lparr>rp_backend := st3\<rparr>)) = (r, rp')"
          using ex False go x d Inr by (simp add: check_shutdown_def)
        with f3 show ?thesis by (intro exI [of _ st3] exI [of _ "n1 + n3"]) (auto split: if_splits)
      qed
    qed
  qed
qed

lemma execute_frame:
  assumes "ge_backend E = B" "order_ok E" "plan_ok plan" "saver_keeps inv files (ge_join E)" "inv (rp_backend rp)" "execute E sig plan rp = (r, rp')"
  shows "inv (rp_backend rp') \<and>
    keeps_packs (pl_unused_packs plan \<union> (case r of Inl e \<Rightarrow> {} | Inr _ \<Rightarrow> plan_obsolete plan)) (files (rp_backend rp)) (files (rp_backend rp'))"
proof -
  obtain st n where st: "inv st" "keeps_packs (pl_unused_packs plan) (files (rp_backend rp)) (files st)" and how:
    "(\<exists>e. r = Err e) \<and> rp' = rp\<lparr>rp_backend := st\<rparr> \<or>
     plan_obsolete plan \<noteq> {} \<and> repack_phase E sig plan (plan_obsolete plan) n (rp\<lparr>rp_backend := st\<rparr>) = (r, rp') \<or>
     plan_obsolete plan = {} \<and> pl_unused_packs plan \<noteq> {} \<and> clean_phase E plan n (rp\<lparr>rp_backend := st\<rparr>) = (r, rp') \<or>
     plan_obsolete plan = {} \<and> pl_unused_packs plan = {} \<and> rp' = rp\<lparr>rp_backend := st\<rparr>"
    using execute_cases [OF assms(1,2,3,5,6)] by blast
  have inv: "inv (rp_backend (rp\<lparr>rp_backend := st\<rparr>))" using st(1) by simp
  have "inv (rp_backend rp') \<and> keeps_packs (case r of Inl e \<Rightarrow> {} | Inr _ \<Rightarrow> plan_obsolete plan) (files st) (files (rp_backend rp'))"
    using how
  proof (elim disjE conjE)
    assume "repack_phase E sig plan (plan_obsolete plan) n (rp\<lparr>rp_backend := st\<rparr>) = (r, rp')"
    from repack_phase_frame [OF assms(1,2,4) _ _ inv this] plan_obsolete_ok [OF assms(3)] show ?thesis by simp
  next
    assume "clean_phase E plan n (rp\<lparr>rp_backend := st\<rparr>) = (r, rp')"
    from clean_phase_frame [OF assms(1) inv this] show ?thesis by (auto elim: keeps_packs_mono)
  qed (use st(1) in auto)
  then show ?thesis using keeps_packs_trans [OF st(2), of _ "files (rp_backend rp')"] by simp
qed

end

text \<open>C5: The garbage collector deletes only packs that the plan names. Whatever happens, every other pack keeps its contents; and as
  long as it has not succeeded (an error, a failed upload, an interruption at any test of the flag) no pack that was to be
  repacked is gone either, only packs that no snapshot uses.\<close>

theorem gc_deletes_only_planned:
  assumes "ge_backend E = mock_backend" "order_ok E" "plan_ok plan" "saver_keeps mb_inv mb_files (ge_join E)" "mb_inv (rp_backend rp)"
    "execute E sig plan rp = (r, rp')" "id_ok p" "p \<notin> pl_unused_packs plan" "p \<in> plan_obsolete plan \<longrightarrow> (\<exists>e. r = Err e)"
    "mb_files (rp_backend rp) (get_path PackFile p) = Some d"
  shows "mb_files (rp_backend rp') (get_path PackFile p) = Some d"
proof -
  have "p \<notin> pl_unused_packs plan \<union> (case r of Inl e \<Rightarrow> {} | Inr _ \<Rightarrow> plan_obsolete plan)"
    using assms(8,9) by (auto split: sum.splits)
  with mock_stat.execute_frame [OF assms(1-6)] assms(7,10) show ?thesis unfolding keeps_packs_def by blast
qed

section \<open>Every referenced blob survives\<close>

text \<open>The number of packs of the rebuilt indices.\<close>

lemma rebuild_packs:
  assumes "rebuild_inv ids ents n (dn, cur, nx)" "n + length pds \<le> 2 ^ 32" "\<forall>d\<in>snd ` gathered pds. pd_type d \<noteq> Padding"
    "fold (rebuild_step bpi now) pds (dn, cur, nx) = (dn', cur', nx')"
  shows "sum_list (map index_num_packs (dn' @ [cur'])) \<le> sum_list (map index_num_packs (dn @ [cur])) + length pds"
  using assms
proof (induction pds arbitrary: ids ents n dn cur nx)
  case (Cons x pds)
  obtain p dm where x: "x = (p, dm)" by fastforce
  have g: "gathered (x # pds) = {p} \<times> (snd ` set dm) \<union> gathered pds" by (auto simp: gathered_def x)
  have np: "\<forall>d\<in>snd ` gathered pds. pd_type d \<noteq> Padding" "\<And>d. d \<in> snd ` set dm \<Longrightarrow> pd_type d \<noteq> Padding"
    using Cons.prems(3) g by force+
  obtain dn1 cur1 nx1 where st1: "rebuild_step bpi now x (dn, cur, nx) = (dn1, cur1, nx1)" by (metis prod_cases3)
  have inv1: "rebuild_inv (ids \<union> pd_id ` snd ` set dm) (ents \<union> (\<lambda>d. (pd_id d, desc_locator p d)) ` snd ` set dm) (n + 1) (dn1, cur1, nx1)"
    unfolding st1 [symmetric] x by (rule rebuild_step_inv [OF Cons.prems(1)]) (use Cons.prems(2) np(2) in auto)
  have "index_ok cur" using Cons.prems(1) by (simp add: rebuild_inv_def)
  note len = index_add_pack_len [OF this, of p "sort_key pd_offset (map snd dm)"]
  have "sum_list (map index_num_packs (dn1 @ [cur1])) \<le> sum_list (map index_num_packs (dn @ [cur])) + 1"
    using st1 len by (auto simp: rebuild_step_def x Let_def index_num_packs_def set_status_def split: if_splits)
  moreover have "sum_list (map index_num_packs (dn' @ [cur'])) \<le> sum_list (map index_num_packs (dn1 @ [cur1])) + length pds"
    using Cons.prems(2,4) st1 by (intro Cons.IH [OF inv1 _ np(1)]) auto
  ultimately show ?case by simp
qed simp

definition pack_count :: "MasterIndex \<Rightarrow> nat" where
  "pack_count mi = sum_list (map index_num_packs (mi_indices mi))"

lemma cleanup_pack_count:
  assumes "mi_ok mi" "pack_count mi \<le> 2 ^ 32"
  shows "pack_count (mi_cleanup bpi now obs mi) \<le> pack_count mi"
proof -
  let ?old = "sort_key ix_instance_id (mi_indices mi)"
  let ?pds = "all_pack_descriptors obs ?old"
  obtain dn cur nx where f: "fold (rebuild_step bpi now) (sort_key fst ?pds) ([], index_new (mi_next mi) now, mi_next mi + 1) = (dn, cur, nx)"
    by (metis prod_cases3)
  have "mset (map index_num_packs ?old) = mset (map index_num_packs (mi_indices mi))" by (simp only: mset_map mset_sort)
  then have len: "length ?pds \<le> pack_count mi" unfolding pack_count_def using gather_length [of obs ?old] by (metis sum_mset_sum_list)
  have "rebuild_inv {} {} 0 ([], index_new (mi_next mi) now, mi_next mi + 1)" by (simp add: rebuild_inv_def)
  from rebuild_packs [OF this _ _ f] len assms(2) gathered_survivors(3) [of obs mi]
  have "sum_list (map index_num_packs (dn @ [cur])) \<le> pack_count mi" by (simp add: index_num_packs_def)
  moreover have "pack_count (mi_cleanup bpi now obs mi) \<le> sum_list (map index_num_packs (dn @ [cur]))"
    by (auto simp: pack_count_def mi_cleanup_def mi_merge_index_def Let_def f index_num_packs_def set_status_def)
  ultimately show ?thesis by linarith
qed

lemma cleanup_props:
  assumes "mi_ok mi" "pack_count mi \<le> 2 ^ 32"
  shows "mi_ok (mi_cleanup bpi now (Some ps) mi)" "mi_pending (mi_cleanup bpi now (Some ps) mi) = mi_pending mi"
    "(i, l) \<in> mi_entries (mi_cleanup bpi now (Some ps) mi) \<Longrightarrow> (i, l) \<in> mi_entries mi \<and> lo_pack_id l \<notin> ps"
    "(i, l) \<in> mi_entries mi \<Longrightarrow> lo_pack_id l \<notin> ps \<Longrightarrow> i \<in> mi_indexed (mi_cleanup bpi now (Some ps) mi)"
  using mi_merge_props [OF assms [unfolded pack_count_def], of bpi now "Some ps"]
  by (auto simp: mi_cleanup_def survivors_def not_obsolete_def intro: rev_image_eqI)

text \<open>Every blob of \<open>refd\<close> has an entry outside the packs \<open>U\<close>, and the packs of its entries outside \<open>U\<close> exist.\<close>

definition blobs_safe :: "ID set \<Rightarrow> (path \<Rightarrow> bytes option) \<Rightarrow> MasterIndex \<Rightarrow> ID set \<Rightarrow> bool" where
  "blobs_safe U f mi refd \<longleftrightarrow> (\<forall>b\<in>refd. (\<exists>l. (b, l) \<in> mi_entries mi \<and> lo_pack_id l \<notin> U) \<and>
     (\<forall>l. (b, l) \<in> mi_entries mi \<longrightarrow> lo_pack_id l \<notin> U \<longrightarrow> id_ok (lo_pack_id l) \<and> f (get_path PackFile (lo_pack_id l)) \<noteq> None))"

lemma blobs_safe_keeps: "blobs_safe U f mi refd \<Longrightarrow> keeps_packs U f f' \<Longrightarrow> blobs_safe U f' mi refd"
  unfolding blobs_safe_def keeps_packs_def by blast

lemma blobs_safe_cleanup:
  assumes "mi_ok mi" "pack_count mi \<le> 2 ^ 32" "blobs_safe U f mi refd"
  shows "blobs_safe {} f (mi_cleanup bpi now (Some U) mi) refd"
  unfolding blobs_safe_def
proof (intro ballI conjI allI impI)
  fix b assume b: "b \<in> refd"
  then obtain l where "(b, l) \<in> mi_entries mi" "lo_pack_id l \<notin> U" using assms(3) unfolding blobs_safe_def by blast
  then have "b \<in> mi_indexed (mi_cleanup bpi now (Some U) mi)" by (rule cleanup_props(4) [OF assms(1,2)])
  then show "\<exists>l. (b, l) \<in> mi_entries (mi_cleanup bpi now (Some U) mi) \<and> lo_pack_id l \<notin> {}"
    by (auto simp: mi_indexed_def)
  fix l assume "(b, l) \<in> mi_entries (mi_cleanup bpi now (Some U) mi)"
  from cleanup_props(3) [OF assms(1,2) this] assms(3) b
  show "id_ok (lo_pack_id l)" "f (get_path PackFile (lo_pack_id l)) \<noteq> None" unfolding blobs_safe_def by blast+
qed

text \<open>What is assumed of a successful run of the pack saver: every blob that was sent is indexed, nothing that was indexed is lost, and
  the new entries lie in packs that are stored and are not among the packs \<open>obs\<close> about to be deleted.\<close>

definition saver_saves :: "('b \<Rightarrow> bool) \<Rightarrow> ('b \<Rightarrow> path \<Rightarrow> bytes option) \<Rightarrow> ID set \<Rightarrow>
    (SaveBlob list \<Rightarrow> 'b Repository \<Rightarrow> unit result \<times> 'b Repository) \<Rightarrow> bool" where
  "saver_saves be_ok fs obs join \<longleftrightarrow> (\<forall>reqs rp rp'. join reqs rp = (Ok (), rp') \<longrightarrow> be_ok (rp_backend rp) \<longrightarrow> mi_ok (rp_index rp) \<longrightarrow>
     mi_ok (rp_index rp') \<and> mi_indexed (rp_index rp) \<union> rq_id ` set reqs \<subseteq> mi_indexed (rp_index rp') \<and>
     (\<forall>b l. (b, l) \<in> mi_entries (rp_index rp') \<longrightarrow> (b, l) \<in> mi_entries (rp_index rp) \<or>
        id_ok (lo_pack_id l) \<and> lo_pack_id l \<notin> obs \<and> fs (rp_backend rp') (get_path PackFile (lo_pack_id l)) \<noteq> None))"

text \<open>The blobs that have been sent to the saver are the pending ones.\<close>

definition sending :: "MasterIndex \<Rightarrow> 'b Repository \<Rightarrow> bool" where
  "sending mi rp \<longleftrightarrow> mi_ok (rp_index rp) \<and> mi_entries (rp_index rp) = mi_entries mi \<and>
     (\<exists>tx. rp_tx rp = Some tx \<and> sh_abs (mi_pending (rp_index rp)) \<subseteq> rq_id ` set (ch_sent tx))"

lemma encode_sending:
  assumes "sending mi rp" "encode_and_save_blob cr nonce t data (WithID i) rp = (Ok j, rp')"
  shows "sending mi rp' \<and> i \<in> sh_abs (mi_pending (rp_index rp')) \<union> mi_indexed mi \<and>
    sh_abs (mi_pending (rp_index rp)) \<subseteq> sh_abs (mi_pending (rp_index rp'))"
proof (cases "mi_contains (rp_index rp) i")
  case True
  then have "rp' = rp" using assms(2) by (simp add: encode_and_save_blob_def)
  with True assms(1) mi_contains_iff [of "rp_index rp" i] show ?thesis by (auto simp: sending_def mi_indexed_def)
next
  case False
  obtain enc tx where tx: "rp_tx rp = Some tx" and rp': "rp' = rp\<lparr>rp_tx := Some (tx\<lparr>ch_sent := ch_sent tx @ [\<lparr>rq_id = i, rq_type = t, rq_data = enc,
      rq_raw_length = word_of_nat (length data)\<rparr>]\<rparr>), rp_index := fst (mi_add_pending_blob (rp_index rp) i)\<rparr>"
    using assms(2) False by (auto simp: encode_and_save_blob_def Let_def split: sum.splits option.splits if_splits)
  obtain mi' new where a: "mi_add_pending_blob (rp_index rp) i = (mi', new)" by fastforce
  have ok: "mi_ok (rp_index rp)" using assms(1) by (simp add: sending_def)
  note p = mi_add_pending_props [OF ok a]
  have "new" using p(3) False mi_contains_iff [OF ok, of i] by simp
  with p assms(1) rp' a tx show ?thesis by (auto simp: sending_def)
qed

lemma save_loaded_sending:
  assumes "sending mi rp" "save_loaded E types m is rp = (Ok (), rp')"
  shows "sending mi rp' \<and> set is \<inter> dom m \<subseteq> sh_abs (mi_pending (rp_index rp')) \<union> mi_indexed mi \<and>
    sh_abs (mi_pending (rp_index rp)) \<subseteq> sh_abs (mi_pending (rp_index rp'))"
  using assms
proof (induction E types m "is" rp rule: save_loaded.induct)
  case (2 E types m i "is" rp)
  show ?case
  proof (cases "m i")
    case None
    with 2(1) [OF None 2(3)] 2(4) show ?thesis by auto
  next
    case (Some data)
    let ?t = "case types i of Some t \<Rightarrow> t | None \<Rightarrow> Data"
    obtain j rp1 where e: "encode_and_save_blob (ge_crypto E) (ge_nonce E i) ?t data (WithID i) rp = (Ok j, rp1)"
      and rest: "save_loaded E types m is rp1 = (Ok (), rp')" using 2(4) Some by (auto split: prod.splits sum.splits)
    note s = encode_sending [OF 2(3) e]
    from 2(2) [OF Some e [symmetric] refl conjunct1 [OF s] rest] s show ?thesis by auto
  qed
qed simp

lemma extract_blobs_dom: "extract_blobs cr ss sg data bs res = Ok m \<Longrightarrow> dom m = dom res \<union> fst ` set bs"
proof (induction bs arbitrary: res)
  case (Cons b bs)
  obtain i l a where b: "b = (i, l, a)" by (cases b)
  then obtain x where "extract_blobs cr ss sg data bs (res(i \<mapsto> x)) = Ok m"
    using Cons.prems by (auto simp: Let_def bind_result_Inr split: if_splits)
  from Cons.IH [OF this] b show ?case by auto
qed simp

lemma extract_all_dom: "extract_all cr ss sgs res = Ok m \<Longrightarrow> dom m = dom res \<union> fst ` (\<Union>sg\<in>set (map fst sgs). set (sg_blobs sg))"
proof (induction cr ss sgs res rule: extract_all.induct)
  case (2 cr ss sg data rest res)
  then obtain m1 where m1: "extract_blobs cr ss sg data (sg_blobs sg) res = Ok m1" "extract_all cr ss rest m1 = Ok m" by (auto simp: bind_result_Inr)
  from 2(1) [OF m1(2)] extract_blobs_dom [OF m1(1)] show ?case by (simp add: image_Un Un_assoc)
qed simp

lemma read_segments_fst: "read_segments B sgs st = (rs, st') \<Longrightarrow> all_results rs = Ok xs \<Longrightarrow> map fst xs = sgs"
proof (induction sgs arbitrary: st rs xs)
  case (Cons sg sgs)
  obtain r st1 where r: "read_segment B sg st = (r, st1)" by fastforce
  obtain rs1 where rs1: "read_segments B sgs st1 = (rs1, st')" "rs = r # rs1" using Cons.prems(1) r by (auto split: prod.splits)
  with Cons.prems(2) obtain x ys where x: "r = Ok x" "all_results rs1 = Ok ys" "xs = x # ys" by (auto simp: bind_result_Inr)
  have "fst x = sg" using r x(1) by (auto simp: read_segment_def Let_def split: prod.splits sum.splits)
  with Cons.IH [OF rs1(1) x(2)] x(3) show ?case by simp
qed simp

lemma load_dom:
  assumes "load_with_locators B cr ss lim locs st = (Ok m, st')"
  shows "dom m = fst ` set locs"
proof (cases "locs = []")
  case True
  with assms show ?thesis by (simp add: load_with_locators_def)
next
  case False
  obtain rs st1 where rs: "read_segments B (request_segments lim locs) st = (rs, st1)" by fastforce
  then obtain xs where xs: "all_results rs = Ok xs" "extract_all cr ss xs Map.empty = Ok m"
    using assms False
    by (cases "all_results rs") (simp_all add: load_with_locators_def download_pack_segments_def request_segments_def [symmetric] Let_def)
  have "dom m = fst ` (\<Union>sg\<in>set (request_segments lim locs). set (sg_blobs sg))"
    using extract_all_dom [OF xs(2)] read_segments_fst [OF rs xs(1)] by simp
  also have "\<dots> = fst ` (\<lambda>(i, l, _). (i, l)) ` (\<Union>sg\<in>set (request_segments lim locs). set (sg_blobs sg))"
    by (simp add: image_image case_prod_beta)
  finally show ?thesis unfolding request_segments_props(2) .
qed

lemma sending_backend [simp]: "sending mi (rp\<lparr>rp_backend := st\<rparr>) = sending mi rp"
  by (simp add: sending_def)

lemma repack_loop_sending:
  assumes "order_ok E" "sending mi rp" "repack_loop E sig k done_chunks rp = (Ok (), rp')"
  shows "sending mi rp' \<and> fst ` set (concat done_chunks) \<subseteq> sh_abs (mi_pending (rp_index rp')) \<union> mi_indexed mi \<and>
    sh_abs (mi_pending (rp_index rp)) \<subseteq> sh_abs (mi_pending (rp_index rp'))"
  using assms(2,3)
proof (induction done_chunks arbitrary: k rp)
  case (Cons chunk rest)
  obtain m st1 where l: "load_with_locators (ge_backend E) (ge_crypto E) (rp_storage rp) (ge_limits E) chunk (rp_backend rp) = (Ok m, st1)"
    using Cons.prems(2) by (auto split: prod.splits sum.splits)
  obtain rp1 where s: "save_loaded E (blob_types chunk) m (ge_order E (loaded_keys chunk m)) (rp\<lparr>rp_backend := st1\<rparr>) = (Ok (), rp1)"
    and rest: "repack_loop E sig (Suc k) rest rp1 = (Ok (), rp')"
    using Cons.prems(2) l by (auto split: prod.splits sum.splits)
  have "sending mi (rp\<lparr>rp_backend := st1\<rparr>)" using Cons.prems(1) by simp
  note f = save_loaded_sending [OF this s]
  have dom: "dom m = fst ` set chunk" using load_dom [OF l] .
  then have "loaded_keys chunk m = fst ` set chunk" unfolding loaded_keys_def by blast
  then have "set (ge_order E (loaded_keys chunk m)) = fst ` set chunk" using assms(1) by (simp add: order_ok_def)
  with f dom have "fst ` set chunk \<subseteq> sh_abs (mi_pending (rp_index rp1)) \<union> mi_indexed mi" by auto
  with Cons.IH [OF conjunct1 [OF f] rest] f show ?case by (auto simp: image_Un)
qed simp

text \<open>The state in which the saver is joined: every referenced blob is indexed outside the packs that will go, or has been sent.\<close>

definition ready :: "(path \<Rightarrow> bytes option) \<Rightarrow> ID set \<Rightarrow> ID set \<Rightarrow> 'b Repository \<Rightarrow> bool" where
  "ready f obs refd rp \<longleftrightarrow> mi_ok (rp_index rp) \<and> (\<exists>tx. rp_tx rp = Some tx \<and>
     refd \<subseteq> mi_indexed (rp_index rp) \<union> rq_id ` set (ch_sent tx)) \<and>
     (\<forall>b l. b \<in> refd \<longrightarrow> (b, l) \<in> mi_entries (rp_index rp) \<longrightarrow>
        lo_pack_id l \<notin> obs \<and> id_ok (lo_pack_id l) \<and> f (get_path PackFile (lo_pack_id l)) \<noteq> None)"

lemma repack_ready:
  assumes "order_ok E" "mi_ok (rp_index rp)" "pack_count (rp_index rp) \<le> 2 ^ 32" "sh_abs (mi_pending (rp_index rp)) = {}"
    "blobs_safe {} f (rp_index rp) refd" "repack E sig refd obs (init_pack_saver rp) = (Ok (), rp')"
  shows "ready f obs refd rp'"
proof (cases "to_repack refd obs (rp_index rp) = []")
  case True
  then have "rp' = init_pack_saver rp" using assms(6) by (simp add: repack_def Let_def init_pack_saver_def)
  moreover have "lo_pack_id l \<notin> obs" if "b \<in> refd" "(b, l) \<in> mi_entries (rp_index rp)" for b l
    using True that by (auto simp: to_repack_def filter_empty_conv mi_entries_def)
  ultimately show ?thesis
    using assms(2,5) unfolding ready_def blobs_safe_def by (force simp: init_pack_saver_def mi_indexed_def)
next
  case False
  let ?mi = "mi_cleanup (ge_blobs_per_index E) (ge_now E) (Some obs) (rp_index rp)"
  let ?rp = "index_cleanup E obs (init_pack_saver rp)"
  note clean = cleanup_props [OF assms(2,3), where bpi = "ge_blobs_per_index E" and now = "ge_now E" and ps = obs]
  have start: "sending ?mi ?rp" using clean(1,2) assms(4) by (simp add: sending_def index_cleanup_def init_pack_saver_def)
  have "repack_loop E sig 2 (repack_chunks (ge_budget E) (to_repack refd obs (rp_index rp))) ?rp = (Ok (), rp')"
    using assms(6) False by (simp add: repack_def Let_def init_pack_saver_def)
  note sent = repack_loop_sending [OF assms(1) start this]
  have all: "concat (repack_chunks (ge_budget E) (to_repack refd obs (rp_index rp))) = to_repack refd obs (rp_index rp)"
    using chunk_loop_props [of "ge_budget E" "[]" "[]" 0] by (simp add: repack_chunks_def raw_sum_def)
  obtain tx where tx: "rp_tx rp' = Some tx" "sh_abs (mi_pending (rp_index rp')) \<subseteq> rq_id ` set (ch_sent tx)"
    and ok: "mi_ok (rp_index rp')" and ent: "mi_entries (rp_index rp') = mi_entries ?mi" using sent unfolding sending_def by blast
  have ind: "mi_indexed (rp_index rp') = mi_indexed ?mi" using ent by (simp add: mi_indexed_def)
  have "b \<in> mi_indexed (rp_index rp') \<union> rq_id ` set (ch_sent tx)" if b: "b \<in> refd" for b
  proof -
    obtain l where l: "(b, l) \<in> mi_entries (rp_index rp)" using assms(5) b unfolding blobs_safe_def by blast
    show ?thesis
    proof (cases "lo_pack_id l \<in> obs")
      case True
      then have "b \<in> fst ` set (to_repack refd obs (rp_index rp))" using l b by (force simp: to_repack_def mi_entries_def)
      with sent all tx(2) ind show ?thesis by auto
    next
      case False
      with clean(4) [OF l] ind show ?thesis by blast
    qed
  qed
  moreover have "lo_pack_id l \<notin> obs \<and> id_ok (lo_pack_id l) \<and> f (get_path PackFile (lo_pack_id l)) \<noteq> None"
    if "b \<in> refd" "(b, l) \<in> mi_entries (rp_index rp')" for b l
    using clean(3) [of b l] that(2) assms(5) that(1) unfolding ent blobs_safe_def by blast
  ultimately show ?thesis using tx(1) ok unfolding ready_def by blast
qed

lemma index_persist_all_index:
  assumes "mi_ok (rp_index rp)" "index_persist_all E rp = (r, rp')"
  shows "mi_ok (rp_index rp') \<and> mi_entries (rp_index rp') = mi_entries (rp_index rp)"
proof -
  obtain x mi' st' where m: "mi_persist (ge_sizing E) (ge_index_json E)
      (index_saver (ge_backend E) (ge_crypto E) (rp_storage rp) (ge_index_nonce E)) (rp_index rp) (rp_backend rp) = (x, mi', st')"
    by (metis prod_cases3)
  have "rp' = rp\<lparr>rp_index := mi', rp_backend := st'\<rparr>" using assms(2) unfolding index_persist_all_def m by simp
  then show ?thesis using mi_persist_props [OF assms(1) m] by simp
qed

context stat_backend
begin

lemma flush_safe:
  assumes "ge_backend E = B" "saver_keeps inv files (ge_join E)" "saver_saves inv files obs (ge_join E)" "inv (rp_backend rp)"
    "ready (files (rp_backend rp)) obs refd rp" "flush_and_finalize_pack_saver E rp = (Ok s, rp')"
  shows "blobs_safe obs (files (rp_backend rp')) (rp_index rp') refd \<and>
    (\<forall>b l. b \<in> refd \<longrightarrow> (b, l) \<in> mi_entries (rp_index rp') \<longrightarrow> lo_pack_id l \<notin> obs)"
proof -
  obtain tx where tx: "rp_tx rp = Some tx" "refd \<subseteq> mi_indexed (rp_index rp) \<union> rq_id ` set (ch_sent tx)"
    using assms(5) unfolding ready_def by blast
  let ?rp = "rp\<lparr>rp_tx := None\<rparr>"
  obtain rp1 where j: "ge_join E (ch_sent tx) ?rp = (Ok (), rp1)" and "\<exists>y rp2. index_persist_all E rp1 = (Ok y, rp2) \<and> rp_index rp' = rp_index rp2 \<and> rp_backend rp' = rp_backend rp2"
    using assms(6) tx(1) unfolding flush_and_finalize_pack_saver_def Let_def by (auto split: prod.splits sum.splits)
  then obtain y rp2 where p: "index_persist_all E rp1 = (Ok y, rp2)" "rp_index rp' = rp_index rp2" "rp_backend rp' = rp_backend rp2" by blast
  have k: "inv (rp_backend rp1) \<and> keeps_packs {} (files (rp_backend rp)) (files (rp_backend rp1))"
    using assms(2) j assms(4) unfolding saver_keeps_def by fastforce
  note k2 = index_persist_all_frame [OF assms(1) conjunct1 [OF k] p(1)]
  have ok: "mi_ok (rp_index ?rp)" "inv (rp_backend ?rp)" using assms(4,5) by (simp_all add: ready_def)
  note sv = assms(3) [unfolded saver_saves_def, rule_format, OF j ok(2,1)]
  have ent: "mi_entries (rp_index rp') = mi_entries (rp_index rp1)"
    using index_persist_all_index [OF conjunct1 [OF sv] p(1)] p(2) by simp
  have each: "lo_pack_id l \<notin> obs \<and> id_ok (lo_pack_id l) \<and> files (rp_backend rp') (get_path PackFile (lo_pack_id l)) \<noteq> None"
    if "b \<in> refd" "(b, l) \<in> mi_entries (rp_index rp')" for b l
  proof -
    have "(b, l) \<in> mi_entries (rp_index rp) \<or> id_ok (lo_pack_id l) \<and> lo_pack_id l \<notin> obs \<and> files (rp_backend rp1) (get_path PackFile (lo_pack_id l)) \<noteq> None"
      using sv that(2) ent by auto
    then have "lo_pack_id l \<notin> obs \<and> id_ok (lo_pack_id l) \<and> files (rp_backend rp1) (get_path PackFile (lo_pack_id l)) \<noteq> None"
    proof
      assume "(b, l) \<in> mi_entries (rp_index rp)"
      with assms(5) that(1) have "lo_pack_id l \<notin> obs \<and> id_ok (lo_pack_id l) \<and> files (rp_backend rp) (get_path PackFile (lo_pack_id l)) \<noteq> None"
        unfolding ready_def by blast
      with k show ?thesis unfolding keeps_packs_def by blast
    qed blast
    with k2 p(3) show ?thesis unfolding keeps_packs_def by auto
  qed
  have "\<exists>l. (b, l) \<in> mi_entries (rp_index rp')" if "b \<in> refd" for b
  proof -
    have "b \<in> mi_indexed (rp_index rp1)" using tx(2) that sv by auto
    then show ?thesis using ent by (auto simp: mi_indexed_def)
  qed
  with each show ?thesis unfolding blobs_safe_def by blast
qed

lemma repack_phase_safe:
  assumes "ge_backend E = B" "order_ok E" "saver_keeps inv files (ge_join E)" "saver_saves inv files obs (ge_join E)" "finite obs" "\<forall>p\<in>obs. id_ok p"
    "inv (rp_backend rp)" "mi_ok (rp_index rp)" "pack_count (rp_index rp) \<le> 2 ^ 32" "sh_abs (mi_pending (rp_index rp)) = {}"
    "blobs_safe (pl_unused_packs plan) (files (rp_backend rp)) (rp_index rp) (pl_referenced_blobs plan)"
    "repack_phase E sig plan obs n rp = (Ok s, rp')"
  shows "blobs_safe {} (files (rp_backend rp')) (rp_index rp') (pl_referenced_blobs plan)"
proof -
  let ?refd = "pl_referenced_blobs plan"
  let ?rp1 = "if pl_unused_packs plan \<noteq> {} then index_cleanup E (pl_unused_packs plan) rp else rp"
  have b1: "rp_backend ?rp1 = rp_backend rp" by simp
  have s1: "mi_ok (rp_index ?rp1)" "pack_count (rp_index ?rp1) \<le> 2 ^ 32" "sh_abs (mi_pending (rp_index ?rp1)) = {}"
    "blobs_safe {} (files (rp_backend rp)) (rp_index ?rp1) ?refd"
    using cleanup_props(1,2) [OF assms(8,9), of "ge_blobs_per_index E" "ge_now E" "pl_unused_packs plan"]
      cleanup_pack_count [OF assms(8,9), of "ge_blobs_per_index E" "ge_now E" "Some (pl_unused_packs plan)"]
      blobs_safe_cleanup [OF assms(8,9,11), of "ge_blobs_per_index E" "ge_now E"] assms(8-11)
    by (cases "pl_unused_packs plan = {}"; simp add: index_cleanup_def)+
  obtain rp2 rp3 st where rep: "repack E sig ?refd obs (init_pack_saver ?rp1) = (Ok (), rp2)"
    and fl: "flush_and_finalize_pack_saver E rp2 = (Ok st, rp3)"
    and del: "rp' = snd (delete_obsolete_packs E obs (snd (delete_old_indices E (pl_index_ids plan) rp3)))"
    using assms(12) unfolding repack_phase_def Let_def by (auto split: prod.splits sum.splits)
  have f2: "inv (rp_backend rp2)" "files (rp_backend rp2) = files (rp_backend rp)"
    using repack_frame [OF assms(1) _ rep] assms(7) b1 by simp_all
  have "ready (files (rp_backend rp2)) obs ?refd rp2" unfolding f2(2) by (rule repack_ready [OF assms(2) s1 rep])
  note safe = flush_safe [OF assms(1,3,4) f2(1) this fl]
  note f3 = flush_frame [OF assms(1,3) f2(1) fl]
  obtain k rp4 where d4: "delete_old_indices E (pl_index_ids plan) rp3 = (k, rp4)" by fastforce
  obtain m rp5 where d5: "delete_obsolete_packs E obs rp4 = (m, rp5)" by fastforce
  note f4 = delete_old_indices_frame [OF assms(1) conjunct1 [OF f3] d4]
  note f5 = delete_obsolete_frame [OF assms(1,2,5,6) conjunct1 [OF f4] d5]
  have "keeps_packs obs (files (rp_backend rp3)) (files (rp_backend rp5))"
    using f4 f5 keeps_packs_trans [of "{}"] by fastforce
  then have "blobs_safe obs (files (rp_backend rp5)) (rp_index rp5) ?refd"
    using blobs_safe_keeps [OF conjunct1 [OF safe]] f4 f5 by simp
  moreover have "rp' = rp5" using del d4 d5 by simp
  moreover have "\<forall>b l. b \<in> ?refd \<longrightarrow> (b, l) \<in> mi_entries (rp_index rp5) \<longrightarrow> lo_pack_id l \<notin> obs" using safe f4 f5 by simp
  ultimately show ?thesis unfolding blobs_safe_def by blast
qed

lemma clean_phase_safe:
  assumes "ge_backend E = B" "inv (rp_backend rp)" "mi_ok (rp_index rp)" "pack_count (rp_index rp) \<le> 2 ^ 32"
    "blobs_safe (pl_unused_packs plan) (files (rp_backend rp)) (rp_index rp) refd" "clean_phase E plan n rp = (Ok s, rp')"
  shows "blobs_safe {} (files (rp_backend rp')) (rp_index rp') refd"
proof -
  let ?rp = "index_cleanup E (pl_unused_packs plan) rp"
  obtain y rp1 where p: "index_persist_all E ?rp = (Ok y, rp1)" and del: "rp' = snd (delete_old_indices E (pl_index_ids plan) rp1)"
    using assms(6) unfolding clean_phase_def by (auto split: prod.splits sum.splits)
  have ok: "mi_ok (rp_index ?rp)" using cleanup_props(1) [OF assms(3,4)] by (simp add: index_cleanup_def)
  have ent: "mi_entries (rp_index rp1) = mi_entries (rp_index ?rp)"
    using index_persist_all_index [OF ok p] by simp
  have "inv (rp_backend ?rp)" using assms(2) by simp
  note f1 = index_persist_all_frame [OF assms(1) this p]
  obtain m rp2 where d: "delete_old_indices E (pl_index_ids plan) rp1 = (m, rp2)" by fastforce
  note f2 = delete_old_indices_frame [OF assms(1) conjunct1 [OF f1] d]
  have "blobs_safe {} (files (rp_backend rp)) (rp_index ?rp) refd"
    using blobs_safe_cleanup [OF assms(3,4,5)] by (simp add: index_cleanup_def)
  then have "blobs_safe {} (files (rp_backend rp)) (rp_index rp2) refd" using ent f2 by (simp add: blobs_safe_def)
  moreover have "keeps_packs {} (files (rp_backend rp)) (files (rp_backend rp2))" using f1 f2 by (auto intro: keeps_packs_trans_same)
  ultimately show ?thesis using blobs_safe_keeps del d by simp
qed

lemma execute_safe:
  assumes "ge_backend E = B" "order_ok E" "plan_ok plan" "saver_keeps inv files (ge_join E)" "saver_saves inv files (plan_obsolete plan) (ge_join E)"
    "inv (rp_backend rp)" "mi_ok (rp_index rp)" "pack_count (rp_index rp) \<le> 2 ^ 32" "sh_abs (mi_pending (rp_index rp)) = {}"
    "blobs_safe (pl_unused_packs plan) (files (rp_backend rp)) (rp_index rp) (pl_referenced_blobs plan)"
    "execute E sig plan rp = (Ok s, rp')"
  shows "blobs_safe {} (files (rp_backend rp')) (rp_index rp') (pl_referenced_blobs plan)"
proof -
  obtain st n where st: "inv st" "keeps_packs (pl_unused_packs plan) (files (rp_backend rp)) (files st)" and how:
    "plan_obsolete plan \<noteq> {} \<and> repack_phase E sig plan (plan_obsolete plan) n (rp\<lparr>rp_backend := st\<rparr>) = (Ok s, rp') \<or>
     plan_obsolete plan = {} \<and> pl_unused_packs plan \<noteq> {} \<and> clean_phase E plan n (rp\<lparr>rp_backend := st\<rparr>) = (Ok s, rp') \<or>
     plan_obsolete plan = {} \<and> pl_unused_packs plan = {} \<and> rp' = rp\<lparr>rp_backend := st\<rparr>"
    using execute_cases [OF assms(1,2,3,6,11)] by blast
  note safe = blobs_safe_keeps [OF assms(10) st(2)]
  show ?thesis
    using how
  proof (elim disjE conjE)
    assume "repack_phase E sig plan (plan_obsolete plan) n (rp\<lparr>rp_backend := st\<rparr>) = (Ok s, rp')"
    from repack_phase_safe [OF assms(1,2,4,5) _ _ _ _ _ _ _ this] plan_obsolete_ok [OF assms(3)] st(1) assms(7-9) safe
    show ?thesis by simp
  next
    assume "clean_phase E plan n (rp\<lparr>rp_backend := st\<rparr>) = (Ok s, rp')"
    from clean_phase_safe [OF assms(1) _ _ _ _ this] st(1) assms(7,8) safe show ?thesis by simp
  next
    assume "pl_unused_packs plan = {}" "rp' = rp\<lparr>rp_backend := st\<rparr>"
    with safe show ?thesis by simp
  qed
qed

end


text \<open>The unused packs are deleted before the index is cleaned. An interruption that is noticed at the test in between returns with
  those packs gone and the index, in memory and on disk, as it was.\<close>

lemma gc_interrupt_dangling:
  assumes "\<not> sig 0" "sig 1" "remove_expired_locks E (rp_storage rp) (rp_backend rp) = (Ok n1, st1)"
    "delete_unused_packs E (pl_unused_packs plan) (delete_trash_files (ge_backend E) (Some (pl_object_trash plan)) st1) = (Ok n2, st2)"
  shows "execute E sig plan rp = (Err Interrupted, rp\<lparr>rp_backend := st2\<rparr>)"
  using assms by (simp add: execute_def check_shutdown_def Let_def)

section \<open>Concrete instances\<close>

text \<open>A run of the saver that stores what was sent as one pack under the name \<open>p\<close> and indexes it.\<close>

definition one_pack_join :: "ID \<Rightarrow> SaveBlob list \<Rightarrow> MockBackend Repository \<Rightarrow> unit result \<times> MockBackend Repository" where
  "one_pack_join p reqs rp =
     (if reqs = [] then (Ok (), rp)
      else if \<not> mi_room (rp_index rp) \<or> mb_files (rp_backend rp) (get_path PackFile p) \<noteq> None \<or> (\<exists>r\<in>set reqs. rq_type r = Padding)
      then (Err Repo, rp)
      else (Ok (), rp\<lparr>rp_backend := put_file (rp_backend rp) (get_path PackFile p) (concat (map rq_data reqs)),
        rp_index := fst (snd (mi_add_pack demo_limits demo_sizing (\<lambda>f. None) demo_save 0 p
          (map (\<lambda>r. \<lparr>pd_id = rq_id r, pd_type = rq_type r, pd_offset = 0, pd_length = 10, pd_raw_length = 20\<rparr>) reqs) (rp_index rp) 0))\<rparr>))"

lemma put_file_props:
  assumes "mb_inv st"
  shows "mb_inv (put_file st p d) \<and> mb_files (put_file st p d) = (mb_files st)(p := Some d)"
  using assms by (auto simp: mb_inv_def put_file_def mb_files_def mock_file_def bt_simps)

lemma one_pack_join_keeps: "saver_keeps mb_inv mb_files (one_pack_join p)"
  unfolding saver_keeps_def
proof (intro allI impI)
  fix reqs r and rp rp' :: "MockBackend Repository"
  assume j: "one_pack_join p reqs rp = (r, rp')" and inv: "mb_inv (rp_backend rp)"
  show "mb_inv (rp_backend rp') \<and> keeps_packs {} (mb_files (rp_backend rp)) (mb_files (rp_backend rp'))"
    using j inv put_file_props [OF inv] by (auto simp: one_pack_join_def keeps_packs_def split: if_splits)
qed

lemma one_pack_join_saves:
  assumes "id_ok p" "p \<notin> obs"
  shows "saver_saves mb_inv mb_files obs (one_pack_join p)"
  unfolding saver_saves_def
proof (intro allI impI)
  fix reqs and rp rp' :: "MockBackend Repository"
  assume j: "one_pack_join p reqs rp = (Ok (), rp')" and inv: "mb_inv (rp_backend rp)" and ok: "mi_ok (rp_index rp)"
  let ?ds = "map (\<lambda>r. \<lparr>pd_id = rq_id r, pd_type = rq_type r, pd_offset = 0, pd_length = 10, pd_raw_length = 20\<rparr>) reqs"
  show "mi_ok (rp_index rp') \<and> mi_indexed (rp_index rp) \<union> rq_id ` set reqs \<subseteq> mi_indexed (rp_index rp') \<and>
    (\<forall>b l. (b, l) \<in> mi_entries (rp_index rp') \<longrightarrow> (b, l) \<in> mi_entries (rp_index rp) \<or>
       id_ok (lo_pack_id l) \<and> lo_pack_id l \<notin> obs \<and> mb_files (rp_backend rp') (get_path PackFile (lo_pack_id l)) \<noteq> None)"
  proof (cases "reqs = []")
    case True
    with j ok show ?thesis by (simp add: one_pack_join_def)
  next
    case False
    obtain res mi' n where a: "mi_add_pack demo_limits demo_sizing (\<lambda>f. None) demo_save 0 p ?ds (rp_index rp) 0 = (res, mi', n)"
      by (rule prod_cases3)
    have rp': "mi_room (rp_index rp)" "\<forall>r\<in>set reqs. rq_type r \<noteq> Padding" "rp_index rp' = mi'"
      "rp_backend rp' = put_file (rp_backend rp) (get_path PackFile p) (concat (map rq_data reqs))"
      using j False a by (auto simp: one_pack_join_def split: if_splits)
    note add = mi_add_pack_props [OF ok rp'(1) a]
    have ids: "packed_ids ?ds = rq_id ` set reqs" using rp'(2) by (force simp: packed_ids_def)
    have new: "lo_pack_id l = p" if "(b, l) \<in> packed_locs p ?ds" for b l using that by (auto simp: packed_locs_def desc_locator_def)
    have there: "mb_files (rp_backend rp') (get_path PackFile p) \<noteq> None" using put_file_props [OF inv] rp'(4) by simp
    have "mi_ok (rp_index rp') \<and> mi_indexed (rp_index rp) \<union> rq_id ` set reqs \<subseteq> mi_indexed (rp_index rp')"
      using add unfolding rp'(3) ids by simp
    moreover have "(b, l) \<in> mi_entries (rp_index rp) \<or> id_ok (lo_pack_id l) \<and> lo_pack_id l \<notin> obs \<and>
        mb_files (rp_backend rp') (get_path PackFile (lo_pack_id l)) \<noteq> None" if e: "(b, l) \<in> mi_entries (rp_index rp')" for b l
    proof -
      have "(b, l) \<in> mi_entries (rp_index rp) \<or> (b, l) \<in> packed_locs p ?ds" using add e unfolding rp'(3) by auto
      then show ?thesis using new [of b l] there assms by auto
    qed
    ultimately show ?thesis by simp
  qed
qed

definition demo_sys :: system where
  "demo_sys = \<lparr>sy_now = 0, sy_hostname = None, sy_username = None, sy_pid = 1, sy_args = [], sy_pid_exists = (\<lambda>_. True)\<rparr>"

definition gc_demo :: "MockBackend gc_env" where
  "gc_demo = \<lparr>ge_backend = mock_backend, ge_crypto = demo_crypto, ge_system = demo_sys, ge_lock_json = (\<lambda>_. None), ge_index_json = (\<lambda>f. Some [1, 2, 3]),
     ge_sizing = demo_sizing, ge_limits = default_limits, ge_budget = 100, ge_blobs_per_index = 10, ge_now = 0, ge_nonce = (\<lambda>_. replicate 12 0),
     ge_index_nonce = replicate 12 0, ge_order = sorted_list_of_set, ge_join = one_pack_join (demo_id 5)\<rparr>"

text \<open>Pack 9 holds the only referenced blob, pack 8 is unused.\<close>

definition plan_demo :: Plan where
  "plan_demo = \<lparr>pl_total_packs = 1, pl_referenced_blobs = {demo_id 1}, pl_referenced_packs = {demo_id 9}, pl_obsolete_packs = {},
     pl_small_packs = {}, pl_tolerated_packs = {}, pl_unused_packs = {demo_id 8}, pl_index_ids = {}, pl_object_trash = []\<rparr>"

definition rp_demo :: "MockBackend Repository" where
  "rp_demo = demo_repo\<lparr>rp_storage := \<lparr>ss_level = 3, ss_key = None\<rparr>,
     rp_index := mi_add_index (mi_new 2) demo_index,
     rp_backend := put_file (put_file (mock_new 0) (get_path PackFile (demo_id 9)) (replicate 20 4)) (get_path PackFile (demo_id 8)) [7]\<rparr>"

lemma demo_paths: "get_path PackFile (demo_id 9) \<noteq> get_path PackFile (demo_id 8)"
  using path_inject [of "demo_id 9" "demo_id 8" PackFile "[]" PackFile "[]"] by auto

lemma rp_demo_store:
  "mb_inv (rp_backend rp_demo)" "mb_files (rp_backend rp_demo) (get_path PackFile (demo_id 9)) = Some (replicate 20 4)"
  "mb_files (rp_backend rp_demo) (get_path PackFile (demo_id 8)) = Some [7]"
  using put_file_props [OF demo_store(1)] put_file_props demo_paths by (simp_all add: rp_demo_def)

lemma gc_demo_ok: "order_ok gc_demo" "plan_ok plan_demo" "ge_backend gc_demo = mock_backend"
  "saver_keeps mb_inv mb_files (ge_join gc_demo)" "saver_saves mb_inv mb_files (plan_obsolete plan_demo) (ge_join gc_demo)"
  using one_pack_join_keeps one_pack_join_saves by (simp_all add: gc_demo_def order_ok_def plan_ok_def plan_demo_def plan_obsolete_def)

theorem gc_deletes_only_planned_witness:
  "mb_files (rp_backend (snd (execute gc_demo (\<lambda>_. False) plan_demo rp_demo))) (get_path PackFile (demo_id 9)) = Some (replicate 20 4)"
  by (rule gc_deletes_only_planned [OF gc_demo_ok(3,1,2,4) rp_demo_store(1) prod.collapse [symmetric] _ _ _ rp_demo_store(2)])
    (simp_all add: plan_demo_def plan_obsolete_def)

lemma rp_demo_index: "mi_ok (rp_index rp_demo)" "pack_count (rp_index rp_demo) \<le> 2 ^ 32" "sh_abs (mi_pending (rp_index rp_demo)) = {}"
  "blobs_safe (pl_unused_packs plan_demo) (mb_files (rp_backend rp_demo)) (rp_index rp_demo) (pl_referenced_blobs plan_demo)"
proof -
  show "mi_ok (rp_index rp_demo)" using demo_mi(1) by (simp add: rp_demo_def)
  have one: "is_len (ix_pack_ids demo_index) = 1"
    by (simp add: demo_index_def index_add_pack_def index_new_def is_insert_def is_new_def is_len_def)
  then show "pack_count (rp_index rp_demo) \<le> 2 ^ 32" by (simp add: rp_demo_def mi_add_index_def mi_new_def index_num_packs_def pack_count_def)
  show "sh_abs (mi_pending (rp_index rp_demo)) = {}" by (simp add: rp_demo_def mi_add_index_def mi_new_def)
  have iter: "set (iter_ids demo_index) \<subseteq> {(demo_id 1, desc_locator (demo_id 9) demo_desc)}"
    using index_add_pack_iter [OF index_ok_new index_new_simps(2), of 1 0 "demo_id 9" "[demo_desc]"]
    by (auto simp: demo_index_def demo_desc_def packed_locs_def demo_id_def)
  have "index_get demo_index (demo_id 1) = Some (desc_locator (demo_id 9) demo_desc)"
    using index_add_pack_props [OF index_ok_new index_new_simps(2), of 1 0 "demo_id 9" "[demo_desc]"]
    by (simp add: index_get_abs demo_index_def demo_id_def spec_add_def demo_desc_def)
  from index_get_entry [OF demo_index_ok(1) this] iter
  have "set (iter_ids demo_index) = {(demo_id 1, desc_locator (demo_id 9) demo_desc)}" by blast
  then have "mi_entries (rp_index rp_demo) = {(demo_id 1, desc_locator (demo_id 9) demo_desc)}"
    using mi_add_index_props(2) [OF mi_ok_new demo_index_ok(1), of 2] by (simp add: rp_demo_def)
  then show "blobs_safe (pl_unused_packs plan_demo) (mb_files (rp_backend rp_demo)) (rp_index rp_demo) (pl_referenced_blobs plan_demo)"
    using rp_demo_store(2) by (auto simp: blobs_safe_def plan_demo_def desc_locator_def)
qed

text \<open>On the mock backend, a repository that holds only packs has no locks and no trash.\<close>

definition only_packs :: "MockBackend \<Rightarrow> bool" where
  "only_packs st \<longleftrightarrow> mb_hooks st = [] \<and> (\<forall>(q, n)\<in>set (mb_nodes st). hd q = OBJECTS_DIR)"

lemma list_nothing: "(\<forall>(q, n)\<in>set nodes. hd q \<noteq> d) \<Longrightarrow> mb_list_loop [d] nodes [] = []"
  by (induction nodes) (auto simp: prefix_def)

lemma only_packs_list:
  assumes "only_packs st" "d \<noteq> OBJECTS_DIR"
  shows "\<exists>h. be_list_dir mock_backend st [d] = (Ok [], st\<lparr>mb_history := h\<rparr>)"
proof -
  have "mb_list_loop [d] (mb_nodes st) [] = []" using assms by (intro list_nothing) (auto simp: only_packs_def)
  then show ?thesis using assms(1) by (auto simp: mock_backend_def mb_list_dir_def mb_exec_no_hooks only_packs_def as_nodes_def)
qed

lemma only_packs_history [simp]: "only_packs (st\<lparr>mb_history := h\<rparr>) = only_packs st"
  by (simp add: only_packs_def)

lemma dirs_apart: "LOCKS_DIR \<noteq> OBJECTS_DIR" "SNAPSHOTS_DIR \<noteq> OBJECTS_DIR" "INDEX_DIR \<noteq> OBJECTS_DIR" "KEYS_DIR \<noteq> OBJECTS_DIR"
  by (simp_all add: LOCKS_DIR_def SNAPSHOTS_DIR_def INDEX_DIR_def KEYS_DIR_def OBJECTS_DIR_def)

lemma no_locks: "only_packs st \<Longrightarrow> ge_backend E = mock_backend \<Longrightarrow> \<exists>h. remove_expired_locks E ss st = (Ok 0, st\<lparr>mb_history := h\<rparr>)"
  using only_packs_list [OF _ dirs_apart(1), of st]
  by (auto simp: remove_expired_locks_def get_locks_def list_files_def list_files_with_extension_def list_all_files_def dir_for_type_def)

lemma find_nothing: "only_packs st \<Longrightarrow> \<forall>d\<in>set ds. d \<noteq> OBJECTS_DIR \<Longrightarrow> \<exists>h. find_trash mock_backend (map (\<lambda>d. [d]) ds) st = ([], st\<lparr>mb_history := h\<rparr>)"
proof (induction ds arbitrary: st)
  case Nil
  then show ?case by (intro exI [of _ "mb_history st"]) simp
next
  case (Cons d ds)
  obtain h where l: "be_list_dir mock_backend st [d] = (Ok [], st\<lparr>mb_history := h\<rparr>)" using only_packs_list [of st d] Cons.prems by auto
  with Cons.IH [of "st\<lparr>mb_history := h\<rparr>"] Cons.prems show ?case by auto
qed

lemma no_trash: "only_packs st \<Longrightarrow> \<exists>h. delete_trash_files mock_backend (Some []) st = st\<lparr>mb_history := h\<rparr>"
  using find_nothing [of st "[SNAPSHOTS_DIR, INDEX_DIR, KEYS_DIR, LOCKS_DIR]"] dirs_apart by (auto simp: delete_trash_files_def)

text \<open>Saving the index files succeeds as long as their path is not a directory.\<close>

lemma mi_persist_Ok:
  assumes json: "\<And>f. to_json f = Some s" and save: "\<And>r. P r \<Longrightarrow> \<exists>x r'. save s r = (Ok x, r') \<and> P r'" and "P r"
  shows "\<exists>n mi' r'. mi_persist sz to_json save mi r = (Ok n, mi', r')"
proof -
  have one: "\<exists>n mi' r'. mi_persist_one sz to_json save ix mi r = (Ok n, mi', r') \<and> P r'" if "P r" for ix mi r
    using save [OF that] that by (auto simp: mi_persist_one_def index_persist_def Let_def json split: prod.splits)
  have "\<exists>n mi' r'. mi_persist_loop sz to_json save todo k mi r = (Ok n, mi', r')" if "P r" for todo k mi r
    using that
  proof (induction todo arbitrary: k mi r)
    case (Cons ix todo)
    obtain n mi1 r1 where o: "mi_persist_one sz to_json save ix mi r = (Ok n, mi1, r1)" "P r1" using one [OF Cons.prems] by blast
    with Cons.IH [OF o(2), of "sp_add k n" mi1] show ?case by simp
  qed simp
  then show ?thesis using assms(3) by (auto simp: mi_persist_def split: prod.splits)
qed

lemma mock_index_saver_Ok:
  assumes "mb_inv st" "ss_encode cr ss nonce s = Ok d" "\<forall>m. hm_get (mb_nodes st) (get_path IndexFileType (cr_hash cr d)) \<noteq> Some (MDir m)"
  shows "\<exists>x st'. index_saver mock_backend cr ss nonce s st = (Ok x, st') \<and> mb_inv st' \<and>
    (\<forall>m. hm_get (mb_nodes st') (get_path IndexFileType (cr_hash cr d)) \<noteq> Some (MDir m))"
proof -
  let ?p = "get_path IndexFileType (cr_hash cr d)"
  let ?h = "\<lparr>h_path = ?p, h_hint = Some \<lparr>hint_file_type = IndexFileType, hint_is_metadata = True\<rparr>\<rparr>"
  obtain r st' where w: "be_write mock_backend st ?h d = (r, st')" by fastforce
  have r: "r = Ok ()" using w assms(1,3) by (auto simp: mock_backend_def mb_write_def mb_exec_no_hooks mb_inv_def as_unit_def Let_def split: option.splits MockNode.splits)
  have "mb_inv st' \<and> mb_files st' ?p = Some d" using mock.write_file [OF assms(1) w] r by simp
  then show ?thesis using w r assms(2)
    by (auto simp: index_saver_def save_file_def Let_def unwrap_or_default_def mb_files_def split: option.splits)
qed

lemma fold_bt_remove_subset: "set (fold bt_remove ks nodes) \<subseteq> set nodes"
proof (induction ks arbitrary: nodes)
  case (Cons k ks)
  have "set (bt_remove k nodes) \<subseteq> set nodes" by (auto simp: bt_remove_def)
  with Cons.IH [of "bt_remove k nodes"] show ?case by auto
qed simp

lemma mock_delete_Ok:
  assumes "mb_hooks st = []" "mb_files st (get_path t i) \<noteq> None"
  shows "\<exists>n st'. delete_file mock_backend t i None st = (Ok n, st') \<and> mb_hooks st' = [] \<and> set (mb_nodes st') \<subseteq> set (mb_nodes st)"
proof -
  let ?p = "get_path t i"
  obtain n where n: "hm_get (mb_nodes st) ?p = Some n" using assms(2) by (auto simp: mb_files_def split: option.splits)
  then have "?p \<in> set (map fst (mb_nodes st))" by (force dest: map_of_SomeD)
  then have "filter (\<lambda>q. q = ?p \<or> prefix ?p q) (map fst (mb_nodes st)) \<noteq> []" unfolding filter_empty_conv by blast
  with n assms(1) fold_bt_remove_subset show ?thesis
    by (auto simp: delete_file_def Let_def mock_backend_def mb_lstat_def mb_remove_def mb_exec_no_hooks as_attr_def as_unit_def unwrap_or_default_def
        split: prod.splits MockNode.splits)
qed

lemma gc_demo_runs: "\<exists>s rp'. execute gc_demo (\<lambda>_. False) plan_demo rp_demo = (Ok s, rp')"
proof -
  let ?st = "rp_backend rp_demo" and ?ss = "rp_storage rp_demo"
  have packs: "only_packs ?st"
    by (auto simp: only_packs_def rp_demo_def put_file_def mock_new_def get_path_def get_object_path_def bt_simps)
  obtain h1 where l: "remove_expired_locks gc_demo ?ss ?st = (Ok 0, ?st\<lparr>mb_history := h1\<rparr>)"
    using no_locks [OF packs gc_demo_ok(3)] by blast
  obtain h2 where t: "delete_trash_files mock_backend (Some []) (?st\<lparr>mb_history := h1\<rparr>) = ?st\<lparr>mb_history := h2\<rparr>"
    using no_trash [of "?st\<lparr>mb_history := h1\<rparr>"] packs by auto
  have there: "mb_files (?st\<lparr>mb_history := h2\<rparr>) (get_path PackFile (demo_id 8)) \<noteq> None" using rp_demo_store(3) by (simp add: mb_files_def)
  have "mb_hooks (?st\<lparr>mb_history := h2\<rparr>) = []" using packs by (simp add: only_packs_def)
  from mock_delete_Ok [OF this there] obtain n st3 where del: "delete_file mock_backend PackFile (demo_id 8) None (?st\<lparr>mb_history := h2\<rparr>) = (Ok n, st3)"
    and st3: "mb_hooks st3 = []" "set (mb_nodes st3) \<subseteq> set (mb_nodes ?st)" by auto
  have "mb_inv (?st\<lparr>mb_history := h2\<rparr>)" using rp_demo_store(1) by (simp add: mb_inv_def)
  from mock_stat.delete_file_frame [OF this del] have inv: "mb_inv st3" by simp
  have un: "delete_unused_packs gc_demo {demo_id 8} (?st\<lparr>mb_history := h2\<rparr>) = (Ok n, st3)"
    using del by (simp add: delete_unused_packs_def gc_demo_def)
  have "\<exists>n' rp'. index_persist_all gc_demo (index_cleanup gc_demo {demo_id 8} (rp_demo\<lparr>rp_backend := st3\<rparr>)) = (Ok n', rp')"
  proof -
    have enc: "ss_encode demo_crypto ?ss (replicate 12 0) [1, 2, 3] = Ok [1, 2, 3]"
      by (simp add: ss_encode_def transform_into_def ss_compress_def demo_crypto_def rp_demo_def)
    let ?p = "get_path IndexFileType (cr_hash demo_crypto [1, 2, 3])"
    let ?P = "\<lambda>st. mb_inv st \<and> (\<forall>m. hm_get (mb_nodes st) ?p \<noteq> Some (MDir m))"
    have "hd ?p = INDEX_DIR" by (simp add: get_path_def)
    then have "(?p, MDir m) \<notin> set (mb_nodes ?st)" for m using packs dirs_apart(3) unfolding only_packs_def by fastforce
    then have "?P st3" using inv st3(2) by (auto dest!: map_of_SomeD)
    from mi_persist_Ok [where P = ?P, OF _ _ this, of "\<lambda>f. Some [1, 2, 3]" "[1, 2, 3]"] mock_index_saver_Ok [OF _ enc]
    have "\<exists>n mi' st'. mi_persist demo_sizing (\<lambda>f. Some [1, 2, 3]) (index_saver mock_backend demo_crypto ?ss (replicate 12 0))
        (mi_cleanup 10 0 (Some {demo_id 8}) (rp_index rp_demo)) st3 = (Ok n, mi', st')"
      by blast
    then show ?thesis by (auto simp: index_persist_all_def index_cleanup_def gc_demo_def split: prod.splits)
  qed
  then obtain n' rp' where "index_persist_all gc_demo (index_cleanup gc_demo {demo_id 8} (rp_demo\<lparr>rp_backend := st3\<rparr>)) = (Ok n', rp')" by blast
  then have "\<exists>s rp'. clean_phase gc_demo plan_demo n (rp_demo\<lparr>rp_backend := st3\<rparr>) = (Ok s, rp')"
    by (simp add: clean_phase_def plan_demo_def split: prod.splits)
  then show ?thesis using l t un by (simp add: execute_def check_shutdown_def Let_def plan_obsolete_def plan_demo_def gc_demo_ok(3))
qed


end
