(* ===== verification/Clean.thy ===== *)
theory Clean
  imports Gc
begin

text \<open>
  The clean command (\<open>commands/cmd_clean.rs\<close>): the index is reloaded, the garbage collector scans and, unless this is a dry
  run, executes its plan. The result composes \<open>GcScan\<close> and \<open>Gc\<close>: whatever the outcome, no blob that a snapshot reaches is lost.

  The tolerance is a floating-point number; \<open>tol no_repack\<close> are the comparisons it leads to (\<open>gc_thresholds\<close>). The shutdown flag
  is read inside the two phases (\<open>cs_scan\<close>, \<open>cs_execute\<close>) and once more when one of them fails (\<open>cs_scan_end\<close>, \<open>cs_execute_end\<close>).
  Logging, hooks, progress events and the elapsed time are left out.
\<close>

datatype CleanError = RepoOpenFail MapacheError | ScanFailed MapacheError | ExecuteFailed MapacheError | CleanInterrupted | CleanRepo MapacheError | CleanIo

fun to_exit_code :: "CleanError \<Rightarrow> int" where
  "to_exit_code (RepoOpenFail _) = 10"
| "to_exit_code (ScanFailed _) = 20"
| "to_exit_code (ExecuteFailed _) = 30"
| "to_exit_code CleanInterrupted = 130"
| "to_exit_code (CleanRepo _) = 1"
| "to_exit_code CleanIo = 1"

record CleanArgs =
  ca_no_repack :: bool
  ca_dry_run :: bool

record CleanOutput =
  co_total_packs :: nat
  co_referenced_blobs :: nat
  co_referenced_packs :: nat
  co_unused_packs :: nat
  co_obsolete_packs :: nat
  co_small_packs :: nat
  co_tolerated_packs :: nat
  co_added_bytes :: u64
  co_deleted_bytes :: nat
  co_net_freed_bytes :: int

record clean_signals =
  cs_scan :: "nat \<Rightarrow> bool"
  cs_scan_end :: bool
  cs_execute :: "nat \<Rightarrow> bool"
  cs_execute_end :: bool

definition clean_output :: "Plan \<Rightarrow> GcSizes \<Rightarrow> CleanOutput" where
  "clean_output plan sizes =
     \<lparr>co_total_packs = pl_total_packs plan, co_referenced_blobs = card (pl_referenced_blobs plan),
      co_referenced_packs = card (pl_referenced_packs plan), co_unused_packs = card (pl_unused_packs plan),
      co_obsolete_packs = card (pl_obsolete_packs plan), co_small_packs = card (pl_small_packs plan),
      co_tolerated_packs = card (pl_tolerated_packs plan), co_added_bytes = gs_added_bytes sizes, co_deleted_bytes = gs_deleted_bytes sizes,
      co_net_freed_bytes = sint (word_of_nat (gs_deleted_bytes sizes) :: u64) - sint (gs_added_bytes sizes)\<rparr>"

definition run_with_repo :: "'b gc_env \<Rightarrow> (bytes \<Rightarrow> IndexFile option) \<Rightarrow> (bool \<Rightarrow> gc_thresholds) \<Rightarrow> nat \<Rightarrow> nat \<Rightarrow> (ID \<Rightarrow> TreeObject result) \<Rightarrow>
    (ID \<times> Snapshot) result list \<Rightarrow> clean_signals \<Rightarrow> CleanArgs \<Rightarrow> 'b Repository \<Rightarrow> (CleanError + CleanOutput) option \<times> 'b Repository" where
  "run_with_repo E from_json tol fuel depth load snapshots sg args rp =
     (case reload_master_index (ge_backend E) (ge_crypto E) from_json (ge_sizing E) (ge_now E) rp of
        (Inl e, rp1) \<Rightarrow> (Some (Inl (ExecuteFailed e)), rp1)
      | (Inr _, rp1) \<Rightarrow>
          (case scan fuel depth (tol (ca_no_repack args)) (ge_backend E) load (cs_scan sg) snapshots rp1 of
             (None, rp2) \<Rightarrow> (None, rp2)
           | (Some (Inl e), rp2) \<Rightarrow> (Some (Inl (if cs_scan_end sg then CleanInterrupted else ScanFailed e)), rp2)
           | (Some (Inr plan), rp2) \<Rightarrow>
               if ca_dry_run args then (Some (Inr (clean_output plan \<lparr>gs_added_bytes = 0, gs_deleted_bytes = 0\<rparr>)), rp2)
               else (case execute E (cs_execute sg) plan rp2 of
                       (Inl e, rp3) \<Rightarrow> (Some (Inl (if cs_execute_end sg then CleanInterrupted else ExecuteFailed e)), rp3)
                     | (Inr sizes, rp3) \<Rightarrow> (Some (Inr (clean_output plan sizes)), rp3))))"

section \<open>The plans of a scan\<close>

lemma sort_objects_props:
  assumes "finite packs" "\<forall>p\<in>packs. id_ok p" "\<forall>p\<in>set trash. is_trash p" "sort_objects ps packs trash = (packs', trash')"
  shows "finite packs' \<and> (\<forall>p\<in>packs'. id_ok p) \<and> (\<forall>p\<in>set trash'. is_trash p)"
  using assms
proof (induction ps packs trash rule: sort_objects.induct)
  case (2 p ps packs trash)
  show ?case
  proof (cases "file_name p")
    case None
    then show ?thesis using 2(1) [OF None 2(5-7)] 2(8) by simp
  next
    case (Some n)
    show ?thesis
    proof (cases "name_id n")
      case (Inl e)
      show ?thesis
      proof (cases "is_trash p")
        case True
        then have "\<forall>q\<in>set (trash @ [p]). is_trash q" using 2(7) by simp
        from 2(2) [OF Some Inl True 2(5,6) this] 2(8) Some Inl True show ?thesis by simp
      next
        case False
        from 2(3) [OF Some Inl False 2(5-7)] 2(8) Some Inl False show ?thesis by simp
      qed
    next
      case (Inr i)
      then have "id_ok i" by (auto simp: name_id_def dest: from_hex_id_ok)
      then have "finite (insert i packs)" "\<forall>q\<in>insert i packs. id_ok q" using 2(5,6) by simp_all
      from 2(4) [OF Some Inr this 2(7)] 2(8) Some Inr show ?thesis by simp
    qed
  qed
qed simp

lemma scan_total:
  assumes "finite (loadable load)" "card (loadable load) < fuel"
  shows "\<exists>r rp'. scan fuel depth g B load sig snapshots rp = (Some r, rp')"
proof -
  obtain out where "get_referenced_blobs_and_packs fuel (rp_index rp) load sig 1 snapshots = Some out"
    using gc_mark_core [OF assms] by blast
  then show ?thesis by (auto simp: scan_def Let_def split: sum.splits prod.splits)
qed

context stat_backend
begin

lemma list_nodes_frame:
  assumes "\<And>st p r st'. inv st \<Longrightarrow> rec st p = (r, st') \<Longrightarrow> inv st' \<and> files st' = files st" "inv st" "list_nodes rec ns st = (r, st')"
  shows "inv st' \<and> files st' = files st"
  using assms(2,3)
proof (induction ns arbitrary: st r st')
  case (Cons n ns)
  show ?case
  proof (cases n)
    case (NodeFile p k)
    obtain r1 st1 where l: "list_nodes rec ns st = (r1, st1)" by fastforce
    with Cons.IH [OF Cons.prems(1) l] Cons.prems(2) NodeFile show ?thesis by (auto split: sum.splits)
  next
    case (NodeDir p)
    obtain r1 st1 where d: "rec st p = (r1, st1)" by fastforce
    note f1 = assms(1) [OF Cons.prems(1) d]
    obtain r2 st2 where l: "list_nodes rec ns st1 = (r2, st2)" by fastforce
    from Cons.IH [OF conjunct1 [OF f1] l] f1 Cons.prems(2) NodeDir d l show ?thesis by (auto split: sum.splits)
  qed
qed simp

lemma list_dir_recursive_frame:
  "inv st \<Longrightarrow> list_dir_recursive depth B st p = (r, st') \<Longrightarrow> inv st' \<and> files st' = files st"
proof (induction depth arbitrary: st p r st')
  case (Suc depth)
  obtain r1 st1 where l: "be_list_dir B st p = (r1, st1)" by fastforce
  note f1 = list_file [OF Suc.prems(1) l]
  show ?case
  proof (cases r1)
    case (Inl e)
    with Suc.prems(2) l f1 show ?thesis by simp
  next
    case (Inr nodes)
    with Suc.prems(2) l have "list_nodes (list_dir_recursive depth B) nodes st1 = (r, st')" by simp
    from list_nodes_frame [OF Suc.IH conjunct1 [OF f1] this] f1 show ?thesis by simp
  qed
qed simp

lemma list_packs_frame:
  assumes "inv st" "list_packs_and_trash depth B st = (r, st')"
  shows "inv st' \<and> files st' = files st \<and>
    (case r of Inr (packs, trash) \<Rightarrow> finite packs \<and> (\<forall>p\<in>packs. id_ok p) \<and> (\<forall>p\<in>set trash. is_trash p) | Inl e \<Rightarrow> True)"
proof -
  obtain r1 st1 where l: "list_dir_recursive depth B st [OBJECTS_DIR] = (r1, st1)" by fastforce
  have "inv st1 \<and> files st1 = files st" by (rule list_dir_recursive_frame [OF assms(1) l])
  moreover have "finite packs \<and> (\<forall>p\<in>packs. id_ok p) \<and> (\<forall>p\<in>set trash. is_trash p)"
    if "sort_objects (map node_path ns) {} [] = (packs, trash)" for ns packs trash
    by (rule sort_objects_props [OF _ _ _ that]) simp_all
  ultimately show ?thesis using assms(2) l by (cases r1) (auto simp: list_packs_and_trash_def split: prod.splits)
qed

lemma scan_frame:
  assumes "inv (rp_backend rp)" "scan fuel depth g B load sig snapshots rp = (Some r, rp')"
  shows "inv (rp_backend rp') \<and> files (rp_backend rp') = files (rp_backend rp) \<and> rp_index rp' = rp_index rp"
proof -
  obtain r1 st1 where l: "list_packs_and_trash depth B (rp_backend rp) = (r1, st1)" by fastforce
  have "rp' = rp \<or> rp' = rp\<lparr>rp_backend := st1\<rparr>"
    using assms(2) l unfolding scan_def Let_def by (auto split: sum.splits option.splits prod.splits)
  with list_packs_frame [OF assms(1) l] assms(1) show ?thesis by auto
qed

lemma scan_plan_ok:
  assumes "inv (rp_backend rp)" "finite (loadable load)" "card (loadable load) < fuel" "\<forall>(b, l)\<in>mi_entries (rp_index rp). id_ok (lo_pack_id l)"
    "scan fuel depth g B load sig snapshots rp = (Some (Ok plan), rp')"
  shows "plan_ok plan"
proof -
  let ?P = "{lo_pack_id l | i l. (i, l) \<in> mi_entries (rp_index rp)}"
  note sound = scan_plan_sound [OF assms(2,5,3)]
  obtain packs trash st1 where l: "list_packs_and_trash depth B (rp_backend rp) = (Ok (packs, trash), st1)"
    and pl: "pl_unused_packs plan \<subseteq> packs" "pl_object_trash plan = trash" "pl_index_ids plan = mi_ids (rp_index rp)"
    using assms(5) unfolding scan_def Let_def by (auto split: sum.splits option.splits prod.splits)
  have listed: "finite packs" "\<forall>p\<in>packs. id_ok p" "\<forall>p\<in>set trash. is_trash p"
    using list_packs_frame [OF assms(1) l] by simp_all
  have "?P = (\<lambda>(i, l). lo_pack_id l) ` mi_entries (rp_index rp)" by force
  then have fin: "finite ?P" "\<forall>p\<in>?P. id_ok p" using assms(4) by (auto simp: mi_entries_def)
  have "pl_obsolete_packs plan \<subseteq> ?P" "pl_small_packs plan \<subseteq> ?P" using sound by blast+
  note sub = this
  have "\<forall>p\<in>pl_unused_packs plan \<union> pl_obsolete_packs plan \<union> pl_small_packs plan. id_ok p" using sub fin(2) listed(2) pl(1) by blast
  moreover have "finite (pl_unused_packs plan)" "finite (pl_obsolete_packs plan)" "finite (pl_small_packs plan)" "finite (pl_index_ids plan)"
    using sub fin(1) listed(1) pl(1,3) by (auto simp: mi_ids_def intro: finite_subset)
  ultimately show ?thesis using listed(3) pl(2) by (simp add: plan_ok_def)
qed

end

text \<open>A repository that the command finds in order: the blobs of \<open>refd\<close> are indexed and every pack of their entries is stored.\<close>

definition in_order :: "(path \<Rightarrow> bytes option) \<Rightarrow> MasterIndex \<Rightarrow> ID set \<Rightarrow> bool" where
  "in_order f mi refd \<longleftrightarrow> mi_ok mi \<and> sh_abs (mi_pending mi) = {} \<and> pack_count mi \<le> 2 ^ 32 \<and> (\<forall>(b, l)\<in>mi_entries mi. id_ok (lo_pack_id l)) \<and>
     (\<forall>b\<in>refd. b \<in> mi_indexed mi) \<and> (\<forall>(b, l)\<in>mi_entries mi. b \<in> refd \<longrightarrow> f (get_path PackFile (lo_pack_id l)) \<noteq> None)"

lemma in_order_safe:
  assumes "in_order f mi refd" "U \<inter> packs_of mi refd = {}"
  shows "blobs_safe U f mi refd"
  unfolding blobs_safe_def
proof (intro ballI conjI allI impI)
  fix b assume b: "b \<in> refd"
  have ok: "mi_ok mi" using assms(1) by (simp add: in_order_def)
  have "b \<in> mi_indexed mi" using assms(1) b by (simp add: in_order_def)
  then obtain l where l: "mi_get mi b = Some l" using mi_get_props(1) [OF ok, of b] by auto
  then have "lo_pack_id l \<in> packs_of mi refd" using b unfolding packs_of_def by blast
  with assms(2) mi_get_props(2) [OF ok l] show "\<exists>l. (b, l) \<in> mi_entries mi \<and> lo_pack_id l \<notin> U" by blast
  fix l assume "(b, l) \<in> mi_entries mi"
  with assms(1) b show "id_ok (lo_pack_id l)" "f (get_path PackFile (lo_pack_id l)) \<noteq> None" unfolding in_order_def by blast+
qed

lemma kept_entry:
  assumes "in_order f mi refd" "b \<in> refd" "mi_get mi b = Some l" "U \<inter> packs_of mi refd = {}"
  shows "id_ok (lo_pack_id l) \<and> lo_pack_id l \<notin> U \<and> f (get_path PackFile (lo_pack_id l)) \<noteq> None"
proof -
  have "(b, l) \<in> mi_entries mi" using mi_get_props(2) assms(1,3) by (simp add: in_order_def)
  moreover have "lo_pack_id l \<in> packs_of mi refd" using assms(2,3) unfolding packs_of_def by blast
  ultimately show ?thesis using assms(1,2,4) unfolding in_order_def by blast
qed

text \<open>The packs that the index knows.\<close>

definition index_packs :: "MasterIndex \<Rightarrow> ID set" where
  "index_packs mi = (\<lambda>(i, l). lo_pack_id l) ` mi_entries mi"

lemma saver_saves_mono: "saver_saves ok fs T join \<Longrightarrow> S \<subseteq> T \<Longrightarrow> saver_saves ok fs S join"
  unfolding saver_saves_def by blast

context stat_backend
begin

lemma execute_outcome:
  assumes "ge_backend E = B" "order_ok E" "saver_keeps inv files (ge_join E)" "saver_saves inv files (index_packs (rp_index rp)) (ge_join E)"
    "plan_ok plan" "plan_obsolete plan \<subseteq> index_packs (rp_index rp)" "pl_unused_packs plan \<inter> packs_of (rp_index rp) (pl_referenced_blobs plan) = {}"
    "inv (rp_backend rp)" "in_order (files (rp_backend rp)) (rp_index rp) (pl_referenced_blobs plan)" "execute E sig plan rp = (r, rp')"
  shows "case r of
      Inr _ \<Rightarrow> blobs_safe {} (files (rp_backend rp')) (rp_index rp') (pl_referenced_blobs plan)
    | Inl _ \<Rightarrow> \<forall>b\<in>pl_referenced_blobs plan. \<forall>l. mi_get (rp_index rp) b = Some l \<longrightarrow>
        files (rp_backend rp') (get_path PackFile (lo_pack_id l)) = files (rp_backend rp) (get_path PackFile (lo_pack_id l))"
proof (cases r)
  case (Inl e)
  have keep: "keeps_packs (pl_unused_packs plan) (files (rp_backend rp)) (files (rp_backend rp'))"
    using execute_frame [OF assms(1,2,5,3,8,10)] Inl by simp
  have "files (rp_backend rp') (get_path PackFile (lo_pack_id l)) = files (rp_backend rp) (get_path PackFile (lo_pack_id l))"
    if bl: "b \<in> pl_referenced_blobs plan" "mi_get (rp_index rp) b = Some l" for b l
  proof -
    obtain d where "files (rp_backend rp) (get_path PackFile (lo_pack_id l)) = Some d"
      and "id_ok (lo_pack_id l)" "lo_pack_id l \<notin> pl_unused_packs plan"
      using kept_entry [OF assms(9) bl assms(7)] by blast
    with keep show ?thesis unfolding keeps_packs_def by simp
  qed
  then show ?thesis using Inl by simp
next
  case (Inr s)
  have "mi_ok (rp_index rp)" "pack_count (rp_index rp) \<le> 2 ^ 32" "sh_abs (mi_pending (rp_index rp)) = {}"
    using assms(9) by (simp_all add: in_order_def)
  from execute_safe [OF assms(1,2,5,3) saver_saves_mono [OF assms(4,6)] assms(8) this in_order_safe [OF assms(9,7)] assms(10) [unfolded Inr]] Inr
  show ?thesis by simp
qed

lemma clean_core:
  assumes "ge_backend E = B" "order_ok E" "saver_keeps inv files (ge_join E)" "saver_saves inv files (index_packs (rp_index rp1)) (ge_join E)"
    "finite (loadable load)" "card (loadable load) < fuel" "inv (rp_backend rp1)"
    "reload_master_index (ge_backend E) (ge_crypto E) from_json (ge_sizing E) (ge_now E) rp = (Ok (), rp1)"
    "in_order (files (rp_backend rp1)) (rp_index rp1) (referenced load (snapshot_roots snapshots))"
  shows "\<exists>out rp'. run_with_repo E from_json tol fuel depth load snapshots sg args rp = (Some out, rp') \<and>
    (case out of
       Inr _ \<Rightarrow> blobs_safe {} (files (rp_backend rp')) (rp_index rp') (referenced load (snapshot_roots snapshots))
     | Inl _ \<Rightarrow> \<forall>b\<in>referenced load (snapshot_roots snapshots). \<forall>l. mi_get (rp_index rp1) b = Some l \<longrightarrow>
         files (rp_backend rp') (get_path PackFile (lo_pack_id l)) = files (rp_backend rp1) (get_path PackFile (lo_pack_id l)))"
proof -
  let ?R = "referenced load (snapshot_roots snapshots)"
  let ?run = "run_with_repo E from_json tol fuel depth load snapshots sg args rp"
  obtain r rp2 where sc: "scan fuel depth (tol (ca_no_repack args)) B load (cs_scan sg) snapshots rp1 = (Some r, rp2)"
    using scan_total [OF assms(5,6)] by blast
  have f2: "inv (rp_backend rp2)" "files (rp_backend rp2) = files (rp_backend rp1)" "rp_index rp2 = rp_index rp1"
    using scan_frame [OF assms(7) sc] by simp_all
  show ?thesis
  proof (cases r)
    case (Inl e)
    then have "\<exists>c. ?run = (Some (Inl c), rp2)" using assms(1,8) sc by (simp add: run_with_repo_def)
    with f2 show ?thesis by auto
  next
    case (Inr plan)
    note sound = scan_plan_sound [OF assms(5) sc [unfolded Inr] assms(6)]
    have refd: "pl_referenced_blobs plan = ?R" using sound by blast
    show ?thesis
    proof (cases "ca_dry_run args")
      case True
      then have "\<exists>c. ?run = (Some (Inr c), rp2)" using assms(1,8) sc Inr by (simp add: run_with_repo_def)
      with f2 in_order_safe [OF assms(9), of "{}"] show ?thesis by auto
    next
      case False
      obtain x rp' where ex: "execute E (cs_execute sg) plan rp2 = (x, rp')" by fastforce
      have "\<forall>(b, l)\<in>mi_entries (rp_index rp1). id_ok (lo_pack_id l)" using assms(9) by (simp add: in_order_def)
      note plan = scan_plan_ok [OF assms(7,5,6) this sc [unfolded Inr]]
      have "{lo_pack_id l | i l. (i, l) \<in> mi_entries (rp_index rp1)} = index_packs (rp_index rp1)" unfolding index_packs_def by force
      with sound have "pl_obsolete_packs plan \<subseteq> index_packs (rp_index rp1)" "pl_small_packs plan \<subseteq> index_packs (rp_index rp1)" by blast+
      then have "plan_obsolete plan \<subseteq> index_packs (rp_index rp1)" by (simp add: plan_obsolete_def)
      note outcome = execute_outcome [OF assms(1-3) _ plan _ _ f2(1) _ ex, unfolded f2(2,3), OF assms(4) this conjunct1 [OF conjunct2 [OF sound]],
          unfolded refd, OF assms(9)]
      have "\<exists>c. ?run = (Some (case x of Inl e \<Rightarrow> Inl c | Inr y \<Rightarrow> Inr (clean_output plan y)), rp')"
        using assms(1,8) sc Inr ex False by (auto simp: run_with_repo_def split: sum.splits)
      with outcome show ?thesis by (cases x) auto
    qed
  qed
qed

lemma reload_frame:
  assumes "inv (rp_backend rp)" "reload_master_index B cr from_json sz now rp = (r, rp')"
  shows "inv (rp_backend rp') \<and> files (rp_backend rp') = files (rp_backend rp)"
proof -
  have one: "inv st' \<and> files st' = files st" if "inv st" "read_index_file B cr ss from_json p st = (x, st')" for ss p st x st'
  proof (cases "path_id p")
    case (Some i)
    obtain rd st1 where rd: "be_read B st (handle_new_with_hint p IndexFileType True) 0 0 = (rd, st1)" by fastforce
    from read_file [OF that(1) rd] that(2) Some rd show ?thesis by (auto simp: read_index_file_def split: sum.splits)
  qed (use that in \<open>simp add: read_index_file_def\<close>)
  have all: "inv st' \<and> files st' = files st" if "inv st" "read_index_files B cr ss from_json ps st = (xs, st')" for ss ps st xs st'
    using that
  proof (induction ps arbitrary: st xs st')
    case (Cons p ps)
    obtain x st1 where x: "read_index_file B cr ss from_json p st = (x, st1)" by fastforce
    obtain ys st2 where ys: "read_index_files B cr ss from_json ps st1 = (ys, st2)" by fastforce
    from Cons.IH [OF conjunct1 [OF one [OF Cons.prems(1) x]] ys] one [OF Cons.prems(1) x] Cons.prems(2) x ys show ?case by simp
  qed simp
  obtain rn st1 where l: "be_list_dir B (rp_backend rp) [INDEX_DIR] = (rn, st1)" by fastforce
  note f = list_file [OF assms(1) l]
  have "rp_backend rp' = st1 \<or> (\<exists>ps xs. read_index_files B cr (rp_storage rp) from_json ps st1 = (xs, rp_backend rp'))"
    using assms(2) l
    by (auto simp: reload_master_index_def Let_def list_files_def list_files_with_extension_def list_all_files_def dir_for_type_def
        split: sum.splits prod.splits)
  with f all show ?thesis by metis
qed

lemma clean_dry_core:
  assumes "ge_backend E = B" "inv (rp_backend rp)" "ca_dry_run args" "run_with_repo E from_json tol fuel depth load snapshots sg args rp = (out, rp')"
  shows "files (rp_backend rp') = files (rp_backend rp)"
proof -
  obtain r rp1 where re: "reload_master_index B (ge_crypto E) from_json (ge_sizing E) (ge_now E) rp = (r, rp1)" by fastforce
  note f1 = reload_frame [OF assms(2) re]
  obtain x rp2 where sc: "scan fuel depth (tol (ca_no_repack args)) B load (cs_scan sg) snapshots rp1 = (x, rp2)" by fastforce
  have "rp2 = rp1" if "x = None" using sc that by (auto simp: scan_def Let_def split: sum.splits option.splits prod.splits)
  then have "files (rp_backend rp2) = files (rp_backend rp1)" using scan_frame [OF conjunct1 [OF f1]] sc by (cases x) auto
  moreover have "rp' = rp1 \<or> rp' = rp2"
    using assms(1,3,4) re sc by (auto simp: run_with_repo_def split: sum.splits option.splits)
  ultimately show ?thesis using f1 by auto
qed

end


text \<open>A dry run of the clean command changes no file of the repository, however it ends.\<close>

theorem clean_dry_run:
  assumes "ge_backend E = mock_backend" "mb_inv (rp_backend rp)" "ca_dry_run args"
    "run_with_repo E from_json tol fuel depth load snapshots sg args rp = (out, rp')"
  shows "mb_files (rp_backend rp') = mb_files (rp_backend rp)"
  using assms by (rule mock_stat.clean_dry_core)

section \<open>Concrete instances\<close>

text \<open>The trees and the file of \<open>gc_load\<close> lie in pack 9, and pack 8 is not used.\<close>

definition clean_index_file :: IndexFile where
  "clean_index_file = \<lparr>if_packs = [\<lparr>fp_id = demo_id 9,
     fp_blobs = [\<lparr>fb_id = ID [1], fb_type = Tree, fb_offset = 0, fb_length = 10, fb_raw_length = 20\<rparr>,
       \<lparr>fb_id = ID [2], fb_type = Tree, fb_offset = 10, fb_length = 10, fb_raw_length = 20\<rparr>,
       \<lparr>fb_id = ID [3], fb_type = Data, fb_offset = 20, fb_length = 10, fb_raw_length = 20\<rparr>]\<rparr>]\<rparr>"

definition clean_repo :: "MockBackend Repository" where
  "clean_repo = demo_repo\<lparr>rp_storage := \<lparr>ss_level = 3, ss_key = None\<rparr>,
     rp_backend := (mock_new 0)\<lparr>mb_nodes := [(get_path IndexFileType (demo_id 4), mock_file 0 [7]),
       (get_path PackFile (demo_id 8), mock_file 0 [6]), (get_path PackFile (demo_id 9), mock_file 0 (replicate 30 5))]\<rparr>\<rparr>"

lemma file_locs_list:
  "file_locs ps t = set (concat (map (\<lambda>p. map (\<lambda>b. (fb_id b, file_locator (fp_id p) b)) (filter (\<lambda>b. fb_type b = t) (fp_blobs p))) ps))"
  by (auto simp: file_locs_def)

lemma clean_store: "mb_inv (rp_backend clean_repo)" "mb_files (rp_backend clean_repo) (get_path PackFile (demo_id 9)) = Some (replicate 30 5)"
  "mb_files (rp_backend clean_repo) (get_path IndexFileType (demo_id 4)) = Some [7]"
proof -
  have "get_path PackFile (demo_id 9) \<noteq> get_path PackFile (demo_id 8)"
    "get_path IndexFileType (demo_id 4) \<noteq> get_path PackFile i" "get_path PackFile i \<noteq> get_path IndexFileType (demo_id 4)" for i
    using demo_paths by (auto simp: get_path_def get_object_path_def)
  then show "mb_files (rp_backend clean_repo) (get_path PackFile (demo_id 9)) = Some (replicate 30 5)"
    "mb_files (rp_backend clean_repo) (get_path IndexFileType (demo_id 4)) = Some [7]"
    by (auto simp: clean_repo_def mb_files_def mock_file_def)
  have "take 2 (hex_name (demo_id 8)) < take 2 (hex_name (demo_id 9))" by code_simp
  then have "get_path IndexFileType (demo_id 4) < get_path PackFile (demo_id 8)" "get_path PackFile (demo_id 8) < get_path PackFile (demo_id 9)"
    by (simp_all add: get_path_def get_object_path_def INDEX_DIR_def OBJECTS_DIR_def OBJECTS_DIR_FANOUT_def)
  then show "mb_inv (rp_backend clean_repo)" by (auto simp: mb_inv_def clean_repo_def mock_new_def)
qed

lemma clean_list:
  "\<exists>st. list_files mock_backend IndexFileType (rp_backend clean_repo) = (Ok [get_path IndexFileType (demo_id 4)], st) \<and>
     mb_inv st \<and> mb_files st = mb_files (rp_backend clean_repo)"
proof -
  let ?st = "rp_backend clean_repo"
  obtain r st where l: "be_list_dir mock_backend ?st [INDEX_DIR] = (r, st)" by fastforce
  have "mb_list_loop [INDEX_DIR] (mb_nodes ?st) [] = [NodeFile (get_path IndexFileType (demo_id 4)) 1]"
    by (simp add: clean_repo_def get_path_def get_object_path_def mock_file_def INDEX_DIR_def OBJECTS_DIR_def)
  then have "r = Ok [NodeFile (get_path IndexFileType (demo_id 4)) 1]"
    using l by (simp add: mock_backend_def mb_list_dir_def clean_repo_def mb_exec_no_hooks mock_new_def as_nodes_def)
  with l mock.list_file [OF clean_store(1) l] show ?thesis
    by (simp add: list_files_def list_files_with_extension_def list_all_files_def dir_for_type_def)
qed

lemma clean_reload:
  "\<exists>rp1. reload_master_index mock_backend demo_crypto (\<lambda>d. Some clean_index_file) demo_sizing 0 clean_repo = (Ok (), rp1) \<and> mb_inv (rp_backend rp1) \<and>
     in_order (mb_files (rp_backend rp1)) (rp_index rp1) (referenced gc_load {ID [1]}) \<and> index_packs (rp_index rp1) = {demo_id 9}"
proof -
  let ?p = "get_path IndexFileType (demo_id 4)" and ?js = "\<lambda>d :: bytes. Some clean_index_file"
  from clean_list obtain st where l: "list_files mock_backend IndexFileType (rp_backend clean_repo) = (Ok [?p], st)"
    and st: "mb_inv st" "mb_files st = mb_files (rp_backend clean_repo)" by blast
  obtain r s where rd: "be_read mock_backend st (handle_new_with_hint ?p IndexFileType True) 0 0 = (r, s)" by fastforce
  have "r = Ok [7]" using mock.read_file [OF st(1) rd] clean_store(3) by (simp add: st(2) handle_new_with_hint_def)
  then have ri: "read_index_files mock_backend demo_crypto (rp_storage clean_repo) ?js (sort [?p]) st = ([Ok (Some (clean_index_file, demo_id 4))], s)"
    using rd by (simp add: read_index_file_def path_id_def clean_repo_def ss_decode_def ss_decrypt_def ss_decompress_def demo_crypto_def)
  obtain rp1 where re: "reload_master_index mock_backend demo_crypto ?js demo_sizing 0 clean_repo = (Ok (), rp1)"
    and ix: "length (mi_indices (rp_index rp1)) = 1"
    using l ri by (simp add: reload_master_index_def Let_def mi_add_index_def mi_clear_def mi_initialize_bloom_filter_def)
  have "sizing_ok demo_sizing" by (simp add: sizing_ok_def demo_sizing_def)
  moreover have "sh_ok (mi_pending (rp_index clean_repo))" by (simp add: clean_repo_def demo_repo_def mi_new_def)
  ultimately have mi: "mi_ok (rp_index rp1)" "mi_entries (rp_index rp1) = loaded_locs [Ok (Some (clean_index_file, demo_id 4))]" "sh_abs (mi_pending (rp_index rp1)) = {}"
    using reload_props [OF _ _ l ri _ re] by (simp_all add: clean_index_file_def)
  have ents: "mi_entries (rp_index rp1) = {(ID [1], file_locator (demo_id 9) \<lparr>fb_id = ID [1], fb_type = Tree, fb_offset = 0, fb_length = 10, fb_raw_length = 20\<rparr>),
      (ID [2], file_locator (demo_id 9) \<lparr>fb_id = ID [2], fb_type = Tree, fb_offset = 10, fb_length = 10, fb_raw_length = 20\<rparr>),
      (ID [3], file_locator (demo_id 9) \<lparr>fb_id = ID [3], fb_type = Data, fb_offset = 20, fb_length = 10, fb_raw_length = 20\<rparr>)}"
    unfolding mi(2) by (auto simp: clean_index_file_def file_locs_list)
  note f = mock_stat.reload_frame [OF clean_store(1) re]
  obtain i where i: "mi_indices (rp_index rp1) = [i]" using ix by (auto simp: length_Suc_conv)
  then have "index_ok i" using mi_okD(1) [OF mi(1)] by simp
  with i have "pack_count (rp_index rp1) \<le> 2 ^ 32" by (simp add: pack_count_def index_ok_def index_num_packs_def)
  moreover have "referenced gc_load {ID [1]} \<subseteq> {ID [1], ID [2], ID [3]}"
    using gc_load_reach by (auto simp: referenced_def below_def gc_load_def data_blobs_def gc_file_def gc_dir_def)
  ultimately have "in_order (mb_files (rp_backend rp1)) (rp_index rp1) (referenced gc_load {ID [1]})"
    using f clean_store(2) mi(1,3) unfolding in_order_def mi_indexed_def ents by (auto simp: file_locator_def)
  moreover have "index_packs (rp_index rp1) = {demo_id 9}" unfolding index_packs_def ents by (simp add: file_locator_def)
  ultimately show ?thesis using re f by blast
qed

definition clean_sig :: clean_signals where
  "clean_sig = \<lparr>cs_scan = (\<lambda>_. False), cs_scan_end = False, cs_execute = (\<lambda>_. False), cs_execute_end = False\<rparr>"

definition clean_tol :: "bool \<Rightarrow> gc_thresholds" where
  "clean_tol no_repack = \<lparr>gt_small = (\<lambda>n. n < 10), gt_over = (\<lambda>n. \<not> no_repack \<and> n > 5)\<rparr>"


theorem clean_dry_run_witness:
  "mb_files (rp_backend (snd (run_with_repo gc_demo (\<lambda>d. Some clean_index_file) clean_tol 4 4 gc_load [Ok (ID [7], demo_snapshot 10)] clean_sig
     \<lparr>ca_no_repack = False, ca_dry_run = True\<rparr> clean_repo))) = mb_files (rp_backend clean_repo)"
  by (rule clean_dry_run [OF gc_demo_ok(3) clean_store(1) _ prod.collapse [symmetric]]) simp

end
