(* ===== verification/Spec2Isabelle.thy ===== *)
theory Spec2Isabelle
  imports Prelude Bytes Collections ChunkerTables Chunker Storage Backend Packer PackSaver Stats BlobIndex MasterIndex Repository Lock FsFilter FsTree Snapshot RepoFiles Retention Loader GcScan Gc Clean
begin

text \<open>
  A verification development for mapache, an encrypted and deduplicating backup program.
\<close>

section \<open>From a packer to a loaded blob\<close>

text \<open>C1: A blob that was packed, uploaded and registered can be loaded. When a packer is finalized, its pack saved
  under the pack's id and handed to the master index, then loading any blob of the packer that no other
  pack holds returns the data that was encoded, whether or not the index file could be saved. The pack
  format, the secure storage, the backend, the index and the repository agree on every offset.\<close>

theorem packed_blob_loads:
  assumes "crypto_ok cr" "length nonce = 12" "\<forall>i. id_ok (fst (rng i))" "packer_ok p"
    "finalize_and_extract cr rng nonce p = (Ok (Some r), p')" "pf_meta_size r < 2 ^ 32"
    "mb_inv st" "save_file mock_backend cr ss n2 (WithID (pf_id r)) (pf_data r) hint None st = (Ok w, rp_backend rp)"
    "hint_file_type hint = PackFile" "mi_ok mi" "mi_room mi"
    "mi_add_pack lim sz to_json sv now (pf_id r) (pf_descriptors r) mi x = (res, rp_index rp, x')"
    "(bid, t, enc) \<in> set (packer_blobs p)" "distinct (map pd_id (pk_descriptors p))" "enc \<noteq> []" "bid \<notin> mi_indexed mi"
    "decode_owned cr (rp_storage rp) enc = Ok data"
  shows "\<exists>st'. repo_load_blob mock_backend cr bid rp = (Ok data, rp\<lparr>rp_backend := st'\<rparr>)"
  using mock.stored_blob [OF assms(7,1-6,8-17)] .

theorem packed_blob_loads_witness:
  "\<exists>(rp :: MockBackend Repository) st'. repo_load_blob mock_backend demo_crypto (ID (replicate 32 8)) rp = (Ok [3, 4, 5], rp\<lparr>rp_backend := st'\<rparr>)"
proof -
  obtain r where r: "finalize_and_extract demo_crypto demo_rng (replicate 12 1) demo_packer =
      (Ok (Some r), recycle_buffer demo_packer [])" "pf_meta_size r < 2 ^ 32" by (rule demo_finalize)
  have "file_encoding demo_crypto demo_ss [] (pf_data r) (hint_file_type (demo_hint PackFile)) = Ok (None, word_of_nat (length (pf_data r)))"
    by (simp add: file_encoding_def demo_hint_def)
  from mock_save_Ok [OF demo_store(1) this, of "pf_id r" None] obtain st1 sizes where
    s: "save_file mock_backend demo_crypto demo_ss [] (WithID (pf_id r)) (pf_data r) (demo_hint PackFile) None (mock_new 0) = (Ok (pf_id r, sizes), st1)"
    by (auto simp: demo_store(2))
  obtain res mi' x' where m: "mi_add_pack demo_limits demo_sizing (\<lambda>f. None) demo_save 0 (pf_id r) (pf_descriptors r) (mi_new 1) 0 = (res, mi', x')"
    by (metis prod_cases3)
  let ?rp = "demo_repo\<lparr>rp_backend := st1, rp_index := mi', rp_storage := \<lparr>ss_level = 3, ss_key = None\<rparr>\<rparr>"
  have dec: "decode_owned demo_crypto (rp_storage ?rp) [3, 4, 5] = Ok [3, 4, 5]"
    by (simp add: decode_owned_def decrypt_in_place_def ss_decompress_def demo_crypto_def)
  have blob: "(ID (replicate 32 8), Data, [3, 4, 5]) \<in> set (packer_blobs demo_packer)" "distinct (map pd_id (pk_descriptors demo_packer))"
    by (simp_all add: demo_packer_def pack_blobs_def blob_at_def slice_def)
  have s': "save_file mock_backend demo_crypto demo_ss [] (WithID (pf_id r)) (pf_data r) (demo_hint PackFile) None (mock_new 0) = (Ok (pf_id r, sizes), rp_backend ?rp)"
    and m': "mi_add_pack demo_limits demo_sizing (\<lambda>f. None) demo_save 0 (pf_id r) (pf_descriptors r) (mi_new 1) 0 = (res, rp_index ?rp, x')"
    and hint: "hint_file_type (demo_hint PackFile) = PackFile" using s m by (simp_all add: demo_hint_def)
  have "\<exists>st'. repo_load_blob mock_backend demo_crypto (ID (replicate 32 8)) ?rp = (Ok [3, 4, 5], ?rp\<lparr>rp_backend := st'\<rparr>)"
    by (rule packed_blob_loads [OF demo_crypto_ok _ demo_rng_ok demo_packer_ok r demo_store(1) s' hint mi_ok_new mi_new_simps(1) m' blob _ _ dec])
      simp_all
  then show ?thesis by blast
qed

end
